(* ===== verification/DDE_Prelude.thy ===== *)
theory DDE_Prelude
  imports Main "HOL-Library.Word" "HOL-Library.Monad_Syntax"
begin

text \<open>
  Shared vocabulary of the development: machine types of the 32-bit x86 target, byte-addressed
  memory with little-endian 32-bit cells (what \<open>memset\<close>, pointer stores and pointer loads of the C
  code do), the errno values the sources return, and the list and option facts that several
  components use.

  Conventions of all component theories.  A C function is a HOL function over an explicit state
  record.  A result \<open>None\<close> of an operation means that the code faults: a dereference of a null or
  dangling pointer, an access outside an array, a failed assertion, \<open>BUG()\<close> or \<open>panic()\<close>.  Error
  codes are ordinary results.  \<open>printk\<close> output is not part of the state.
\<close>

unbundle bit_operations_syntax

type_synonym u8 = "8 word"
type_synonym u16 = "16 word"
type_synonym u32 = "32 word"
type_synonym addr = "32 word"
type_synonym memory = "addr \<Rightarrow> u8"

named_theorems dde_simps \<open>rewrite rules that evaluate the operations of the components\<close>
named_theorems dde_frame \<open>which parts of the state an operation leaves alone\<close>

section \<open>Byte memory\<close>

definition byte_of :: "u32 \<Rightarrow> nat \<Rightarrow> u8" where
  "byte_of v i = ucast (drop_bit (8 * i) v)"

definition load32 :: "memory \<Rightarrow> addr \<Rightarrow> u32" where
  "load32 m a = ucast (m a) OR push_bit 8 (ucast (m (a + 1)))
     OR push_bit 16 (ucast (m (a + 2))) OR push_bit 24 (ucast (m (a + 3)))"

definition store32 :: "addr \<Rightarrow> u32 \<Rightarrow> memory \<Rightarrow> memory" where
  "store32 a v m = m(a := byte_of v 0, a + 1 := byte_of v 1, a + 2 := byte_of v 2, a + 3 := byte_of v 3)"

text \<open>\<open>memset (p, c, n)\<close> writes the \<open>n\<close> bytes from \<open>p\<close> on; addresses wrap as the machine's do.\<close>

definition memset :: "addr \<Rightarrow> u8 \<Rightarrow> u32 \<Rightarrow> memory \<Rightarrow> memory" where
  "memset p c n m = (\<lambda>a. if a - p < n then c else m a)"

text \<open>\<open>memcpy (dst, bytes)\<close> stores a list of bytes at consecutive addresses.\<close>

definition memcpy :: "addr \<Rightarrow> u8 list \<Rightarrow> memory \<Rightarrow> memory" where
  "memcpy p bs m = (\<lambda>a. if unat (a - p) < length bs then bs ! unat (a - p) else m a)"

definition load_bytes :: "memory \<Rightarrow> addr \<Rightarrow> nat \<Rightarrow> u8 list" where
  "load_bytes m p n = map (\<lambda>i. m (p + of_nat i)) [0..<n]"

lemma offsets_distinct [simp]:
  fixes a :: addr
  shows "a + 1 \<noteq> a" "a + 2 \<noteq> a" "a + 3 \<noteq> a" "a + 2 \<noteq> a + 1" "a + 3 \<noteq> a + 1" "a + 3 \<noteq> a + 2"
    "a \<noteq> a + 1" "a \<noteq> a + 2" "a \<noteq> a + 3" "a + 1 \<noteq> a + 2" "a + 1 \<noteq> a + 3" "a + 2 \<noteq> a + 3"
  by simp_all

lemma bytes_compose:
  "(ucast (byte_of v 0) :: u32) OR push_bit 8 (ucast (byte_of v 1))
     OR push_bit 16 (ucast (byte_of v 2)) OR push_bit 24 (ucast (byte_of v 3)) = v"
proof (rule bit_word_eqI)
  fix n assume "n < LENGTH(32)"
  then have "n < 32" by simp
  then consider "n < 8" | "8 \<le> n" "n < 16" | "16 \<le> n" "n < 24" | "24 \<le> n" "n < 32" by linarith
  then show "bit ((ucast (byte_of v 0) :: u32) OR push_bit 8 (ucast (byte_of v 1))
     OR push_bit 16 (ucast (byte_of v 2)) OR push_bit 24 (ucast (byte_of v 3))) n = bit v n"
    by cases (auto simp: byte_of_def bit_simps less_diff_conv2)
qed

lemma load32_store32 [simp]: "load32 (store32 a v m) a = v"
  using bytes_compose [of v] by (simp add: load32_def store32_def)

lemma store32_outside: "\<not> b - a < 4 \<Longrightarrow> store32 a v m b = m b"
  by (auto simp: store32_def)

lemma memset_inside [simp]: "a - p < n \<Longrightarrow> memset p c n m a = c"
  by (simp add: memset_def)

lemma memset_outside [simp]: "\<not> a - p < n \<Longrightarrow> memset p c n m a = m a"
  by (simp add: memset_def)

lemma length_load_bytes [simp]: "length (load_bytes m p n) = n"
  by (simp add: load_bytes_def)

lemma load_bytes_memcpy:
  assumes "length bs < 2 ^ 32"
  shows "load_bytes (memcpy p bs m) p (length bs) = bs"
proof (rule nth_equalityI)
  fix i assume "i < length (load_bytes (memcpy p bs m) p (length bs))"
  then have i: "i < length bs" by simp
  with assms have "unat (of_nat i :: addr) = i"
    by (simp add: unat_of_nat take_bit_nat_eq_self)
  with i show "load_bytes (memcpy p bs m) p (length bs) ! i = bs ! i"
    by (simp add: load_bytes_def memcpy_def)
qed simp

text \<open>Numbers in network byte order: \<open>ntohl\<close>, \<open>ntohs\<close> and \<open>be32_to_cpu\<close> of bytes in memory order, and \<open>cpu_to_be32\<close>.\<close>

definition be_value :: "u8 list \<Rightarrow> u32" where
  "be_value bs = foldl (\<lambda>v b. push_bit 8 v OR ucast b) 0 bs"

definition be32_bytes :: "u32 \<Rightarrow> u8 list" where
  "be32_bytes v = [byte_of v 3, byte_of v 2, byte_of v 1, byte_of v 0]"

lemma be_value_be32_bytes [simp]: "be_value (be32_bytes v) = v"
proof -
  have "be_value (be32_bytes v) = (ucast (byte_of v 0) :: u32) OR push_bit 8 (ucast (byte_of v 1))
     OR push_bit 16 (ucast (byte_of v 2)) OR push_bit 24 (ucast (byte_of v 3))"
    by (simp add: be_value_def be32_bytes_def push_bit_or ac_simps)
  then show ?thesis using bytes_compose [of v] by simp
qed

lemma sint_small:
  fixes x :: u32
  assumes "unat x < 2 ^ 31"
  shows "sint x = int (unat x)"
proof -
  have "int (unat x) < int (2 ^ 31)" using assms by (simp only: of_nat_less_iff)
  then have u: "uint x < 2 ^ 31" "0 \<le> uint x" by (simp_all del: power_numeral)
  then have "sint x = uint x"
    unfolding sint_uint by (intro signed_take_bit_int_eq_self) (auto intro: order_trans [OF _ u(2)])
  then show ?thesis by simp
qed

section \<open>Error numbers\<close>

abbreviation (input) EPERM :: int where "EPERM \<equiv> 1"
abbreviation (input) ENOENT :: int where "ENOENT \<equiv> 2"
abbreviation (input) EBADF :: int where "EBADF \<equiv> 9"
abbreviation (input) ENOMEM :: int where "ENOMEM \<equiv> 12"
abbreviation (input) EACCES :: int where "EACCES \<equiv> 13"
abbreviation (input) EFAULT :: int where "EFAULT \<equiv> 14"
abbreviation (input) EBUSY :: int where "EBUSY \<equiv> 16"
abbreviation (input) ENODEV :: int where "ENODEV \<equiv> 19"
abbreviation (input) EINVAL :: int where "EINVAL \<equiv> 22"
abbreviation (input) EPIPE :: int where "EPIPE \<equiv> 32"
abbreviation (input) ETIMEDOUT :: int where "ETIMEDOUT \<equiv> 110"
abbreviation (input) EINPROGRESS :: int where "EINPROGRESS \<equiv> 115"

section \<open>Lists and options\<close>

lemma bind_Some_iff [simp]: "(x \<bind> f = Some y) = (\<exists>a. x = Some a \<and> f a = Some y)"
  by (cases x) auto

text \<open>Deleting the first element that satisfies a predicate, as the list walks of the sources do.\<close>

fun remove_first :: "('a \<Rightarrow> bool) \<Rightarrow> 'a list \<Rightarrow> 'a list" where
  "remove_first P [] = []"
| "remove_first P (x # xs) = (if P x then xs else x # remove_first P xs)"

lemma remove_first_none [simp]: "\<forall>x \<in> set xs. \<not> P x \<Longrightarrow> remove_first P xs = xs"
  by (induction xs) auto

lemma remove_first_split:
  "\<forall>x \<in> set ys. \<not> P x \<Longrightarrow> P x \<Longrightarrow> remove_first P (ys @ x # zs) = ys @ zs"
  by (induction ys) auto

lemma set_remove_first_subset: "set (remove_first P xs) \<subseteq> set xs"
  by (induction xs) auto

lemma remove_first_keeps: "x \<in> set xs \<Longrightarrow> \<not> P x \<Longrightarrow> x \<in> set (remove_first P xs)"
  by (induction xs) auto

lemma distinct_remove_first: "distinct (map f xs) \<Longrightarrow> distinct (map f (remove_first P xs))"
  by (induction xs) (auto dest: subsetD [OF set_remove_first_subset])

lemma find_Some_in: "find P xs = Some x \<Longrightarrow> x \<in> set xs \<and> P x"
  by (induction xs) (auto split: if_splits)

lemma find_None_notin: "find P xs = None \<longleftrightarrow> (\<forall>x \<in> set xs. \<not> P x)"
  by (induction xs) auto

section \<open>Linked lists\<close>

text \<open>
  \<open>linked nx p xs\<close>: following the partial \<open>next\<close> function \<open>nx\<close> from the pointer \<open>p\<close> visits exactly the
  nodes \<open>xs\<close> and ends at the null pointer.
\<close>

fun linked :: "(addr \<rightharpoonup> addr) \<Rightarrow> addr \<Rightarrow> addr list \<Rightarrow> bool" where
  "linked nx p [] \<longleftrightarrow> p = 0"
| "linked nx p (x # xs) \<longleftrightarrow> p = x \<and> x \<noteq> 0 \<and> (case nx x of None \<Rightarrow> False | Some n \<Rightarrow> linked nx n xs)"

lemma linked_cong: "(\<And>x. x \<in> set xs \<Longrightarrow> nx' x = nx x) \<Longrightarrow> linked nx' p xs = linked nx p xs"
  by (induction xs arbitrary: p) (auto split: option.splits)

lemma linked_nonzero: "linked nx p xs \<Longrightarrow> 0 \<notin> set xs"
  by (induction xs arbitrary: p) (auto split: option.splits)

lemma linked_dom: "linked nx p xs \<Longrightarrow> x \<in> set xs \<Longrightarrow> \<exists>n. nx x = Some n"
  by (induction xs arbitrary: p) (auto split: option.splits)

lemma linked_head: "linked nx p xs \<Longrightarrow> p \<noteq> 0 \<Longrightarrow> \<exists>ys. xs = p # ys"
  by (cases xs) auto

text \<open>Clearing the low bits of a word rounds it down.\<close>

lemma unat_and_mask: "unat (y AND mask k) = unat y mod 2 ^ k" for y :: u32
  unfolding take_bit_eq_mask [symmetric] unsigned_take_bit_eq by (rule take_bit_eq_mod)

lemma unat_and_not_mask: "unat (y AND NOT (mask k)) = unat y - unat y mod 2 ^ k" for y :: u32
proof -
  have "(y AND NOT (mask k)) + (y AND mask k) = y" by (subst disjunctive_add) (auto simp: bit_simps bit_eq_iff)
  then have "y AND NOT (mask k) = y - (y AND mask k)" by (metis add_diff_cancel_right')
  moreover have "y AND mask k \<le> y" by (simp add: word_le_nat_alt unat_and_mask)
  ultimately show ?thesis by (simp add: unat_sub unat_and_mask)
qed

end
