(* ===== verification/DDE_Kit.thy ===== *)
theory DDE_Kit
  imports DDE_Prelude
begin

text \<open>
  The interface of the DDE kit, the host library the Linux environment is written against
  (\<open>dde_kit/memory.h\<close>, \<open>lock.h\<close>, \<open>semaphore.h\<close>, \<open>thread.h\<close>, \<open>timer.h\<close>, \<open>interrupt.h\<close>, \<open>pci.h\<close>,
  \<open>resources.h\<close>, \<open>pgtab.h\<close>).  Its code is not part of the repository, so every function of it is a
  field of a record that the operations of the model take as an argument; \<open>'k\<close> is the state the
  kit keeps and is never inspected.  A returned pointer \<open>0\<close> is C's \<open>NULL\<close>.  The record also holds
  what C leaves to the compiler and the linker (\<open>sizeof\<close>, the address of a \<open>symbol\<close>) and the meaning of code pointers that drivers hand to
  the allocator, over the whole state \<open>'s\<close>.
\<close>

record ('k, 's) dde_kit =
  slab_init :: "u32 \<Rightarrow> 'k \<Rightarrow> addr \<times> 'k"
  slab_alloc :: "addr \<Rightarrow> 'k \<Rightarrow> addr \<times> 'k"
  slab_free :: "addr \<Rightarrow> addr \<Rightarrow> 'k \<Rightarrow> 'k"
  slab_destroy :: "addr \<Rightarrow> 'k \<Rightarrow> 'k"
  simple_malloc :: "u32 \<Rightarrow> 'k \<Rightarrow> addr \<times> 'k"
  simple_free :: "addr \<Rightarrow> 'k \<Rightarrow> 'k"
  large_malloc :: "u32 \<Rightarrow> 'k \<Rightarrow> addr \<times> 'k"
  large_free :: "addr \<Rightarrow> 'k \<Rightarrow> 'k"
  lock_init :: "'k \<Rightarrow> addr \<times> 'k"
  lock_lock :: "addr \<Rightarrow> 'k \<Rightarrow> 'k"
  lock_unlock :: "addr \<Rightarrow> 'k \<Rightarrow> 'k"
  sem_init :: "int \<Rightarrow> 'k \<Rightarrow> addr \<times> 'k"
  sem_up :: "addr \<Rightarrow> 'k \<Rightarrow> 'k"
  sem_down :: "addr \<Rightarrow> 'k \<Rightarrow> 'k"
  thread_create :: "addr \<Rightarrow> addr \<Rightarrow> string \<Rightarrow> 'k \<Rightarrow> addr \<times> 'k"
  thread_myself :: "'k \<Rightarrow> addr"
  thread_adopt_myself :: "string \<Rightarrow> 'k \<Rightarrow> addr \<times> 'k"
  thread_get_id :: "addr \<Rightarrow> 'k \<Rightarrow> int"
  thread_set_data :: "addr \<Rightarrow> addr \<Rightarrow> 'k \<Rightarrow> 'k"
  thread_set_my_data :: "addr \<Rightarrow> 'k \<Rightarrow> 'k"
  thread_get_my_data :: "'k \<Rightarrow> addr"
  thread_schedule :: "'k \<Rightarrow> 'k"
  thread_exit :: "'k \<Rightarrow> 'k"
  thread_msleep :: "u32 \<Rightarrow> 'k \<Rightarrow> 'k"
  thread_usleep :: "u32 \<Rightarrow> 'k \<Rightarrow> 'k"
  thread_nsleep :: "u32 \<Rightarrow> 'k \<Rightarrow> 'k"
  jiffies :: "'k \<Rightarrow> u32"
  timer_init :: "'k \<Rightarrow> 'k"
  timer_add :: "addr \<Rightarrow> u32 \<Rightarrow> u32 \<Rightarrow> 'k \<Rightarrow> addr \<times> 'k"
  timer_del :: "addr \<Rightarrow> 'k \<Rightarrow> 'k"
  timer_pending_kit :: "addr \<Rightarrow> 'k \<Rightarrow> bool"
  interrupt_attach :: "u32 \<Rightarrow> bool \<Rightarrow> addr \<Rightarrow> 'k \<Rightarrow> int \<times> 'k"
  interrupt_enable :: "u32 \<Rightarrow> 'k \<Rightarrow> 'k"
  interrupt_disable :: "u32 \<Rightarrow> 'k \<Rightarrow> 'k"
  pci_init :: "'k \<Rightarrow> 'k"
  pci_readb :: "u32 \<Rightarrow> u32 \<Rightarrow> u32 \<Rightarrow> u32 \<Rightarrow> 'k \<Rightarrow> u8 \<times> 'k"
  pci_readw :: "u32 \<Rightarrow> u32 \<Rightarrow> u32 \<Rightarrow> u32 \<Rightarrow> 'k \<Rightarrow> u16 \<times> 'k"
  pci_readl :: "u32 \<Rightarrow> u32 \<Rightarrow> u32 \<Rightarrow> u32 \<Rightarrow> 'k \<Rightarrow> u32 \<times> 'k"
  pci_writeb :: "u32 \<Rightarrow> u32 \<Rightarrow> u32 \<Rightarrow> u32 \<Rightarrow> u8 \<Rightarrow> 'k \<Rightarrow> 'k"
  pci_writew :: "u32 \<Rightarrow> u32 \<Rightarrow> u32 \<Rightarrow> u32 \<Rightarrow> u16 \<Rightarrow> 'k \<Rightarrow> 'k"
  pci_writel :: "u32 \<Rightarrow> u32 \<Rightarrow> u32 \<Rightarrow> u32 \<Rightarrow> u32 \<Rightarrow> 'k \<Rightarrow> 'k"
  request_io :: "u32 \<Rightarrow> u32 \<Rightarrow> 'k \<Rightarrow> int \<times> 'k"
  release_io :: "u32 \<Rightarrow> u32 \<Rightarrow> 'k \<Rightarrow> 'k"
  request_mem :: "u32 \<Rightarrow> u32 \<Rightarrow> 'k \<Rightarrow> (int \<times> addr) \<times> 'k"
  release_mem :: "u32 \<Rightarrow> u32 \<Rightarrow> 'k \<Rightarrow> 'k"
  pgtab_get_physaddr :: "addr \<Rightarrow> 'k \<Rightarrow> addr"
  pgtab_get_virtaddr :: "addr \<Rightarrow> 'k \<Rightarrow> addr"
  sizeof :: "string \<Rightarrow> u32"
  symbol :: "string \<Rightarrow> addr"
  call_ctor :: "addr \<Rightarrow> addr \<Rightarrow> addr \<Rightarrow> u32 \<Rightarrow> 's \<Rightarrow> 's"
  call_dtor :: "addr \<Rightarrow> addr \<Rightarrow> addr \<Rightarrow> u32 \<Rightarrow> 's \<Rightarrow> 's"

text \<open>The part of the state that every component shares: the kit's own state and memory.\<close>

record 'k dde_base =
  kit :: 'k
  mem :: memory

text \<open>\<open>kcall\<close> performs a call into the kit that returns a value.\<close>

definition kcall :: "('k \<Rightarrow> 'r \<times> 'k) \<Rightarrow> ('k, 'z) dde_base_scheme \<Rightarrow> 'r \<times> ('k, 'z) dde_base_scheme" where
  "kcall f s = (fst (f (kit s)), s\<lparr>kit := snd (f (kit s))\<rparr>)"

lemma kcall_frame [simp]:
  "mem (snd (kcall f s)) = mem s" "dde_base.more (snd (kcall f s)) = dde_base.more s"
  "kit (snd (kcall f s)) = snd (f (kit s))" "fst (kcall f s) = fst (f (kit s))"
  by (simp_all add: kcall_def)

text \<open>
  What callers rely on from the kit's allocator: an address it returns is not in use.  \<open>live\<close> names
  the addresses in use in a kit state.
\<close>

definition kit_fresh :: "('k, 's) dde_kit \<Rightarrow> ('k \<Rightarrow> addr set) \<Rightarrow> bool" where
  "kit_fresh K live \<longleftrightarrow>
     (\<forall>n k. let (a, k') = simple_malloc K n k in
        live k \<subseteq> live k' \<and> (a \<noteq> 0 \<longrightarrow> a \<notin> live k \<and> a \<in> live k')) \<and>
     (\<forall>a k. live k - {a} \<subseteq> live (simple_free K a k)) \<and>
     (\<forall>n k. live k \<subseteq> live (snd (slab_init K n k))) \<and>
     (\<forall>k. live k \<subseteq> live (snd (lock_init K k)))"

lemma kit_freshD:
  assumes "kit_fresh K live"
  shows "live k \<subseteq> live (snd (simple_malloc K n k))"
    "fst (simple_malloc K n k) \<noteq> 0 \<Longrightarrow> fst (simple_malloc K n k) \<notin> live k"
    "fst (simple_malloc K n k) \<noteq> 0 \<Longrightarrow> fst (simple_malloc K n k) \<in> live (snd (simple_malloc K n k))"
    "live k - {a} \<subseteq> live (simple_free K a k)"
    "live k \<subseteq> live (snd (slab_init K n k))" "live k \<subseteq> live (snd (lock_init K k))"
  using assms by (auto simp: kit_fresh_def case_prod_beta Let_def)

text \<open>
  \<open>kit_preserves K g\<close>: none of the kit's allocation, lock, semaphore, scheduling and timer calls
  changes the observation \<open>g\<close> of the kit's state.  \<open>kit_tls\<close> is the documented contract of the
  thread-local data slot: it holds what the thread stored last.
\<close>

definition kit_preserves :: "('k, 's) dde_kit \<Rightarrow> ('k \<Rightarrow> 'o) \<Rightarrow> bool" where
  "kit_preserves K g \<longleftrightarrow>
     (\<forall>k a. g (lock_lock K a k) = g k \<and> g (lock_unlock K a k) = g k \<and>
       g (snd (slab_alloc K a k)) = g k \<and> g (large_free K a k) = g k \<and> g (simple_free K a k) = g k \<and>
       g (sem_up K a k) = g k \<and> g (sem_down K a k) = g k \<and> g (timer_del K a k) = g k) \<and>
     (\<forall>k a b. g (slab_free K a b k) = g k) \<and>
     (\<forall>k n. g (snd (large_malloc K n k)) = g k \<and> g (snd (simple_malloc K n k)) = g k) \<and>
     (\<forall>k i. g (snd (sem_init K i k)) = g k) \<and> (\<forall>k n. g (snd (thread_adopt_myself K n k)) = g k) \<and>
     (\<forall>k. g (thread_schedule K k) = g k) \<and> (\<forall>k a b e. g (snd (timer_add K a b e k)) = g k)"

definition kit_tls :: "('k, 's) dde_kit \<Rightarrow> bool" where
  "kit_tls K \<longleftrightarrow> kit_preserves K (thread_get_my_data K) \<and>
     (\<forall>d k. thread_get_my_data K (thread_set_my_data K d k) = d)"

lemma kit_preservesD [simp]:
  assumes "kit_preserves K g"
  shows "g (lock_lock K a k) = g k" "g (lock_unlock K a k) = g k" "g (snd (slab_alloc K a k)) = g k"
    "g (large_free K a k) = g k" "g (simple_free K a k) = g k" "g (sem_up K a k) = g k"
    "g (sem_down K a k) = g k" "g (timer_del K a k) = g k" "g (slab_free K a b k) = g k"
    "g (snd (large_malloc K n k)) = g k" "g (snd (simple_malloc K n k)) = g k"
    "g (snd (sem_init K i k)) = g k" "g (snd (thread_adopt_myself K nm k)) = g k"
    "g (thread_schedule K k) = g k" "g (snd (timer_add K a b e k)) = g k"
  using assms by (simp_all add: kit_preserves_def)

section \<open>A concrete kit for closed examples\<close>

text \<open>
  \<open>sim_kit\<close> is one host that meets the documented behaviour of the kit: a bump allocator that hands
  out 64 KiB apart blocks, counting semaphores that never block, a trace of the calls.  It serves
  only to evaluate the model on concrete inputs.
\<close>

record sim =
  sim_next :: addr
  sim_budget :: nat
  sim_now :: u32
  sim_data :: addr
  sim_cfg :: "u32 \<Rightarrow> u32"
  sim_trace :: "(string \<times> u32 list) list"

definition sim_init :: sim where
  "sim_init = \<lparr>sim_next = 0x10000, sim_budget = 64, sim_now = 100, sim_data = 0,
     sim_cfg = (\<lambda>pos. if pos = 0x10 then 0xE0000008 else 0), sim_trace = []\<rparr>"

definition sim_new :: "sim \<Rightarrow> addr \<times> sim" where
  "sim_new k = (if sim_budget k = 0 \<or> 0xFFFE0000 \<le> sim_next k then (0, k)
     else (sim_next k, k\<lparr>sim_next := sim_next k + 0x10000, sim_budget := sim_budget k - 1\<rparr>))"

definition sim_ev :: "string \<Rightarrow> u32 list \<Rightarrow> sim \<Rightarrow> sim" where
  "sim_ev n args k = k\<lparr>sim_trace := sim_trace k @ [(n, args)]\<rparr>"

text \<open>One prefetchable memory register of 4 KiB; all other configuration registers read zero.\<close>

definition sim_writable :: "u32 \<Rightarrow> u32" where
  "sim_writable pos = (if pos = 0x10 then 0xFFFFF000 else 0)"

definition sim_kit :: "(sim, 's) dde_kit" where
  "sim_kit = \<lparr>slab_init = (\<lambda>_. sim_new), slab_alloc = (\<lambda>_. sim_new),
    slab_free = (\<lambda>c p. sim_ev ''slab_free'' [c, p]), slab_destroy = (\<lambda>c. sim_ev ''slab_destroy'' [c]),
    simple_malloc = (\<lambda>_. sim_new), simple_free = (\<lambda>p. sim_ev ''simple_free'' [p]),
    large_malloc = (\<lambda>_. sim_new), large_free = (\<lambda>p. sim_ev ''large_free'' [p]),
    lock_init = sim_new, lock_lock = (\<lambda>l. sim_ev ''lock'' [l]), lock_unlock = (\<lambda>l. sim_ev ''unlock'' [l]),
    sem_init = (\<lambda>_. sim_new), sem_up = (\<lambda>l. sim_ev ''sem_up'' [l]), sem_down = (\<lambda>l. sim_ev ''sem_down'' [l]),
    thread_create = (\<lambda>_ _ _. sim_new), thread_myself = (\<lambda>k. 1),
    thread_adopt_myself = (\<lambda>_ k. (2, k)), thread_get_id = (\<lambda>t k. uint t),
    thread_set_data = (\<lambda>t d. sim_ev ''set_data'' [t, d]), thread_set_my_data = (\<lambda>d k. k\<lparr>sim_data := d\<rparr>),
    thread_get_my_data = sim_data, thread_schedule = sim_ev ''schedule'' [],
    thread_exit = sim_ev ''exit'' [], thread_msleep = (\<lambda>n. sim_ev ''msleep'' [n]),
    thread_usleep = (\<lambda>n. sim_ev ''usleep'' [n]), thread_nsleep = (\<lambda>n. sim_ev ''nsleep'' [n]),
    jiffies = sim_now, timer_init = sim_ev ''timer_init'' [],
    timer_add = (\<lambda>f d e. sim_new), timer_del = (\<lambda>t. sim_ev ''timer_del'' [t]),
    timer_pending_kit = (\<lambda>t k. True),
    interrupt_attach = (\<lambda>n _ _ k. (if n < 16 then 0 else - 1, k)),
    interrupt_enable = (\<lambda>n. sim_ev ''irq_enable'' [n]), interrupt_disable = (\<lambda>n. sim_ev ''irq_disable'' [n]),
    pci_init = sim_ev ''pci_init'' [],
    pci_readb = (\<lambda>_ _ _ w k. (ucast w, k)), pci_readw = (\<lambda>_ _ _ w k. (ucast w, k)),
    pci_readl = (\<lambda>_ _ _ w k. (sim_cfg k w, k)),
    pci_writeb = (\<lambda>b d f w v. sim_ev ''writeb'' [b, d, f, w, ucast v]),
    pci_writew = (\<lambda>b d f w v. sim_ev ''writew'' [b, d, f, w, ucast v]),
    pci_writel = (\<lambda>b d f w v k. k\<lparr>sim_cfg := (sim_cfg k)(w :=
      (v AND sim_writable w) OR (sim_cfg k w AND NOT (sim_writable w)))\<rparr>),
    request_io = (\<lambda>_ _ k. (0, k)), release_io = (\<lambda>a n. sim_ev ''release_io'' [a, n]),
    request_mem = (\<lambda>a n k. ((0, a + 0x80000000), k)), release_mem = (\<lambda>a n. sim_ev ''release_mem'' [a, n]),
    pgtab_get_physaddr = (\<lambda>a _. a - 0x10000), pgtab_get_virtaddr = (\<lambda>a _. a + 0x10000),
    sizeof = (\<lambda>_. 24), symbol = (\<lambda>n. of_nat (length n)), call_ctor = (\<lambda>_ _ _ _ s. s), call_dtor = (\<lambda>_ _ _ _ s. s)\<rparr>"

lemma sim_new_fresh:
  "\<forall>a. a < sim_next k \<longrightarrow> a < sim_next (snd (sim_new k))"
  "fst (sim_new k) \<noteq> 0 \<Longrightarrow> \<not> fst (sim_new k) < sim_next k"
  "fst (sim_new k) \<noteq> 0 \<Longrightarrow> fst (sim_new k) < sim_next (snd (sim_new k))"
  by (auto simp: sim_new_def not_le split: if_splits) (unat_arith, auto)+

lemma sim_kit_fresh: "kit_fresh sim_kit (\<lambda>k. {a. a < sim_next k})"
  using sim_new_fresh by (auto simp: kit_fresh_def case_prod_beta Let_def sim_kit_def sim_ev_def)

lemmas sim_defs = sim_init_def sim_new_def sim_ev_def sim_kit_def kcall_def

lemma sim_kit_tls: "kit_tls sim_kit"
  by (simp add: kit_tls_def kit_preserves_def sim_kit_def sim_ev_def sim_new_def)

end
