(* ===== verification/Kmem.thy ===== *)
theory Kmem
  imports DDE_Kit
begin

text \<open>
  The slab emulation of \<open>arch/dde_kit/kmem_cache.c\<close> and the \<open>kmalloc\<close> family of
  \<open>arch/dde_kit/kmalloc.c\<close>.  \<open>caches\<close> is the store of live \<open>struct kmem_cache\<close> objects,
  \<open>malloc_sizes\<close> the static table of general caches (object size, cache pointer); an allocation
  from a cache carries the cache's address in the word in front of the object.
\<close>

section \<open>Caches\<close>

record kmem_cache =
  kc_name :: addr
  kc_size :: u32
  kc_slab :: addr
  kc_lock :: addr
  kc_ctor :: addr
  kc_dtor :: addr

record 'k kmem_state = "'k dde_base" +
  caches :: "addr \<rightharpoonup> kmem_cache"
  malloc_sizes :: "(u32 \<times> addr) list"

abbreviation (input) GFP_ZERO :: u32 where "GFP_ZERO \<equiv> 0x8000"
abbreviation (input) GFP_KERNEL :: u32 where "GFP_KERNEL \<equiv> 0xD0"
abbreviation (input) GFP_ATOMIC :: u32 where "GFP_ATOMIC \<equiv> 0x20"
abbreviation (input) GFP_DMA :: u32 where "GFP_DMA \<equiv> 0x1"
abbreviation (input) SLAB_CTOR_CONSTRUCTOR :: u32 where "SLAB_CTOR_CONSTRUCTOR \<equiv> 1"

definition kmem_cache_size :: "addr \<Rightarrow> ('k, 'z) kmem_state_scheme \<Rightarrow> u32 option" where
  "kmem_cache_size c s = map_option kc_size (caches s c)"

definition kmem_cache_name :: "addr \<Rightarrow> ('k, 'z) kmem_state_scheme \<Rightarrow> addr option" where
  "kmem_cache_name c s = map_option kc_name (caches s c)"

definition kmem_cache_shrink :: "addr \<Rightarrow> int" where
  "kmem_cache_shrink c = 1"

definition kmem_cache_free ::
  "('k, ('k, 'z) kmem_state_scheme) dde_kit \<Rightarrow> addr \<Rightarrow> addr \<Rightarrow> ('k, 'z) kmem_state_scheme
   \<Rightarrow> ('k, 'z) kmem_state_scheme option" where
  "kmem_cache_free K c objp s = do {
     k \<leftarrow> caches s c;
     let s = (if kc_dtor k \<noteq> 0 then call_dtor K (kc_dtor k) objp c 0 s else s);
     let s = kit_update (lock_lock K (kc_lock k)) s;
     let s = kit_update (slab_free K (kc_slab k) objp) s;
     let s = kit_update (lock_unlock K (kc_lock k)) s;
     Some s }"

definition kmem_cache_alloc ::
  "('k, ('k, 'z) kmem_state_scheme) dde_kit \<Rightarrow> addr \<Rightarrow> u32 \<Rightarrow> ('k, 'z) kmem_state_scheme
   \<Rightarrow> (addr \<times> ('k, 'z) kmem_state_scheme) option" where
  "kmem_cache_alloc K c flags s = do {
     k \<leftarrow> caches s c;
     let s = kit_update (lock_lock K (kc_lock k)) s;
     let (ret, s) = kcall (slab_alloc K (kc_slab k)) s;
     let s = kit_update (lock_unlock K (kc_lock k)) s;
     if ret = 0 then Some (0, s)
     else do {
       let s = (if flags AND GFP_ZERO \<noteq> 0 then mem_update (memset ret 0 (kc_size k)) s else s);
       let s = (if kc_ctor k \<noteq> 0 then call_ctor K (kc_ctor k) ret c SLAB_CTOR_CONSTRUCTOR s else s);
       Some (ret, s) } }"

definition kmem_cache_destroy ::
  "('k, ('k, 'z) kmem_state_scheme) dde_kit \<Rightarrow> addr \<Rightarrow> ('k, 'z) kmem_state_scheme
   \<Rightarrow> ('k, 'z) kmem_state_scheme option" where
  "kmem_cache_destroy K c s = do {
     k \<leftarrow> caches s c;
     let s = kit_update (slab_destroy K (kc_slab k)) s;
     let s = kit_update (simple_free K c) s;
     Some (s\<lparr>caches := (caches s)(c := None)\<rparr>) }"

definition kmem_cache_create ::
  "('k, ('k, 'z) kmem_state_scheme) dde_kit \<Rightarrow> addr \<Rightarrow> u32 \<Rightarrow> u32 \<Rightarrow> u32 \<Rightarrow> addr \<Rightarrow> addr
   \<Rightarrow> ('k, 'z) kmem_state_scheme \<Rightarrow> addr \<times> ('k, 'z) kmem_state_scheme" where
  "kmem_cache_create K nm sz align flags ctor dtor s =
     (if nm = 0 then (0, s)
      else let (cache, s) = kcall (simple_malloc K (sizeof K ''kmem_cache'')) s in
        if cache = 0 then (0, s)
        else let (slab, s) = kcall (slab_init K sz) s in
          if slab = 0 then (0, kit_update (simple_free K cache) s)
          else let (lock, s) = kcall (lock_init K) s in
            (cache, s\<lparr>caches := (caches s)(cache \<mapsto>
               \<lparr>kc_name = nm, kc_size = sz, kc_slab = slab, kc_lock = lock, kc_ctor = ctor, kc_dtor = dtor\<rparr>)\<rparr>))"

section \<open>kmalloc\<close>

abbreviation (input) ULONG_MAX :: u32 where "ULONG_MAX \<equiv> 0xFFFFFFFF"

text \<open>
  \<open>static struct cache_sizes malloc_sizes[]\<close> with the sizes \<open>linux/kmalloc_sizes.h\<close> gives under
  \<open>DDE_LINUX\<close> and 4 KiB pages, and its terminating \<open>CACHE(ULONG_MAX)\<close>; all cache pointers are null.
\<close>

definition kmalloc_size_list :: "u32 list" where
  "kmalloc_size_list = [32, 64, 128, 256, 512, 1024, 2048]"

definition malloc_sizes_boot :: "(u32 \<times> addr) list" where
  "malloc_sizes_boot = map (\<lambda>n. (n, 0)) kmalloc_size_list @ [(ULONG_MAX, 0)]"

text \<open>The scan of the table; running past its end is a fault.\<close>

fun find_cache_in :: "u32 \<Rightarrow> (u32 \<times> addr) list \<Rightarrow> addr option" where
  "find_cache_in n [] = None"
| "find_cache_in n ((cs, c) # rest) = (if cs < n then find_cache_in n rest else Some c)"

definition find_cache :: "u32 \<Rightarrow> ('k, 'z) kmem_state_scheme \<Rightarrow> addr option" where
  "find_cache n s = find_cache_in n (malloc_sizes s)"

definition kfree ::
  "('k, ('k, 'z) kmem_state_scheme) dde_kit \<Rightarrow> addr \<Rightarrow> ('k, 'z) kmem_state_scheme
   \<Rightarrow> ('k, 'z) kmem_state_scheme option" where
  "kfree K objp s =
     (if objp = 0 then Some s
      else let p = objp - 4; c = load32 (mem s) p in
        if c \<noteq> 0 then kmem_cache_free K c p s
        else Some (kit_update (large_free K p) s))"

definition kmalloc ::
  "('k, ('k, 'z) kmem_state_scheme) dde_kit \<Rightarrow> u32 \<Rightarrow> u32 \<Rightarrow> ('k, 'z) kmem_state_scheme
   \<Rightarrow> (addr \<times> ('k, 'z) kmem_state_scheme) option" where
  "kmalloc K n flags s = do {
     let sz = n + 4;
     cache \<leftarrow> find_cache sz s;
     (p, s) \<leftarrow> (if cache \<noteq> 0 then kmem_cache_alloc K cache flags s
                else Some (kcall (large_malloc K sz) s));
     if p = 0 then Some (0, s)
     else do {
       let s = (if flags AND GFP_ZERO \<noteq> 0 \<and> cache = 0 then mem_update (memset p 0 sz) s else s);
       let s = mem_update (store32 p cache) s;
       Some (p + 4, s) } }"

text \<open>\<open>__kzalloc\<close> of \<open>mm/util.c\<close>, which \<open>kzalloc\<close> of \<open>linux/slab.h\<close> calls.\<close>

definition kzalloc ::
  "('k, ('k, 'z) kmem_state_scheme) dde_kit \<Rightarrow> u32 \<Rightarrow> u32 \<Rightarrow> ('k, 'z) kmem_state_scheme
   \<Rightarrow> (addr \<times> ('k, 'z) kmem_state_scheme) option" where
  "kzalloc K n flags s = do {
     (ret, s) \<leftarrow> kmalloc K n flags s;
     Some (ret, if ret \<noteq> 0 then mem_update (memset ret 0 n) s else s) }"

text \<open>
  The initialisation loop replaces the cache pointer of every entry in front of the terminator;
  \<open>names\<close> are the addresses of the strings \<open>"size-32"\<close>, \<open>"size-64"\<close> and so on.
\<close>

fun kmalloc_init_loop ::
  "('k, ('k, 'z) kmem_state_scheme) dde_kit \<Rightarrow> (u32 \<times> addr) list \<Rightarrow> (u32 \<times> addr) list \<Rightarrow> addr list
   \<Rightarrow> ('k, 'z) kmem_state_scheme \<Rightarrow> ('k, 'z) kmem_state_scheme option" where
  "kmalloc_init_loop K done [] names s = None"
| "kmalloc_init_loop K done ((cs, c) # rest) names s =
     (if cs = ULONG_MAX then Some (s\<lparr>malloc_sizes := done @ (cs, c) # rest\<rparr>)
      else case names of [] \<Rightarrow> None
        | nm # names' \<Rightarrow>
            let (c', s) = kmem_cache_create K nm cs 0 0 0 0 s
            in kmalloc_init_loop K (done @ [(cs, c')]) rest names' s)"

definition dde_linux26_kmalloc_init ::
  "('k, ('k, 'z) kmem_state_scheme) dde_kit \<Rightarrow> addr list \<Rightarrow> ('k, 'z) kmem_state_scheme
   \<Rightarrow> ('k, 'z) kmem_state_scheme option" where
  "dde_linux26_kmalloc_init K names s = kmalloc_init_loop K [] (malloc_sizes s) names s"

section \<open>Well-formedness of the general caches\<close>

definition cache_matches :: "('k, 'z) kmem_state_scheme \<Rightarrow> u32 \<Rightarrow> addr \<Rightarrow> bool" where
  "cache_matches s n c \<longleftrightarrow> c = 0 \<or>
     (case caches s c of None \<Rightarrow> False | Some k \<Rightarrow> kc_size k = n \<and> kc_ctor k = 0 \<and> kc_dtor k = 0)"

definition kmalloc_inv :: "('k, 'z) kmem_state_scheme \<Rightarrow> bool" where
  "kmalloc_inv s \<longleftrightarrow> map fst (malloc_sizes s) = kmalloc_size_list @ [ULONG_MAX] \<and>
     snd (last (malloc_sizes s)) = 0 \<and>
     (\<forall>(n, c) \<in> set (malloc_sizes s). cache_matches s n c)"

lemmas kmem_defs = kmem_cache_alloc_def kmem_cache_free_def kmalloc_def kfree_def find_cache_def

lemma kmalloc_inv_cong:
  "caches s' = caches s \<Longrightarrow> malloc_sizes s' = malloc_sizes s \<Longrightarrow> kmalloc_inv s' = kmalloc_inv s"
  by (simp add: kmalloc_inv_def cache_matches_def)

lemma kmalloc_inv_table:
  assumes "kmalloc_inv s"
  obtains c1 c2 c3 c4 c5 c6 c7 where "malloc_sizes s =
    [(32, c1), (64, c2), (128, c3), (256, c4), (512, c5), (1024, c6), (2048, c7), (ULONG_MAX, 0)]"
proof -
  have fsts: "map fst (malloc_sizes s) = [32, 64, 128, 256, 512, 1024, 2048, ULONG_MAX]"
    and lst: "snd (last (malloc_sizes s)) = 0"
    using assms by (simp_all add: kmalloc_inv_def kmalloc_size_list_def)
  then show ?thesis
    using that by (fastforce simp: map_eq_Cons_conv)
qed

lemma le_ULONG_MAX: "n \<le> ULONG_MAX"
proof -
  have "ULONG_MAX = (- 1 :: u32)" by simp
  then show ?thesis by (metis word_n1_ge)
qed

lemma find_cache_in_Some:
  "find_cache_in n tbl = Some c \<Longrightarrow> \<exists>cs. (cs, c) \<in> set tbl \<and> n \<le> cs"
  by (induction n tbl rule: find_cache_in.induct) (auto split: if_splits simp: not_less)

lemma find_cache_in_total: "\<exists>(cs, c) \<in> set tbl. n \<le> cs \<Longrightarrow> \<exists>c. find_cache_in n tbl = Some c"
  by (induction n tbl rule: find_cache_in.induct) (auto simp: not_less)

lemma find_cache_in_least:
  "find_cache_in n tbl = Some c \<Longrightarrow> sorted (map fst tbl) \<Longrightarrow>
   \<exists>cs. (cs, c) \<in> set tbl \<and> n \<le> cs \<and> (\<forall>cs' \<in> fst ` set tbl. n \<le> cs' \<longrightarrow> cs \<le> cs')"
proof (induction n tbl rule: find_cache_in.induct)
  case (2 n cs c' rest)
  show ?case
  proof (cases "cs < n")
    case True
    with 2 obtain cs' where "(cs', c) \<in> set rest" "n \<le> cs'" "\<forall>x \<in> fst ` set rest. n \<le> x \<longrightarrow> cs' \<le> x"
      by auto
    with True show ?thesis by (intro exI [of _ cs']) auto
  next
    case False
    with 2 show ?thesis by (intro exI [of _ cs]) (auto simp: not_less)
  qed
qed simp

lemma find_cache_total: "kmalloc_inv s \<Longrightarrow> \<exists>c. find_cache n s = Some c"
proof -
  assume "kmalloc_inv s"
  then have "(ULONG_MAX, 0) \<in> set (malloc_sizes s)"
    by (rule kmalloc_inv_table) simp
  moreover have "n \<le> ULONG_MAX"
    by (rule le_ULONG_MAX)
  ultimately show ?thesis
    unfolding find_cache_def by (intro find_cache_in_total) auto
qed

lemma find_cache_matches:
  assumes "kmalloc_inv s" "find_cache n s = Some c" "c \<noteq> 0"
  obtains k where "caches s c = Some k" "n \<le> kc_size k" "kc_ctor k = 0" "kc_dtor k = 0"
    "kc_size k \<in> set kmalloc_size_list" "\<forall>m \<in> set kmalloc_size_list. n \<le> m \<longrightarrow> kc_size k \<le> m"
proof -
  from assms(1) have tbl: "map fst (malloc_sizes s) = kmalloc_size_list @ [ULONG_MAX]"
    by (simp add: kmalloc_inv_def)
  then have fsts: "fst ` set (malloc_sizes s) = insert ULONG_MAX (set kmalloc_size_list)"
    unfolding set_map [symmetric] tbl by simp
  have "sorted (map fst (malloc_sizes s))"
    unfolding tbl by (simp add: kmalloc_size_list_def)
  with assms(2) obtain cs where cs: "(cs, c) \<in> set (malloc_sizes s)" "n \<le> cs"
      "\<forall>m \<in> fst ` set (malloc_sizes s). n \<le> m \<longrightarrow> cs \<le> m"
    unfolding find_cache_def using find_cache_in_least by blast
  with assms(1,3) obtain k where k: "caches s c = Some k" "kc_size k = cs" "kc_ctor k = 0" "kc_dtor k = 0"
    by (fastforce simp: kmalloc_inv_def cache_matches_def split: option.splits)
  have "cs \<in> set kmalloc_size_list"
    using assms(1)
  proof (rule kmalloc_inv_table)
    fix c1 c2 c3 c4 c5 c6 c7
    assume "malloc_sizes s = [(32, c1), (64, c2), (128, c3), (256, c4), (512, c5), (1024, c6),
      (2048, c7), (ULONG_MAX, 0)]"
    with cs(1) assms(3) show ?thesis by (auto simp: kmalloc_size_list_def)
  qed
  with k cs fsts show ?thesis by (intro that [of k]) auto
qed

section \<open>Behaviour of kmalloc and kfree\<close>

lemma kmalloc_result:
  assumes inv: "kmalloc_inv s" and fc: "find_cache (n + 4) s = Some c"
    and run: "kmalloc K n flags s = Some (objp, s')" and nn: "objp \<noteq> 0"
  shows "load32 (mem s') (objp - 4) = c \<and> caches s' = caches s \<and> malloc_sizes s' = malloc_sizes s \<and>
    (if c = 0 then (objp - 4, kit s') = large_malloc K (n + 4) (kit s)
     else (\<exists>k. caches s c = Some k \<and>
       objp - 4 = fst (slab_alloc K (kc_slab k) (lock_lock K (kc_lock k) (kit s)))))"
proof (cases "c = 0")
  case True
  then show ?thesis
    using fc run nn by (auto simp: kmalloc_def kcall_def Let_def split: if_splits)
next
  case False
  with inv fc obtain k where k: "caches s c = Some k" "kc_ctor k = 0"
    by (rule find_cache_matches)
  with False fc run nn show ?thesis
    by (auto simp: kmalloc_def kmem_cache_alloc_def kcall_def Let_def split: if_splits)
qed

lemma kmalloc_total: "kmalloc_inv s \<Longrightarrow> \<exists>p s'. kmalloc K n flags s = Some (p, s')"
proof -
  assume inv: "kmalloc_inv s"
  then obtain c where c: "find_cache (n + 4) s = Some c"
    using find_cache_total by blast
  show ?thesis
  proof (cases "c = 0")
    case True
    with c show ?thesis by (auto simp: kmalloc_def kcall_def Let_def)
  next
    case False
    with inv c obtain k where "caches s c = Some k" by (rule find_cache_matches)
    with c False show ?thesis by (auto simp: kmalloc_def kmem_cache_alloc_def kcall_def Let_def)
  qed
qed

lemma kmalloc_frame:
  assumes inv: "kmalloc_inv s" and run: "kmalloc K n flags s = Some (objp, s')"
  shows "caches s' = caches s" "malloc_sizes s' = malloc_sizes s"
    "kmem_state.more s' = kmem_state.more s"
proof -
  obtain c where c: "find_cache (n + 4) s = Some c"
    using inv find_cache_total by blast
  have "caches s' = caches s \<and> malloc_sizes s' = malloc_sizes s \<and> kmem_state.more s' = kmem_state.more s"
  proof (cases "c = 0")
    case True
    with c run show ?thesis by (auto simp: kmalloc_def kcall_def Let_def split: if_splits)
  next
    case False
    with inv c obtain k where "caches s c = Some k" "kc_ctor k = 0" by (rule find_cache_matches)
    with c False run show ?thesis
      by (auto simp: kmalloc_def kmem_cache_alloc_def kcall_def Let_def split: if_splits)
  qed
  then show "caches s' = caches s" "malloc_sizes s' = malloc_sizes s"
    "kmem_state.more s' = kmem_state.more s" by blast+
qed

lemma kmalloc_keeps_inv: "kmalloc_inv s \<Longrightarrow> kmalloc K n flags s = Some (p, s') \<Longrightarrow> kmalloc_inv s'"
  using kmalloc_frame kmalloc_inv_cong by blast

lemma kfree_cached:
  assumes "objp \<noteq> 0" "load32 (mem s) (objp - 4) = c" "c \<noteq> 0" "caches s c = Some k" "kc_dtor k = 0"
  shows "kfree K objp s = Some (s\<lparr>kit :=
    lock_unlock K (kc_lock k) (slab_free K (kc_slab k) (objp - 4) (lock_lock K (kc_lock k) (kit s)))\<rparr>)"
  using assms by (simp add: kfree_def kmem_cache_free_def Let_def)

lemma kfree_large:
  assumes "objp \<noteq> 0" "load32 (mem s) (objp - 4) = 0"
  shows "kfree K objp s = Some (s\<lparr>kit := large_free K (objp - 4) (kit s)\<rparr>)"
  using assms by (simp add: kfree_def Let_def)

lemma kmalloc_preserves:
  assumes "kit_preserves K g" "kmalloc_inv s" "kmalloc K n flags s = Some (p, s')"
  shows "g (kit s') = g (kit s)"
proof -
  obtain c where c: "find_cache (n + 4) s = Some c" using assms(2) find_cache_total by blast
  show ?thesis
  proof (cases "c = 0")
    case True
    with c assms(1,3) show ?thesis by (auto simp: kmalloc_def kcall_def Let_def split: if_splits)
  next
    case False
    with assms(2) c obtain k where "caches s c = Some k" "kc_ctor k = 0" by (rule find_cache_matches)
    with c False assms(1,3) show ?thesis
      by (auto simp: kmalloc_def kmem_cache_alloc_def kcall_def Let_def split: if_splits)
  qed
qed

section \<open>The heap as its clients see it\<close>

text \<open>
  What the rest of the environment relies on when it calls \<open>kmalloc\<close> and \<open>kfree\<close>: the calls never
  fault on a well-formed heap, keep it well formed, and leave the client's own state alone.
\<close>

locale kernel_heap =
  fixes alloc :: "u32 \<Rightarrow> u32 \<Rightarrow> 's \<Rightarrow> (addr \<times> 's) option"
    and release :: "addr \<Rightarrow> 's \<Rightarrow> 's option"
    and inv :: "'s \<Rightarrow> bool"
    and block :: "'s \<Rightarrow> addr \<Rightarrow> bool"
    and view :: "'s \<Rightarrow> 'v"
  assumes alloc_total: "inv s \<Longrightarrow> \<exists>p s'. alloc n f s = Some (p, s')"
    and alloc_inv: "inv s \<Longrightarrow> alloc n f s = Some (p, s') \<Longrightarrow> inv s'"
    and alloc_view: "inv s \<Longrightarrow> alloc n f s = Some (p, s') \<Longrightarrow> view s' = view s"
    and alloc_block: "inv s \<Longrightarrow> alloc n f s = Some (p, s') \<Longrightarrow> p \<noteq> 0 \<Longrightarrow> block s' p"
    and release_null: "release 0 s = Some s"
    and release_block: "inv s \<Longrightarrow> block s p \<Longrightarrow> \<exists>s'. release p s = Some s' \<and> inv s' \<and> view s' = view s"
begin

lemma alloc_cases:
  assumes "inv s"
  obtains p s' where "alloc n f s = Some (p, s')" "inv s'" "view s' = view s" "p \<noteq> 0 \<longrightarrow> block s' p"
  using assms alloc_total alloc_inv alloc_view alloc_block by meson

lemma alloc_release:
  assumes "inv s" "alloc n f s = Some (p, s1)"
  shows "\<exists>s2. release p s1 = Some s2 \<and> inv s2 \<and> view s2 = view s"
proof (cases "p = 0")
  case True
  with assms show ?thesis using release_null alloc_inv alloc_view by auto
next
  case False
  with assms have "block s1 p" "inv s1" "view s1 = view s"
    using alloc_block alloc_inv alloc_view by auto
  then show ?thesis using release_block by metis
qed

end

definition kmalloc_block :: "('k, 'z) kmem_state_scheme \<Rightarrow> addr \<Rightarrow> bool" where
  "kmalloc_block s p \<longleftrightarrow> p \<noteq> 0 \<and> load32 (mem s) (p - 4) \<in> snd ` set (malloc_sizes s)"

lemma kmalloc_gives_block:
  assumes inv: "kmalloc_inv s" and run: "kmalloc K n flags s = Some (p, s')" and nn: "p \<noteq> 0"
  shows "kmalloc_block s' p"
proof -
  obtain c where c: "find_cache (n + 4) s = Some c"
    using inv find_cache_total by blast
  then have "c \<in> snd ` set (malloc_sizes s)"
    by (force simp: find_cache_def dest: find_cache_in_Some)
  with kmalloc_result [OF inv c run nn] nn show ?thesis by (simp add: kmalloc_block_def)
qed

lemma kfree_block:
  assumes inv: "kmalloc_inv s" and blk: "kmalloc_block s p"
  shows "\<exists>k'. kfree K p s = Some (s\<lparr>kit := k'\<rparr>)"
proof (cases "load32 (mem s) (p - 4) = 0")
  case True
  with blk show ?thesis by (auto simp: kmalloc_block_def kfree_large)
next
  case False
  with inv blk obtain k where "caches s (load32 (mem s) (p - 4)) = Some k" "kc_dtor k = 0"
    by (fastforce simp: kmalloc_block_def kmalloc_inv_def cache_matches_def split: option.splits)
  with False blk show ?thesis by (auto simp: kmalloc_block_def kfree_cached)
qed

interpretation kheap: kernel_heap "kmalloc K" "kfree K" kmalloc_inv kmalloc_block kmem_state.more
  for K :: "('k, ('k, 'z) kmem_state_scheme) dde_kit"
proof unfold_locales
  fix s :: "('k, 'z) kmem_state_scheme" and n f :: u32
  assume "kmalloc_inv s"
  then show "\<exists>p s'. kmalloc K n f s = Some (p, s')" by (rule kmalloc_total)
next
  fix s s' :: "('k, 'z) kmem_state_scheme" and n f :: u32 and p :: addr
  assume a: "kmalloc_inv s" "kmalloc K n f s = Some (p, s')"
  then show "kmalloc_inv s'" by (rule kmalloc_keeps_inv)
  from a show "kmem_state.more s' = kmem_state.more s" by (rule kmalloc_frame)
  from a show "p \<noteq> 0 \<Longrightarrow> kmalloc_block s' p" by (rule kmalloc_gives_block)
next
  fix s :: "('k, 'z) kmem_state_scheme"
  show "kfree K 0 s = Some s" by (simp add: kfree_def)
next
  fix s :: "('k, 'z) kmem_state_scheme" and p :: addr
  assume inv: "kmalloc_inv s" and "kmalloc_block s p"
  then obtain k' where "kfree K p s = Some (s\<lparr>kit := k'\<rparr>)"
    using kfree_block by blast
  with inv show "\<exists>s'. kfree K p s = Some s' \<and> kmalloc_inv s' \<and> kmem_state.more s' = kmem_state.more s"
    by (simp add: kmalloc_inv_def cache_matches_def)
qed

section \<open>Creating caches and initialising kmalloc\<close>

lemma kmem_cache_create_result:
  assumes fresh: "kit_fresh K live" and live: "dom (caches s) \<subseteq> live (kit s)"
    and run: "kmem_cache_create K nm sz al fl ctor dtor s = (c, s')"
  shows "dom (caches s') \<subseteq> live (kit s')" and "malloc_sizes s' = malloc_sizes s"
    and "\<forall>a \<in> dom (caches s). caches s' a = caches s a"
    and "c \<noteq> 0 \<Longrightarrow> c \<notin> dom (caches s) \<and> (\<exists>sl l. caches s' = (caches s)(c \<mapsto>
      \<lparr>kc_name = nm, kc_size = sz, kc_slab = sl, kc_lock = l, kc_ctor = ctor, kc_dtor = dtor\<rparr>))"
    and "c = 0 \<Longrightarrow> caches s' = caches s"
proof -
  let ?n = "sizeof K ''kmem_cache''"
  define c0 where "c0 = fst (simple_malloc K ?n (kit s))"
  define k1 where "k1 = snd (simple_malloc K ?n (kit s))"
  define k2 where "k2 = snd (slab_init K sz k1)"
  note F = kit_freshD [OF fresh]
  have k1: "live (kit s) \<subseteq> live k1" "c0 \<noteq> 0 \<Longrightarrow> c0 \<notin> live (kit s)" "c0 \<noteq> 0 \<Longrightarrow> c0 \<in> live k1"
    unfolding c0_def k1_def by (rule F(1), erule F(2), erule F(3))
  have k2: "live k1 \<subseteq> live k2" "live k2 \<subseteq> live (snd (lock_init K k2))" "live k2 - {c0} \<subseteq> live (simple_free K c0 k2)"
    unfolding k2_def by (rule F(5), rule F(6), rule F(4))
  have s': "(c, s') = (if nm = 0 then (0, s) else if c0 = 0 then (0, s\<lparr>kit := k1\<rparr>)
      else if fst (slab_init K sz k1) = 0 then (0, s\<lparr>kit := simple_free K c0 k2\<rparr>)
      else (c0, s\<lparr>kit := snd (lock_init K k2), caches := (caches s)(c0 \<mapsto> \<lparr>kc_name = nm, kc_size = sz,
        kc_slab = fst (slab_init K sz k1), kc_lock = fst (lock_init K k2), kc_ctor = ctor, kc_dtor = dtor\<rparr>)\<rparr>))"
    unfolding run [symmetric] by (simp add: kmem_cache_create_def kcall_def Let_def c0_def k1_def k2_def)
  show "dom (caches s') \<subseteq> live (kit s')"
  proof -
    have "dom (caches s) \<subseteq> live k1" "dom (caches s) \<subseteq> live (snd (lock_init K k2))"
      using live k1(1) k2(1,2) by blast+
    moreover have "c0 \<noteq> 0 \<Longrightarrow> dom (caches s) \<subseteq> live (simple_free K c0 k2)"
      using live k1(1,2) k2(1,3) by blast
    moreover have "c0 \<noteq> 0 \<Longrightarrow> c0 \<in> live (snd (lock_init K k2))"
      using k1(3) k2(1,2) by blast
    ultimately show ?thesis using s' live by (simp split: if_splits)
  qed
  show "malloc_sizes s' = malloc_sizes s" using s' by (auto split: if_splits)
  show "\<forall>a \<in> dom (caches s). caches s' a = caches s a"
    using s' live k1(2) by (auto split: if_splits)
  show "c = 0 \<Longrightarrow> caches s' = caches s" using s' by (auto split: if_splits)
  show "c \<noteq> 0 \<Longrightarrow> c \<notin> dom (caches s) \<and> (\<exists>sl l. caches s' = (caches s)(c \<mapsto>
      \<lparr>kc_name = nm, kc_size = sz, kc_slab = sl, kc_lock = l, kc_ctor = ctor, kc_dtor = dtor\<rparr>))"
    using s' live k1(2) by (auto split: if_splits)
qed

lemma cache_matches_mono:
  "\<forall>a \<in> dom (caches s). caches s' a = caches s a \<Longrightarrow> cache_matches s n c \<Longrightarrow> cache_matches s' n c"
  by (force simp: cache_matches_def split: option.splits)

lemma kmalloc_init_loop_result:
  assumes "kit_fresh K live" and "dom (caches s) \<subseteq> live (kit s)" and "ULONG_MAX \<notin> set ns"
    and "length names = length ns" and "\<forall>(n, c) \<in> set done. cache_matches s n c"
  shows "\<exists>s' cs. kmalloc_init_loop K done (map (\<lambda>n. (n, 0)) ns @ [(ULONG_MAX, 0)]) names s = Some s' \<and>
    length cs = length ns \<and> malloc_sizes s' = done @ zip ns cs @ [(ULONG_MAX, 0)] \<and>
    (\<forall>(n, c) \<in> set (malloc_sizes s'). cache_matches s' n c) \<and>
    (\<forall>a \<in> dom (caches s). caches s' a = caches s a)"
  using assms(2-)
proof (induction ns arbitrary: "done" names s)
  case Nil
  then show ?case by (auto simp: cache_matches_def)
next
  case (Cons n ns)
  then obtain nm names' where names: "names = nm # names'" "length names' = length ns"
    by (cases names) auto
  obtain c s1 where run: "kmem_cache_create K nm n 0 0 0 0 s = (c, s1)" by fastforce
  note R = kmem_cache_create_result [OF assms(1) Cons.prems(1) run]
  have "cache_matches s1 n c"
    using R(4) by (cases "c = 0") (auto simp: cache_matches_def)
  moreover have "\<forall>(m, d) \<in> set done. cache_matches s1 m d"
    using Cons.prems(4) R(3) cache_matches_mono by blast
  ultimately have "\<forall>(m, d) \<in> set (done @ [(n, c)]). cache_matches s1 m d" by auto
  moreover have "ULONG_MAX \<notin> set ns" using Cons.prems(2) by simp
  ultimately obtain s' cs where IH: "kmalloc_init_loop K (done @ [(n, c)])
        (map (\<lambda>n. (n, 0)) ns @ [(ULONG_MAX, 0)]) names' s1 = Some s'" "length cs = length ns"
      "malloc_sizes s' = (done @ [(n, c)]) @ zip ns cs @ [(ULONG_MAX, 0)]"
      "\<forall>(m, d) \<in> set (malloc_sizes s'). cache_matches s' m d"
      "\<forall>a \<in> dom (caches s1). caches s' a = caches s1 a"
    using Cons.IH [OF R(1) _ names(2), of "done @ [(n, c)]"] by blast
  have "\<forall>a \<in> dom (caches s). caches s' a = caches s a"
  proof
    fix a assume a: "a \<in> dom (caches s)"
    with R(3) have "caches s1 a = caches s a" by blast
    moreover from this a have "a \<in> dom (caches s1)" by (simp add: domIff)
    ultimately show "caches s' a = caches s a" using IH(5) by simp
  qed
  moreover have "n \<noteq> ULONG_MAX" using Cons.prems(2) by auto
  ultimately show ?case
    using IH by (intro exI [of _ s'] exI [of _ "c # cs"]) (simp add: names run)
qed

section \<open>Properties\<close>

text \<open>A heap with one live general cache, for the closed examples.\<close>

definition kmem_example :: "sim kmem_state" where
  "kmem_example = \<lparr>kit = sim_init, mem = (\<lambda>_. 0xAA),
     caches = [0x100 \<mapsto> \<lparr>kc_name = 1, kc_size = 32, kc_slab = 0x200, kc_lock = 0x300, kc_ctor = 0, kc_dtor = 0\<rparr>],
     malloc_sizes = (32, 0x100) # tl malloc_sizes_boot\<rparr>"

abbreviation kmem_sim_kit :: "(sim, sim kmem_state) dde_kit" where
  "kmem_sim_kit \<equiv> sim_kit"

lemma kmem_example_inv: "kmalloc_inv kmem_example"
  by (simp add: kmalloc_inv_def kmem_example_def malloc_sizes_boot_def kmalloc_size_list_def cache_matches_def)

lemmas kmem_example_simps = kmem_example_def malloc_sizes_boot_def kmalloc_size_list_def kmem_defs sim_defs

text \<open>
  Property C16.  A block that \<open>kmalloc\<close> returned is given back by \<open>kfree\<close> to exactly the allocator it
  came from, at exactly the address that allocator handed out: to the slab of its size class, under
  that cache's lock, or to the kit's large-memory allocator.  Between the two calls the client may
  change anything except the word in front of the block.
\<close>

theorem kfree_kmalloc:
  assumes "kmalloc_inv s" and "kmalloc K n flags s = Some (objp, s1)" and "objp \<noteq> 0"
    and "caches t = caches s1" and "load32 (mem t) (objp - 4) = load32 (mem s1) (objp - 4)"
  shows "\<exists>c. find_cache (n + 4) s = Some c \<and>
    (c = 0 \<longrightarrow> objp - 4 = fst (large_malloc K (n + 4) (kit s)) \<and>
       kfree K objp t = Some (t\<lparr>kit := large_free K (objp - 4) (kit t)\<rparr>)) \<and>
    (c \<noteq> 0 \<longrightarrow> (\<exists>k. caches s c = Some k \<and>
       objp - 4 = fst (slab_alloc K (kc_slab k) (lock_lock K (kc_lock k) (kit s))) \<and>
       kfree K objp t = Some (t\<lparr>kit := lock_unlock K (kc_lock k)
         (slab_free K (kc_slab k) (objp - 4) (lock_lock K (kc_lock k) (kit t)))\<rparr>)))"
proof -
  obtain c where c: "find_cache (n + 4) s = Some c"
    using assms(1) find_cache_total by blast
  note res = kmalloc_result [OF assms(1) c assms(2,3)]
  show ?thesis
  proof (cases "c = 0")
    case True
    with c res assms(3-5) show ?thesis
      by (auto simp: kfree_large prod_eq_iff)
  next
    case False
    with assms(1) c obtain k where "caches s c = Some k" "kc_dtor k = 0" by (rule find_cache_matches)
    with c False res assms(3-5) show ?thesis by (auto simp: kfree_cached)
  qed
qed

theorem kfree_kmalloc_witness:
  "\<exists>objp s1 k. kmalloc kmem_sim_kit 20 GFP_KERNEL kmem_example = Some (objp, s1) \<and> objp \<noteq> 0 \<and>
     caches kmem_example 0x100 = Some k \<and>
     kfree kmem_sim_kit objp s1 = Some (s1\<lparr>kit := lock_unlock kmem_sim_kit (kc_lock k)
         (slab_free kmem_sim_kit (kc_slab k) (objp - 4) (lock_lock kmem_sim_kit (kc_lock k) (kit s1)))\<rparr>)"
proof -
  obtain s1 where run: "kmalloc kmem_sim_kit 20 GFP_KERNEL kmem_example = Some (0x10004, s1)"
    by (simp add: kmem_example_simps)
  have fc: "find_cache (20 + 4) kmem_example = Some 0x100"
    by (simp add: kmem_example_simps)
  show ?thesis
    using kfree_kmalloc [OF kmem_example_inv run, of s1] run fc by auto
qed

text \<open>
  For a request that leaves room for the back pointer, \<open>kmalloc\<close> selects the smallest
  general cache whose objects hold the request and the back pointer; the payload lies inside the
  object.
\<close>

theorem kmalloc_selects_fitting_cache:
  assumes "kmalloc_inv s" and "n \<le> ULONG_MAX - 4" and "find_cache (n + 4) s = Some c" and "c \<noteq> 0"
  shows "\<exists>k. caches s c = Some k \<and> unat n + 4 \<le> unat (kc_size k) \<and>
    (\<forall>m \<in> set kmalloc_size_list. unat n + 4 \<le> unat m \<longrightarrow> unat (kc_size k) \<le> unat m)"
proof -
  obtain k where k: "caches s c = Some k" "n + 4 \<le> kc_size k"
      "\<forall>m \<in> set kmalloc_size_list. n + 4 \<le> m \<longrightarrow> kc_size k \<le> m"
    using find_cache_matches [OF assms(1,3,4)] by blast
  have "unat (n + 4) = unat n + 4"
    using assms(2) by unat_arith auto
  with k show ?thesis by (auto simp: word_le_nat_alt)
qed

theorem kmalloc_selects_fitting_cache_witness:
  "\<exists>k. caches kmem_example 0x100 = Some k \<and> unat (28 :: u32) + 4 \<le> unat (kc_size k)"
proof -
  have "find_cache (28 + 4) kmem_example = Some 0x100" by (simp add: kmem_example_simps)
  then show ?thesis
    using kmalloc_selects_fitting_cache [OF kmem_example_inv, of 28 "0x100"] by auto
qed

text \<open>
  Property C17.  With \<open>__GFP_ZERO\<close> every byte of the returned payload is zero, whether the block
  comes from a general cache or from the large-memory allocator.
\<close>

theorem kmalloc_zeroes_payload:
  assumes "kmalloc_inv s" and "n \<le> ULONG_MAX - 4" and "flags AND GFP_ZERO \<noteq> 0"
    and "kmalloc K n flags s = Some (objp, s1)" and "objp \<noteq> 0" and "i < n"
  shows "mem s1 (objp + i) = 0"
proof -
  obtain c where c: "find_cache (n + 4) s = Some c"
    using assms(1) find_cache_total by blast
  have i4: "i + 4 < n + 4" "\<not> i + 4 < 4"
    using assms(2,6) by (unat_arith, simp)+
  show ?thesis
  proof (cases "c = 0")
    case True
    with c assms(3-5) i4 show ?thesis
      by (auto simp: kmalloc_def kcall_def Let_def store32_outside memset_def add_ac split: if_splits)
  next
    case False
    with assms(1) c obtain k where k: "caches s c = Some k" "n + 4 \<le> kc_size k" "kc_ctor k = 0"
      by (rule find_cache_matches)
    with i4 have "i + 4 < kc_size k" by unat_arith
    with k False c assms(3-5) i4(2) show ?thesis
      by (auto simp: kmalloc_def kmem_cache_alloc_def kcall_def Let_def store32_outside memset_def add_ac
          split: if_splits)
  qed
qed

theorem kmalloc_zeroes_payload_witness:
  "\<exists>objp s1. kmalloc kmem_sim_kit 20 (GFP_KERNEL OR GFP_ZERO) kmem_example = Some (objp, s1) \<and>
     mem s1 (objp + 19) = 0"
proof -
  obtain s1 where run: "kmalloc kmem_sim_kit 20 (GFP_KERNEL OR GFP_ZERO) kmem_example = Some (0x10004, s1)"
    by (simp add: kmem_example_simps)
  have "mem s1 (0x10004 + 19) = 0"
    by (rule kmalloc_zeroes_payload [OF kmem_example_inv _ _ run]) simp_all
  with run show ?thesis by blast
qed

text \<open>
  The back pointer is added in 32-bit arithmetic without a check: for the four largest
  sizes the sum wraps, and the block that is returned comes from the smallest general cache.
\<close>

theorem kmalloc_size_wraps:
  assumes "kmalloc_inv s" and "ULONG_MAX - 4 < n"
  shows "n + 4 < 4 \<and> find_cache (n + 4) s = Some (snd (hd (malloc_sizes s)))"
proof -
  have w: "n + 4 < 4" using assms(2) by unat_arith auto
  then have "\<not> 32 < n + 4" by unat_arith
  moreover obtain c rest where "malloc_sizes s = (32, c) # rest"
    using assms(1) by (rule kmalloc_inv_table) blast
  ultimately show ?thesis
    using w by (simp add: find_cache_def)
qed

theorem kmalloc_size_wraps_witness:
  "find_cache (ULONG_MAX + 4) kmem_example = Some 0x100"
  using kmalloc_size_wraps [OF kmem_example_inv, of ULONG_MAX] by (simp add: kmem_example_def)



text \<open>
  A failing \<open>kmem_cache_create\<close> (no name, no memory for the descriptor, no slab) leaves
  the set of caches as it was, and the descriptor it had already allocated is freed; a successful
  one returns a fresh cache with the requested size, constructor and destructor.
\<close>

theorem kmem_cache_create_outcome:
  assumes "kit_fresh K live" and "dom (caches s) \<subseteq> live (kit s)"
    and "kmem_cache_create K nm sz al fl ctor dtor s = (c, s')"
  shows "(c = 0 \<longrightarrow> caches s' = caches s \<and> (nm = 0 \<longrightarrow> s' = s)) \<and>
    (c = 0 \<longrightarrow> nm \<noteq> 0 \<longrightarrow> fst (simple_malloc K (sizeof K ''kmem_cache'') (kit s)) \<noteq> 0 \<longrightarrow>
       (\<exists>k. kit s' = simple_free K (fst (simple_malloc K (sizeof K ''kmem_cache'') (kit s))) k)) \<and>
    (c \<noteq> 0 \<longrightarrow> c \<notin> dom (caches s) \<and> kmem_cache_size c s' = Some sz \<and> kmem_cache_name c s' = Some nm)"
proof -
  note R = kmem_cache_create_result [OF assms]
  have "nm = 0 \<Longrightarrow> s' = s" using assms(3) by (simp add: kmem_cache_create_def)
  moreover have "c = 0 \<Longrightarrow> nm \<noteq> 0 \<Longrightarrow> fst (simple_malloc K (sizeof K ''kmem_cache'') (kit s)) \<noteq> 0 \<Longrightarrow>
      \<exists>k. kit s' = simple_free K (fst (simple_malloc K (sizeof K ''kmem_cache'') (kit s))) k"
    using assms(3) by (auto simp: kmem_cache_create_def kcall_def Let_def split: if_splits)
  ultimately show ?thesis
    using R(4,5) by (auto simp: kmem_cache_size_def kmem_cache_name_def)
qed

theorem kmem_cache_create_outcome_witness:
  "\<exists>c s'. kmem_cache_create kmem_sim_kit 1 48 0 0 0 0 kmem_example = (c, s') \<and> c \<noteq> 0 \<and>
     kmem_cache_size c s' = Some 48"
proof -
  obtain s' where run: "kmem_cache_create kmem_sim_kit 1 48 0 0 0 0 kmem_example = (0x10000, s')"
    by (simp add: kmem_cache_create_def kmem_example_def sim_defs)
  have "dom (caches kmem_example) \<subseteq> {a. a < sim_next (kit kmem_example)}"
    by (simp add: kmem_example_def sim_init_def)
  from kmem_cache_create_outcome [OF sim_kit_fresh this run] run show ?thesis by auto
qed

end
