(* ===== verification/Page_Alloc.thy ===== *)
theory Page_Alloc
  imports Kmem
begin

text \<open>
  Page allocation of \<open>arch/dde_kit/page_alloc.c\<close>, with \<open>get_order\<close> (\<open>asm-generic/page.h\<close>) and the
  coherent DMA allocations of \<open>arch/dde_kit/kmalloc.c\<close> that are built on it.  \<open>pages\<close> is the store of
  \<open>struct page\<close> objects with their \<open>virtual\<close> field, \<open>page_cache\<close> the hash table
  \<open>dde_linux26_page_cache\<close>, a list of (entry, page) pairs per bucket.
\<close>

section \<open>The page cache\<close>

record 'k page_state = "'k kmem_state" +
  pages :: "addr \<rightharpoonup> addr"
  page_cache :: "u32 \<Rightarrow> (addr \<times> addr) list"

abbreviation (input) PAGE_SHIFT :: nat where "PAGE_SHIFT \<equiv> 12"
abbreviation (input) PAGE_SIZE :: u32 where "PAGE_SIZE \<equiv> 4096"
abbreviation (input) PAGE_MASK :: u32 where "PAGE_MASK \<equiv> 0xFFFFF000"
abbreviation (input) DDE_PAGE_CACHE_MASK :: u32 where "DDE_PAGE_CACHE_MASK \<equiv> 0x3FF"

type_synonym ('k, 'z) pstate = "('k, 'z) page_state_scheme"

definition VIRT_TO_PAGEHASH :: "addr \<Rightarrow> u32" where
  "VIRT_TO_PAGEHASH a = drop_bit PAGE_SHIFT a AND DDE_PAGE_CACHE_MASK"

definition dde_linux26_page_cache_add ::
  "('k, ('k, 'z) pstate) dde_kit \<Rightarrow> addr \<Rightarrow> ('k, 'z) pstate \<Rightarrow> ('k, 'z) pstate option" where
  "dde_linux26_page_cache_add K p s = do {
     v \<leftarrow> pages s p;
     let hashval = VIRT_TO_PAGEHASH v;
     (e, s) \<leftarrow> kmalloc K (sizeof K ''page_cache_entry'') GFP_KERNEL s;
     if e = 0 then None
     else Some (s\<lparr>page_cache := (page_cache s)(hashval := (e, p) # page_cache s hashval)\<rparr>) }"

text \<open>
  The \<open>break\<close> of the search loop is not part of the \<open>if\<close>: the loop leaves after the first entry of
  the bucket in any case.
\<close>

definition dde_linux26_page_cache_remove :: "addr \<Rightarrow> ('k, 'z) pstate \<Rightarrow> ('k, 'z) pstate option" where
  "dde_linux26_page_cache_remove p s = do {
     v \<leftarrow> pages s p;
     let hashval = VIRT_TO_PAGEHASH v;
     case page_cache s hashval of
       [] \<Rightarrow> Some s
     | (e, q) # rest \<Rightarrow> do {
         w \<leftarrow> pages s q;
         if w = v AND PAGE_MASK then Some (s\<lparr>page_cache := (page_cache s)(hashval := rest)\<rparr>)
         else Some s } }"

fun page_scan :: "(addr \<rightharpoonup> addr) \<Rightarrow> addr \<Rightarrow> (addr \<times> addr) list \<Rightarrow> addr option" where
  "page_scan pg va [] = Some 0"
| "page_scan pg va ((e, q) # rest) = do {
     w \<leftarrow> pg q;
     if w = va AND PAGE_MASK then Some q else page_scan pg va rest }"

definition dde_linux26_page_lookup :: "addr \<Rightarrow> ('k, 'z) pstate \<Rightarrow> addr option" where
  "dde_linux26_page_lookup va s = page_scan (pages s) va (page_cache s (VIRT_TO_PAGEHASH va))"

definition dde_linux26_page_cache_init :: "('k, 'z) pstate \<Rightarrow> int \<times> ('k, 'z) pstate" where
  "dde_linux26_page_cache_init s =
     (0, s\<lparr>page_cache := (\<lambda>h. if h \<le> DDE_PAGE_CACHE_MASK then [] else page_cache s h)\<rparr>)"

section \<open>Allocating pages\<close>

definition get_free_pages ::
  "('k, ('k, 'z) pstate) dde_kit \<Rightarrow> u32 \<Rightarrow> nat \<Rightarrow> ('k, 'z) pstate \<Rightarrow> (addr \<times> ('k, 'z) pstate) option" where
  "get_free_pages K gfp_mask order s =
     (if gfp_mask = GFP_DMA then None
      else Some (kcall (large_malloc K (push_bit order PAGE_SIZE)) s))"

definition alloc_pages ::
  "('k, ('k, 'z) pstate) dde_kit \<Rightarrow> u32 \<Rightarrow> nat \<Rightarrow> ('k, 'z) pstate \<Rightarrow> (addr \<times> ('k, 'z) pstate) option" where
  "alloc_pages K gfp_mask order s = do {
     (ret, s) \<leftarrow> kmalloc K (sizeof K ''page'') GFP_KERNEL s;
     (v, s) \<leftarrow> get_free_pages K gfp_mask order s;
     if ret = 0 then None
     else do {
       let s = s\<lparr>pages := (pages s)(ret \<mapsto> v)\<rparr>;
       s \<leftarrow> dde_linux26_page_cache_add K ret s;
       Some (ret, s) } }"

definition get_zeroed_page ::
  "('k, ('k, 'z) pstate) dde_kit \<Rightarrow> u32 \<Rightarrow> ('k, 'z) pstate \<Rightarrow> (addr \<times> ('k, 'z) pstate) option" where
  "get_zeroed_page K gfp_mask s = do {
     (p, s) \<leftarrow> get_free_pages K gfp_mask 0 s;
     Some (p, if p \<noteq> 0 then mem_update (memset p 0 PAGE_SIZE) s else s) }"

definition free_pages ::
  "('k, ('k, 'z) pstate) dde_kit \<Rightarrow> addr \<Rightarrow> nat \<Rightarrow> ('k, 'z) pstate \<Rightarrow> ('k, 'z) pstate" where
  "free_pages K a order s = kit_update (large_free K a) s"

text \<open>\<open>__free_pages\<close>, which takes the \<open>struct page\<close>.\<close>

definition free_pages_page ::
  "('k, ('k, 'z) pstate) dde_kit \<Rightarrow> addr \<Rightarrow> nat \<Rightarrow> ('k, 'z) pstate \<Rightarrow> ('k, 'z) pstate option" where
  "free_pages_page K page order s = do {
     v \<leftarrow> pages s page;
     let s = free_pages K v order s;
     dde_linux26_page_cache_remove page s }"

definition physical_address :: "('k, ('k, 'z) pstate) dde_kit \<Rightarrow> addr \<Rightarrow> ('k, 'z) pstate \<Rightarrow> addr" where
  "physical_address K a s = pgtab_get_physaddr K a (kit s)"

definition virtual_address :: "('k, ('k, 'z) pstate) dde_kit \<Rightarrow> addr \<Rightarrow> ('k, 'z) pstate \<Rightarrow> addr" where
  "virtual_address K a s = pgtab_get_virtaddr K a (kit s)"

definition page_to_phys :: "('k, ('k, 'z) pstate) dde_kit \<Rightarrow> addr \<Rightarrow> ('k, 'z) pstate \<Rightarrow> addr option" where
  "page_to_phys K p s = do {
     v \<leftarrow> pages s p;
     Some (physical_address K v s AND PAGE_MASK) }"

fun get_order_loop :: "nat \<Rightarrow> nat" where
  "get_order_loop n = (if n div 2 = 0 then 0 else Suc (get_order_loop (n div 2)))"

declare get_order_loop.simps [simp del]

definition get_order :: "u32 \<Rightarrow> nat" where
  "get_order n = get_order_loop (unat (drop_bit (PAGE_SHIFT - 1) (n - 1)))"

definition dma_alloc_coherent ::
  "('k, ('k, 'z) pstate) dde_kit \<Rightarrow> u32 \<Rightarrow> u32 \<Rightarrow> addr \<Rightarrow> ('k, 'z) pstate
   \<Rightarrow> ((addr \<times> addr) \<times> ('k, 'z) pstate) option" where
  "dma_alloc_coherent K n flag dma_handle s = do {
     (ret, s) \<leftarrow> get_free_pages K flag (get_order n) s;
     if ret \<noteq> 0 then do {
       let s = mem_update (memset ret 0 n) s;
       Some ((ret, physical_address K ret s), s) }
     else Some ((ret, dma_handle), s) }"

definition dma_free_coherent ::
  "('k, ('k, 'z) pstate) dde_kit \<Rightarrow> u32 \<Rightarrow> addr \<Rightarrow> addr \<Rightarrow> ('k, 'z) pstate \<Rightarrow> ('k, 'z) pstate" where
  "dma_free_coherent K n vaddr dma_handle s = free_pages K vaddr (get_order n) s"

section \<open>Large hash tables\<close>

fun ilog2 :: "nat \<Rightarrow> nat" where
  "ilog2 n = (if n < 2 then 0 else Suc (ilog2 (n div 2)))"

declare ilog2.simps [simp del]

text \<open>
  \<open>for (order = 0; ((1UL << order) << PAGE_SHIFT) < size; order++)\<close>: no order reaches a size beyond
  2 GiB, where the shift leaves the word.
\<close>

fun hash_order_from :: "nat \<Rightarrow> nat \<Rightarrow> u32 \<Rightarrow> nat option" where
  "hash_order_from 0 order sz = None"
| "hash_order_from (Suc fuel) order sz =
     (if push_bit PAGE_SHIFT (push_bit order 1) < sz then hash_order_from fuel (Suc order) sz else Some order)"

abbreviation hash_order :: "u32 \<Rightarrow> nat option" where
  "hash_order \<equiv> hash_order_from 20 0"

text \<open>The retry loop; \<open>--log2qty\<close> is evaluated only when the allocation failed, and wraps at zero.\<close>

function hash_table_loop ::
  "('k, ('k, 'z) pstate) dde_kit \<Rightarrow> u32 \<Rightarrow> u32 \<Rightarrow> ('k, 'z) pstate
   \<Rightarrow> (addr \<times> u32 \<times> ('k, 'z) pstate) option" where
  "hash_table_loop K sz log2qty s =
     (case hash_order sz of None \<Rightarrow> None
      | Some order \<Rightarrow> (case get_free_pages K GFP_ATOMIC order s of None \<Rightarrow> None
        | Some (table, s) \<Rightarrow>
            if table = 0 \<and> PAGE_SIZE < sz
            then (if log2qty - 1 \<noteq> 0 then hash_table_loop K sz (log2qty - 1) s
                  else Some (table, log2qty - 1, s))
            else Some (table, log2qty, s)))"
  by pat_completeness auto
termination
proof (relation "measure (\<lambda>(K, sz, l, s). unat (l - 1))", goal_cases)
  case (2 K sz l s order p table s')
  then have "l - 1 \<noteq> 0" by simp
  then have "unat (l - 1 - 1) = unat (l - 1) - 1" "unat (l - 1) \<noteq> 0"
    by (rule unat_minus_one, simp add: unat_eq_0)
  then show ?case by simp
qed simp

declare hash_table_loop.simps [simp del]

definition alloc_large_system_hash ::
  "('k, ('k, 'z) pstate) dde_kit \<Rightarrow> u32 \<Rightarrow> u32 \<Rightarrow> ('k, 'z) pstate
   \<Rightarrow> (addr \<times> u32 \<times> u32 \<times> ('k, 'z) pstate) option" where
  "alloc_large_system_hash K bucketsize numentries s = do {
     let numentries = (if numentries = 0 then 1024 else numentries);
     let log2qty = ilog2 (unat numentries);
     let sz = push_bit log2qty bucketsize;
     (table, l, s) \<leftarrow> hash_table_loop K sz (of_nat log2qty) s;
     if table = 0 then None
     else Some (table, l, push_bit (unat l) 1 - 1, s) }"

section \<open>Well-formed page caches\<close>

text \<open>
  Every entry refers to a live \<open>struct page\<close> whose page-aligned virtual address hashes to the
  entry's bucket, and no two entries describe the same virtual address.
\<close>

definition bucket_ok :: "('k, 'z) pstate \<Rightarrow> u32 \<Rightarrow> bool" where
  "bucket_ok s h \<longleftrightarrow> (\<forall>(e, q) \<in> set (page_cache s h). \<exists>w. pages s q = Some w \<and>
     w AND PAGE_MASK = w \<and> VIRT_TO_PAGEHASH w = h)"

definition bucket_virts :: "('k, 'z) pstate \<Rightarrow> u32 \<Rightarrow> addr option list" where
  "bucket_virts s h = map (\<lambda>(e, q). pages s q) (page_cache s h)"

definition page_cache_inv :: "('k, 'z) pstate \<Rightarrow> bool" where
  "page_cache_inv s \<longleftrightarrow> (\<forall>h. bucket_ok s h \<and> distinct (bucket_virts s h))"

text \<open>The abstract page cache: a partial map from virtual page addresses to pages.\<close>

definition page_map :: "('k, 'z) pstate \<Rightarrow> addr \<rightharpoonup> addr" where
  "page_map s v = map_of (map (\<lambda>(e, q). (the (pages s q), q)) (page_cache s (VIRT_TO_PAGEHASH v))) v"

lemma pagehash_mask [simp]: "VIRT_TO_PAGEHASH (a AND PAGE_MASK) = VIRT_TO_PAGEHASH a"
proof -
  have m: "(0xFFFFF :: u32) = mask 20" by (simp add: mask_eq_exp_minus_1)
  have "drop_bit 12 a AND 0xFFFFF = drop_bit 12 a"
    unfolding m using bit_imp_le_length [of a "12 + n" for n]
    by (fastforce intro!: bit_word_eqI simp: bit_simps)
  then have "drop_bit 12 (a AND 0xFFFFF000) = drop_bit 12 a"
    by (simp add: drop_bit_and)
  then show ?thesis by (simp add: VIRT_TO_PAGEHASH_def)
qed

lemma page_scan_map:
  "\<forall>(e, q) \<in> set b. pg q \<noteq> None \<Longrightarrow>
   page_scan pg va b = Some (case map_of (map (\<lambda>(e, q). (the (pg q), q)) b) (va AND PAGE_MASK) of
     None \<Rightarrow> 0 | Some q \<Rightarrow> q)"
  by (induction b) (auto simp: split: option.splits)

lemma page_cache_entry:
  assumes "page_cache_inv s" "(e, q) \<in> set (page_cache s h)"
  shows "\<exists>w. pages s q = Some w \<and> w AND PAGE_MASK = w \<and> VIRT_TO_PAGEHASH w = h"
  using assms unfolding page_cache_inv_def bucket_ok_def by fast

lemma page_lookup_map:
  assumes "page_cache_inv s"
  shows "dde_linux26_page_lookup va s = Some (case page_map s (va AND PAGE_MASK) of None \<Rightarrow> 0 | Some q \<Rightarrow> q)"
proof -
  have "\<forall>(e, q) \<in> set (page_cache s (VIRT_TO_PAGEHASH va)). pages s q \<noteq> None"
    using assms page_cache_entry by fastforce
  from page_scan_map [OF this] show ?thesis
    by (simp add: dde_linux26_page_lookup_def page_map_def)
qed

lemma page_map_iff:
  assumes "page_cache_inv s" "v AND PAGE_MASK = v"
  shows "page_map s v = Some p \<longleftrightarrow> (\<exists>e. (e, p) \<in> set (page_cache s (VIRT_TO_PAGEHASH v)) \<and> pages s p = Some v)"
proof -
  let ?b = "page_cache s (VIRT_TO_PAGEHASH v)"
  have ok: "\<forall>(e, q) \<in> set ?b. pages s q \<noteq> None"
    using assms(1) page_cache_entry by fastforce
  have d: "distinct (map (\<lambda>(e, q). pages s q) ?b)"
    using assms(1) by (simp add: page_cache_inv_def bucket_virts_def)
  have "map (\<lambda>(e, q). pages s q) ?b = map Some (map (\<lambda>(e, q). the (pages s q)) ?b)"
    using ok by auto
  with d have "distinct (map Some (map (\<lambda>(e, q). the (pages s q)) ?b))" by simp
  then have "distinct (map (\<lambda>(e, q). the (pages s q)) ?b)"
    using distinct_map [of Some "map (\<lambda>(e, q). the (pages s q)) ?b"] by blast
  then have "distinct (map fst (map (\<lambda>(e, q). (the (pages s q), q)) ?b))"
    by (simp add: comp_def case_prod_unfold)
  from map_of_eq_Some_iff [OF this, of v p] ok show ?thesis
    unfolding page_map_def by force
qed

lemma more_page:
  "kmem_state.more s' = kmem_state.more s \<Longrightarrow> pages s' = pages s \<and> page_cache s' = page_cache s"
  by (cases s; cases s') simp

lemma page_cache_inv_cong:
  "pages s' = pages s \<Longrightarrow> page_cache s' = page_cache s \<Longrightarrow> page_cache_inv s' = page_cache_inv s"
  by (simp add: page_cache_inv_def bucket_ok_def bucket_virts_def)

lemma page_map_cong: "pages s' = pages s \<Longrightarrow> page_cache s' = page_cache s \<Longrightarrow> page_map s' = page_map s"
  by (rule ext) (simp add: page_map_def)

lemma page_cache_add_result:
  assumes "kmalloc_inv s" "pages s p = Some v" "dde_linux26_page_cache_add K p s = Some s'"
  shows "pages s' = pages s" and "kmalloc_inv s'"
    and "\<exists>e. page_cache s' = (page_cache s)(VIRT_TO_PAGEHASH v := (e, p) # page_cache s (VIRT_TO_PAGEHASH v))"
proof -
  obtain e s1 where run: "kmalloc K (sizeof K ''page_cache_entry'') GFP_KERNEL s = Some (e, s1)"
    and inv: "kmalloc_inv s1" and more: "kmem_state.more s1 = kmem_state.more s"
    using kheap.alloc_cases [OF assms(1)] by blast
  from run assms(2,3) have s': "s' = s1\<lparr>page_cache := (page_cache s1)(VIRT_TO_PAGEHASH v :=
      (e, p) # page_cache s1 (VIRT_TO_PAGEHASH v))\<rparr>"
    by (auto simp: dde_linux26_page_cache_add_def Let_def split: if_splits)
  with inv show "kmalloc_inv s'" by (simp add: kmalloc_inv_def cache_matches_def)
  from s' more_page [OF more] show "pages s' = pages s"
    "\<exists>e. page_cache s' = (page_cache s)(VIRT_TO_PAGEHASH v := (e, p) # page_cache s (VIRT_TO_PAGEHASH v))"
    by auto
qed

lemma page_map_None_fresh:
  assumes "page_cache_inv s" "v AND PAGE_MASK = v" "page_map s v = None"
  shows "Some v \<notin> set (bucket_virts s (VIRT_TO_PAGEHASH v))"
  using assms page_map_iff [OF assms(1,2)] by (force simp: bucket_virts_def)

lemma page_cache_push:
  assumes inv: "page_cache_inv s" and v: "pages s p = Some v" "v AND PAGE_MASK = v"
    and new: "page_map s v = None" and pg: "pages s' = pages s"
    and pc: "page_cache s' = (page_cache s)(VIRT_TO_PAGEHASH v := (e, p) # page_cache s (VIRT_TO_PAGEHASH v))"
  shows "page_cache_inv s'" and "page_map s' = (page_map s)(v \<mapsto> p)"
proof -
  have "bucket_ok s' h \<and> distinct (bucket_virts s' h)" for h
    using inv v pg pc page_map_None_fresh [OF inv v(2) new]
    by (cases "h = VIRT_TO_PAGEHASH v") (auto simp: page_cache_inv_def bucket_ok_def bucket_virts_def)
  then show "page_cache_inv s'" by (simp add: page_cache_inv_def)
  show "page_map s' = (page_map s)(v \<mapsto> p)"
    using v(1) pg pc by (intro ext) (auto simp: page_map_def)
qed

lemma page_cache_drop_head:
  assumes inv: "page_cache_inv s" and b: "page_cache s h = (e, q) # rest" and w: "pages s q = Some w"
  shows "page_cache_inv (s\<lparr>page_cache := (page_cache s)(h := rest)\<rparr>)"
    and "page_map (s\<lparr>page_cache := (page_cache s)(h := rest)\<rparr>) = (page_map s)(w := None)"
proof -
  let ?s = "s\<lparr>page_cache := (page_cache s)(h := rest)\<rparr>"
  have h: "VIRT_TO_PAGEHASH w = h" "w AND PAGE_MASK = w"
    using page_cache_entry [OF inv, of e q h] b w by auto
  have d: "distinct (bucket_virts s h)" using inv by (simp add: page_cache_inv_def)
  have "bucket_ok ?s x \<and> distinct (bucket_virts ?s x)" for x
    using inv b d by (cases "x = h") (auto simp: page_cache_inv_def bucket_ok_def bucket_virts_def)
  then show inv': "page_cache_inv ?s" by (simp add: page_cache_inv_def)
  have "Some w \<notin> set (map (\<lambda>(e, q). pages s q) rest)"
    using d b w by (auto simp: bucket_virts_def)
  then have "page_map ?s w \<noteq> Some p" for p
    using page_map_iff [OF inv' h(2), of p] h(1) by force
  then have "page_map ?s w = None" by (cases "page_map ?s w") auto
  moreover have "page_map ?s u = page_map s u" if "u \<noteq> w" for u
    using that b w by (auto simp: page_map_def)
  ultimately show "page_map ?s = (page_map s)(w := None)" by auto
qed

lemma page_cache_remove_cases:
  assumes inv: "page_cache_inv s" and v: "pages s p = Some v" "v AND PAGE_MASK = v"
  shows "(\<exists>e q rest. page_cache s (VIRT_TO_PAGEHASH v) = (e, q) # rest \<and> pages s q = Some v \<and>
      dde_linux26_page_cache_remove p s = Some (s\<lparr>page_cache := (page_cache s)(VIRT_TO_PAGEHASH v := rest)\<rparr>)) \<or>
    (case page_cache s (VIRT_TO_PAGEHASH v) of [] \<Rightarrow> True | (e, q) # rest \<Rightarrow> pages s q \<noteq> Some v) \<and>
      dde_linux26_page_cache_remove p s = Some s"
proof (cases "page_cache s (VIRT_TO_PAGEHASH v)")
  case Nil
  with v show ?thesis by (simp add: dde_linux26_page_cache_remove_def)
next
  case (Cons b rest)
  then obtain e q where b: "b = (e, q)" by fastforce
  with Cons page_cache_entry [OF inv, of e q "VIRT_TO_PAGEHASH v"] obtain w where "pages s q = Some w" by auto
  with v b Cons show ?thesis
    by (cases "w = v") (auto simp: dde_linux26_page_cache_remove_def)
qed

section \<open>Orders\<close>

lemma get_order_loop_bounds: "n < 2 ^ (get_order_loop n + 1) \<and> (0 < get_order_loop n \<longrightarrow> 2 ^ get_order_loop n \<le> n)"
proof (induction n rule: get_order_loop.induct)
  case (1 n)
  show ?case
  proof (cases "n div 2 = 0")
    case True
    then show ?thesis by (simp add: get_order_loop.simps [of n])
  next
    case False
    let ?m = "n div 2"
    from 1 False have IH: "?m < 2 ^ (get_order_loop ?m + 1)" "0 < get_order_loop ?m \<longrightarrow> 2 ^ get_order_loop ?m \<le> ?m"
      by auto
    have "2 ^ get_order_loop ?m \<le> ?m"
      using IH(2) False by (cases "get_order_loop ?m = 0") auto
    moreover have "get_order_loop n = Suc (get_order_loop ?m)"
      using False by (subst get_order_loop.simps) simp
    ultimately show ?thesis using IH(1) by auto
  qed
qed

lemma ilog2_bounds: "0 < n \<Longrightarrow> 2 ^ ilog2 n \<le> n \<and> n < 2 ^ (ilog2 n + 1)"
proof (induction n rule: ilog2.induct)
  case (1 n)
  show ?case
  proof (cases "n < 2")
    case True
    with 1 show ?thesis by (simp add: ilog2.simps [of n])
  next
    case False
    then have "0 < n div 2" by simp
    with 1 False have "2 ^ ilog2 (n div 2) \<le> n div 2" "n div 2 < 2 ^ (ilog2 (n div 2) + 1)" by auto
    with False show ?thesis by (subst (1 2) ilog2.simps) auto
  qed
qed

lemma unat_push_bit_small:
  fixes x :: u32
  assumes "unat x * 2 ^ n < 2 ^ 32"
  shows "unat (push_bit n x) = unat x * 2 ^ n"
  unfolding unsigned_push_bit_eq using assms by (simp add: push_bit_eq_mult take_bit_nat_eq_self)

lemma hash_order_from_Some:
  "hash_order_from fuel o1 sz = Some order \<Longrightarrow> o1 + fuel \<le> 20 \<Longrightarrow> order < 20 \<and> sz \<le> push_bit order PAGE_SIZE"
proof (induction fuel o1 sz rule: hash_order_from.induct)
  case (2 fuel o1 sz)
  have "push_bit 12 (push_bit o1 1) = push_bit o1 (PAGE_SIZE :: u32)"
    by (simp add: push_bit_eq_mult)
  with 2 show ?case by (auto split: if_splits simp: not_less)
qed simp

lemma hash_table_loop_result:
  assumes "hash_table_loop K sz l s = Some (table, l', s')" "table \<noteq> 0" "l \<noteq> 0"
  shows "l' \<le> l \<and> (\<exists>order k. order < 20 \<and> sz \<le> push_bit order PAGE_SIZE \<and>
    table = fst (large_malloc K (push_bit order PAGE_SIZE) k))"
  using assms
proof (induction K sz l s arbitrary: table l' s' rule: hash_table_loop.induct)
  case (1 K sz l s)
  from "1.prems"(1) obtain order where ho: "hash_order sz = Some order"
    by (subst (asm) hash_table_loop.simps) (auto split: option.splits)
  obtain t s1 where gf: "get_free_pages K GFP_ATOMIC order s = Some (t, s1)"
    and t: "t = fst (large_malloc K (push_bit order PAGE_SIZE) (kit s))"
    by (simp add: get_free_pages_def kcall_def)
  have l: "l - 1 \<le> l" using "1.prems"(3) by (simp add: word_le_nat_alt unat_minus_one)
  show ?case
  proof (cases "t = 0 \<and> PAGE_SIZE < sz \<and> l - 1 \<noteq> 0")
    case True
    then have "hash_table_loop K sz (l - 1) s1 = Some (table, l', s')"
      using "1.prems"(1) ho gf by (subst (asm) hash_table_loop.simps) simp
    with "1.IH" [OF ho gf refl, of table l' s'] True "1.prems"(2) l show ?thesis by auto
  next
    case False
    then have "table = t \<and> l' = l"
      using "1.prems"(1,2) ho gf by (subst (asm) hash_table_loop.simps) (auto split: if_splits)
    with hash_order_from_Some [OF ho] t show ?thesis by auto
  qed
qed

section \<open>Properties\<close>

definition page_example :: "sim page_state" where
  "page_example = \<lparr>kit = sim_init, mem = (\<lambda>_. 0), caches = Map.empty, malloc_sizes = malloc_sizes_boot,
     pages = [0x100 \<mapsto> 0x7000, 0x200 \<mapsto> 0x407000, 0x300 \<mapsto> 0x9000],
     page_cache = (\<lambda>_. [])(7 := [(0x40, 0x100)])\<rparr>"

abbreviation page_sim_kit :: "(sim, sim page_state) dde_kit" where
  "page_sim_kit \<equiv> sim_kit"

lemma page_example_inv: "kmalloc_inv page_example" "page_cache_inv page_example"
  by (simp_all add: page_example_def kmalloc_inv_def malloc_sizes_boot_def kmalloc_size_list_def
      cache_matches_def page_cache_inv_def bucket_ok_def bucket_virts_def VIRT_TO_PAGEHASH_def)

lemma page_example_add:
  "\<exists>s'. dde_linux26_page_cache_add page_sim_kit 0x200 page_example = Some s'"
  by (simp add: page_example_def dde_linux26_page_cache_add_def kmem_defs malloc_sizes_boot_def
      kmalloc_size_list_def sim_defs Let_def)

text \<open>
  Property C19.  Entering a page into the page cache makes exactly its virtual page resolve to it:
  \<open>dde_linux26_page_lookup\<close> of any address inside that page returns the new page and every other
  lookup is unchanged; the cache and the heap stay well formed.
\<close>

theorem page_cache_add_lookup:
  assumes "kmalloc_inv s" and "page_cache_inv s" and "pages s p = Some v" and "v AND PAGE_MASK = v"
    and "page_map s v = None" and "dde_linux26_page_cache_add K p s = Some s'"
  shows "kmalloc_inv s' \<and> page_cache_inv s' \<and>
    (\<forall>va. dde_linux26_page_lookup va s' =
       (if va AND PAGE_MASK = v then Some p else dde_linux26_page_lookup va s))"
proof -
  obtain e where r: "pages s' = pages s" "kmalloc_inv s'"
      "page_cache s' = (page_cache s)(VIRT_TO_PAGEHASH v := (e, p) # page_cache s (VIRT_TO_PAGEHASH v))"
    using page_cache_add_result [OF assms(1,3,6)] by blast
  note push = page_cache_push [OF assms(2-5) r(1,3)]
  then show ?thesis
    using r(2) by (simp add: page_lookup_map assms(2))
qed

theorem page_cache_add_lookup_witness:
  "\<exists>s'. dde_linux26_page_cache_add page_sim_kit 0x200 page_example = Some s' \<and>
     dde_linux26_page_lookup 0x407123 s' = Some 0x200"
proof -
  obtain s' where run: "dde_linux26_page_cache_add page_sim_kit 0x200 page_example = Some s'"
    using page_example_add by blast
  have "pages page_example 0x200 = Some 0x407000" "page_map page_example 0x407000 = None"
    by (simp_all add: page_example_def page_map_def VIRT_TO_PAGEHASH_def)
  from page_cache_add_lookup [OF page_example_inv this(1) _ this(2) run] run show ?thesis by auto
qed

text \<open>
  \<open>__free_pages\<close> never faults on a cached page and returns its memory to the kit.  When
  the page's entry is the first of its hash bucket, the entry is removed and later lookups of its
  addresses return null; all other lookups are unchanged.
\<close>

theorem free_pages_page_head:
  assumes "page_cache_inv s" and "pages s p = Some v" and "v AND PAGE_MASK = v"
    and "page_cache s (VIRT_TO_PAGEHASH v) = (e, p) # rest"
  shows "\<exists>s'. free_pages_page K p order s = Some s' \<and> page_cache_inv s' \<and> kit s' = large_free K v (kit s) \<and>
    (\<forall>va. dde_linux26_page_lookup va s' =
       (if va AND PAGE_MASK = v then Some 0 else dde_linux26_page_lookup va s))"
proof -
  let ?t = "s\<lparr>kit := large_free K v (kit s)\<rparr>"
  let ?s = "s\<lparr>page_cache := (page_cache s)(VIRT_TO_PAGEHASH v := rest)\<rparr>"
  let ?u = "?t\<lparr>page_cache := (page_cache s)(VIRT_TO_PAGEHASH v := rest)\<rparr>"
  note D = page_cache_drop_head [OF assms(1,4,2)]
  have run: "free_pages_page K p order s = Some ?u"
    using assms(2-4) by (simp add: free_pages_page_def free_pages_def dde_linux26_page_cache_remove_def)
  have inv: "page_cache_inv ?u" using D(1) page_cache_inv_cong [of ?u ?s] by simp
  have "page_map ?u = (page_map s)(v := None)" using D(2) page_map_cong [of ?u ?s] by simp
  with inv run assms(1) show ?thesis by (simp add: page_lookup_map)
qed

theorem free_pages_page_head_witness:
  "\<exists>s'. free_pages_page page_sim_kit 0x100 0 page_example = Some s' \<and> dde_linux26_page_lookup 0x7004 s' = Some 0"
proof -
  have "pages page_example 0x100 = Some 0x7000"
      "page_cache page_example (VIRT_TO_PAGEHASH 0x7000) = (0x40, 0x100) # []"
    by (simp_all add: page_example_def VIRT_TO_PAGEHASH_def)
  from free_pages_page_head [OF page_example_inv(2) this(1) _ this(2), of page_sim_kit 0] show ?thesis by auto
qed

text \<open>
  When another page sits in front of it in the same bucket, \<open>__free_pages\<close> gives the
  memory back but leaves the entry in the cache: the loop in \<open>dde_linux26_page_cache_remove\<close> breaks
  after the first entry, and lookups keep returning the freed page.
\<close>

theorem free_pages_page_stale:
  assumes "page_cache_inv s" and "pages s p = Some v" and "v AND PAGE_MASK = v"
    and "page_cache s (VIRT_TO_PAGEHASH v) = (e, q) # rest" and "(e', p) \<in> set rest"
  shows "free_pages_page K p order s = Some (s\<lparr>kit := large_free K v (kit s)\<rparr>) \<and>
    dde_linux26_page_lookup v (s\<lparr>kit := large_free K v (kit s)\<rparr>) = Some p"
proof -
  let ?t = "s\<lparr>kit := large_free K v (kit s)\<rparr>"
  have t: "page_cache_inv ?t" "page_map ?t = page_map s"
    using assms(1) page_cache_inv_cong [of ?t s] page_map_cong [of ?t s] by simp_all
  have "distinct (bucket_virts s (VIRT_TO_PAGEHASH v))" using assms(1) by (simp add: page_cache_inv_def)
  then have "pages s q \<noteq> Some v"
    using assms(2,4,5) by (force simp: bucket_virts_def)
  moreover obtain w where "pages s q = Some w"
    using page_cache_entry [OF assms(1), of e q "VIRT_TO_PAGEHASH v"] assms(4) by auto
  ultimately have "free_pages_page K p order s = Some ?t"
    using assms(2-4) by (simp add: free_pages_page_def free_pages_def dde_linux26_page_cache_remove_def)
  moreover have "page_map s v = Some p"
    using page_map_iff [OF assms(1,3)] assms(2,4,5) by auto
  ultimately show ?thesis using t assms(3) by (simp add: page_lookup_map)
qed

theorem free_pages_page_stale_witness:
  "\<exists>s s'. free_pages_page page_sim_kit 0x100 0 s = Some s' \<and> dde_linux26_page_lookup 0x7000 s' = Some 0x100"
proof -
  let ?s = "page_example\<lparr>page_cache := (\<lambda>_. [])(7 := [(0x50, 0x200), (0x40, 0x100)])\<rparr>"
  have "page_cache_inv ?s" "pages ?s 0x100 = Some 0x7000"
      "page_cache ?s (VIRT_TO_PAGEHASH 0x7000) = (0x50, 0x200) # [(0x40, 0x100)]"
    by (simp_all add: page_example_def page_cache_inv_def bucket_ok_def bucket_virts_def VIRT_TO_PAGEHASH_def)
  from free_pages_page_stale [OF this(1,2) _ this(3), of "0x40" page_sim_kit 0] show ?thesis by fastforce
qed

text \<open>
  \<open>get_order\<close> is the least page order whose block holds the requested size, for every
  size from one byte to 2 GiB.
\<close>

theorem get_order_least:
  assumes "0 < n" and "n \<le> 0x80000000"
  shows "unat n \<le> 4096 * 2 ^ get_order n \<and>
    (0 < get_order n \<longrightarrow> 4096 * 2 ^ (get_order n - 1) < unat n) \<and> get_order n < 20"
proof -
  define q where "q = unat (drop_bit 11 (n - 1))"
  have n1: "unat (n - 1) = unat n - 1" "0 < unat n" "unat n \<le> 2 ^ 31"
    using assms by (auto simp: unat_minus_one word_le_nat_alt unat_gt_0)
  have q: "q = (unat n - 1) div 2048"
    unfolding q_def unsigned_drop_bit_eq n1(1) using n1(2,3) by (simp add: drop_bit_eq_div take_bit_nat_eq_self)
  have go: "get_order n = get_order_loop q" by (simp add: get_order_def q_def)
  have b: "q < 2 ^ (get_order n + 1)" "0 < get_order n \<longrightarrow> 2 ^ get_order n \<le> q"
    using get_order_loop_bounds [of q] by (simp_all add: go)
  have "unat n \<le> 4096 * 2 ^ get_order n"
    using b(1) n1(2) unfolding q by (simp add: div_less_iff_less_mult)
  moreover have "4096 * 2 ^ (get_order n - 1) < unat n" if "0 < get_order n"
  proof -
    have "2 ^ get_order n * 2048 \<le> unat n - 1"
      using b(2) that unfolding q by (simp add: less_eq_div_iff_mult_less_eq)
    moreover have "(2 :: nat) ^ get_order n = 2 * 2 ^ (get_order n - 1)"
      using that by (cases "get_order n") auto
    ultimately show ?thesis using n1(2) by linarith
  qed
  moreover have "get_order n < 20"
  proof (rule ccontr)
    assume "\<not> get_order n < 20"
    then have "0 < get_order n" "(2 :: nat) ^ 20 \<le> 2 ^ get_order n"
      by (auto intro!: power_increasing simp del: power_numeral)
    with b(2) have "2 ^ 20 \<le> q" by linarith
    with q n1(3) show False by simp
  qed
  ultimately show ?thesis by blast
qed

theorem get_order_least_witness:
  "unat (5000 :: u32) \<le> 4096 * 2 ^ get_order 5000"
  using get_order_least [of 5000] by simp

text \<open>
  \<open>alloc_large_system_hash\<close> never reports more buckets than it has memory for: when
  the requested table size does not overflow and more than one entry is asked for, the buckets
  selected by the returned shift fit into the block obtained from the kit, and the mask selects
  exactly those buckets, even when the first attempts failed and the shift was reduced.
\<close>

theorem large_system_hash_fits:
  assumes "numentries \<noteq> 1" and "numentries' = (if numentries = 0 then 1024 else numentries)"
    and "unat bucketsize * 2 ^ ilog2 (unat numentries') < 2 ^ 32"
    and "alloc_large_system_hash K bucketsize numentries s = Some (table, shift, m, s')"
  shows "table \<noteq> 0 \<and> unat shift \<le> ilog2 (unat numentries') \<and> unat m = 2 ^ unat shift - 1 \<and>
    (\<exists>n k. table = fst (large_malloc K n k) \<and> unat bucketsize * 2 ^ unat shift \<le> unat n)"
proof -
  let ?q = "ilog2 (unat numentries')" and ?sz = "push_bit (ilog2 (unat numentries')) bucketsize"
  have "unat numentries' \<noteq> 0" "unat numentries' \<noteq> 1"
    using assms(1,2) by (auto simp: word_unat_eq_iff)
  then have ne: "1 < unat numentries'" by linarith
  have q: "0 < ?q" "?q < 32"
  proof -
    show "0 < ?q" using ne by (subst ilog2.simps) simp
    have "2 ^ ?q < (2 :: nat) ^ 32"
      using ilog2_bounds [of "unat numentries'"] ne unsigned_less [where 'a = nat, of numentries']
      by simp
    then show "?q < 32" by (rule power_less_imp_less_exp [rotated]) simp
  qed
  have uq: "unat (of_nat ?q :: u32) = ?q" using q(2) by (simp add: unat_of_nat take_bit_nat_eq_self)
  have run: "hash_table_loop K ?sz (of_nat ?q) s = Some (table, shift, s')" "table \<noteq> 0"
      "m = push_bit (unat shift) 1 - 1"
    using assms(4) by (auto simp: alloc_large_system_hash_def assms(2) [symmetric] Let_def split: if_splits)
  have "(of_nat ?q :: u32) \<noteq> 0" using q uq by (metis unat_0 less_irrefl)
  from hash_table_loop_result [OF run(1,2) this] obtain order k where
    r: "shift \<le> of_nat ?q" "?sz \<le> push_bit order PAGE_SIZE" "table = fst (large_malloc K (push_bit order PAGE_SIZE) k)"
    by blast
  have sh: "unat shift \<le> ?q" using r(1) uq by (simp add: word_le_nat_alt)
  have "unat bucketsize * 2 ^ unat shift \<le> unat bucketsize * 2 ^ ?q" using sh by (simp add: power_increasing)
  also have "\<dots> = unat ?sz" using assms(3) by (simp add: unat_push_bit_small)
  also have "\<dots> \<le> unat (push_bit order PAGE_SIZE :: u32)" using r(2) by (simp add: word_le_nat_alt)
  finally have fit: "unat bucketsize * 2 ^ unat shift \<le> unat (push_bit order PAGE_SIZE :: u32)" .
  have "2 ^ unat shift < (2 :: nat) ^ 32" by (rule power_strict_increasing) (use sh q(2) in auto)
  then have "unat (1 :: u32) * 2 ^ unat shift < 2 ^ 32" by simp
  from unat_push_bit_small [OF this] have "unat (push_bit (unat shift) 1 :: u32) = 2 ^ unat shift" by simp
  then have "unat m = 2 ^ unat shift - 1"
    unfolding run(3) by (subst unat_minus_one) (auto simp: unat_eq_0 [symmetric])
  with fit r(3) run(2) sh show ?thesis by blast
qed

theorem large_system_hash_fits_witness:
  "\<exists>table m s' n k. alloc_large_system_hash page_sim_kit 8 512 page_example = Some (table, 9, m, s') \<and>
     unat m = 511 \<and> table = fst (large_malloc page_sim_kit n k) \<and> 4096 \<le> unat n"
proof -
  have lg: "ilog2 512 = 9" by (simp add: ilog2.simps)
  have ho: "hash_order (4096 :: u32) = Some 0"
    using hash_order_from.simps(2) [of 19 0 4096] by simp
  from lg obtain table m s' where run: "alloc_large_system_hash page_sim_kit 8 512 page_example = Some (table, 9, m, s')"
    by (simp add: alloc_large_system_hash_def hash_table_loop.simps ho get_free_pages_def kcall_def
        page_example_def sim_defs push_bit_eq_mult Let_def)
  from large_system_hash_fits [OF _ refl _ run] run lg show ?thesis by auto
qed

end
