(* ===== verification/Process.thy ===== *)
theory Process
  imports Kmem
begin

text \<open>
  Threads as Linux processes: \<open>arch/dde_kit/process.c\<close>, with the allocator of
  \<open>arch/dde_kit/vmalloc.c\<close> it uses and the thread data of \<open>arch/dde_kit/local.h\<close>.
  \<open>thread_datas\<close>, \<open>tasks\<close> and \<open>kthread_datas\<close> are the stores of \<open>dde_linux26_thread_data\<close>,
  \<open>task_struct\<close> and \<open>__kthread_data\<close> objects, \<open>pid_task_list\<close> the list of \<open>pid2task\<close> entries with
  their addresses, head first.  The \<open>_thread_info\<close> of a thread is its first member, so both have
  the same address.
\<close>

section \<open>State\<close>

record thread_info =
  ti_task :: addr
  ti_preempt_count :: u32

record thread_data =
  td_thread_info :: thread_info
  td_dde_kit_thread :: addr
  td_sleep_lock :: addr

record task_struct =
  ts_state :: u32
  ts_thread_info :: addr

record pid2task =
  pt_pid :: int
  pt_ts :: addr

record kthread_data =
  kd_fn :: addr
  kd_arg :: addr
  kd_name :: string

record 'k proc_state = "'k kmem_state" +
  thread_datas :: "addr \<rightharpoonup> thread_data"
  tasks :: "addr \<rightharpoonup> task_struct"
  kthread_datas :: "addr \<rightharpoonup> kthread_data"
  pid_task_list :: "(addr \<times> pid2task) list"
  pid_task_list_lock :: addr
  kthread_count :: u32

type_synonym ('k, 'z) prstate = "('k, 'z) proc_state_scheme"

abbreviation (input) TASK_RUNNING :: u32 where "TASK_RUNNING \<equiv> 0"
abbreviation (input) TASK_INTERRUPTIBLE :: u32 where "TASK_INTERRUPTIBLE \<equiv> 1"
abbreviation (input) TASK_UNINTERRUPTIBLE :: u32 where "TASK_UNINTERRUPTIBLE \<equiv> 2"

section \<open>Virtual memory\<close>

definition vmalloc ::
  "('k, 's) dde_kit \<Rightarrow> u32 \<Rightarrow> ('k, 'z) dde_base_scheme \<Rightarrow> addr \<times> ('k, 'z) dde_base_scheme" where
  "vmalloc K n s = kcall (simple_malloc K n) s"

definition vfree :: "('k, 's) dde_kit \<Rightarrow> addr \<Rightarrow> ('k, 'z) dde_base_scheme \<Rightarrow> ('k, 'z) dde_base_scheme" where
  "vfree K a s = kit_update (simple_free K a) s"

section \<open>The current task\<close>

definition current_thread_info :: "('k, ('k, 'z) prstate) dde_kit \<Rightarrow> ('k, 'z) prstate \<Rightarrow> addr" where
  "current_thread_info K s = thread_get_my_data K (kit s)"

definition get_current :: "('k, ('k, 'z) prstate) dde_kit \<Rightarrow> ('k, 'z) prstate \<Rightarrow> addr option" where
  "get_current K s = map_option (\<lambda>t. ti_task (td_thread_info t)) (thread_datas s (current_thread_info K s))"

definition lxtask_to_ddethread :: "addr \<Rightarrow> ('k, 'z) prstate \<Rightarrow> addr option" where
  "lxtask_to_ddethread t s = map_option ts_thread_info (tasks s t)"

section \<open>The list of process identifiers\<close>

definition attach_pid ::
  "('k, ('k, 'z) prstate) dde_kit \<Rightarrow> addr \<Rightarrow> int \<Rightarrow> ('k, 'z) prstate \<Rightarrow> (int \<times> ('k, 'z) prstate) option" where
  "attach_pid K task nr s = do {
     (pt, s) \<leftarrow> kmalloc K (sizeof K ''pid2task'') GFP_KERNEL s;
     if pt = 0 then None
     else do {
       let s = kit_update (lock_lock K (pid_task_list_lock s)) s;
       let s = s\<lparr>pid_task_list := (pt, \<lparr>pt_pid = nr, pt_ts = task\<rparr>) # pid_task_list s\<rparr>;
       let s = kit_update (lock_unlock K (pid_task_list_lock s)) s;
       Some (0, s) } }"

definition detach_pid ::
  "('k, ('k, 'z) prstate) dde_kit \<Rightarrow> addr \<Rightarrow> ('k, 'z) prstate \<Rightarrow> ('k, 'z) prstate option" where
  "detach_pid K task s = do {
     let s = kit_update (lock_lock K (pid_task_list_lock s)) s;
     s \<leftarrow> (case find (\<lambda>(a, p). pt_ts p = task) (pid_task_list s) of
            None \<Rightarrow> Some s
          | Some (a, p) \<Rightarrow>
              kfree K a (s\<lparr>pid_task_list := remove_first (\<lambda>(a, p). pt_ts p = task) (pid_task_list s)\<rparr>));
     Some (kit_update (lock_unlock K (pid_task_list_lock s)) s) }"

definition find_task_by_pid_type ::
  "('k, ('k, 'z) prstate) dde_kit \<Rightarrow> int \<Rightarrow> ('k, 'z) prstate \<Rightarrow> addr \<times> ('k, 'z) prstate" where
  "find_task_by_pid_type K nr s =
     (let s = kit_update (lock_lock K (pid_task_list_lock s)) s;
          r = (case find (\<lambda>(a, p). pt_pid p = nr) (pid_task_list s) of None \<Rightarrow> 0 | Some (a, p) \<Rightarrow> pt_ts p);
          s = kit_update (lock_unlock K (pid_task_list_lock s)) s
      in (r, s))"

section \<open>Process setup\<close>

text \<open>The members of \<open>init_thread\<close> and \<open>init_task\<close> (\<open>init_task.c\<close>) that the environment uses.\<close>

definition init_thread :: "('k, 's) dde_kit \<Rightarrow> thread_info" where
  "init_thread K = \<lparr>ti_task = symbol K ''init_task'', ti_preempt_count = 1\<rparr>"

definition init_task :: "('k, 's) dde_kit \<Rightarrow> task_struct" where
  "init_task K = \<lparr>ts_state = 0, ts_thread_info = symbol K ''init_thread_union''\<rparr>"

definition init_dde_linux26_thread ::
  "('k, ('k, 'z) prstate) dde_kit \<Rightarrow> ('k, 'z) prstate \<Rightarrow> (addr \<times> ('k, 'z) prstate) option" where
  "init_dde_linux26_thread K s = do {
     let (t, s) = vmalloc K (sizeof K ''dde_linux26_thread_data'') s;
     if t = 0 then None
     else do {
       let info = init_thread K;
       let (task, s) = vmalloc K (sizeof K ''task_struct'') s;
       if task = 0 then None
       else do {
         let info = info\<lparr>ti_task := task\<rparr>;
         let s = s\<lparr>tasks := (tasks s)(task \<mapsto> (init_task K)\<lparr>ts_thread_info := t\<rparr>)\<rparr>;
         let (sem, s) = kcall (sem_init K 0) s;
         Some (t, s\<lparr>thread_datas := (thread_datas s)(t \<mapsto>
           \<lparr>td_thread_info = info, td_dde_kit_thread = 0, td_sleep_lock = sem\<rparr>)\<rparr>) } } }"

text \<open>
  The member \<open>_dde_kit_thread\<close> of a fresh thread is not initialised by
  \<open>init_dde_linux26_thread\<close>; both callers set it before it is read.
\<close>

definition set_dde_kit_thread :: "addr \<Rightarrow> addr \<Rightarrow> ('k, 'z) prstate \<Rightarrow> ('k, 'z) prstate option" where
  "set_dde_kit_thread t h s = do {
     td \<leftarrow> thread_datas s t;
     Some (s\<lparr>thread_datas := (thread_datas s)(t \<mapsto> td\<lparr>td_dde_kit_thread := h\<rparr>)\<rparr>) }"

definition lx_task :: "addr \<Rightarrow> ('k, 'z) prstate \<Rightarrow> addr option" where
  "lx_task t s = map_option (\<lambda>td. ti_task (td_thread_info td)) (thread_datas s t)"

definition set_preempt_count :: "addr \<Rightarrow> u32 \<Rightarrow> ('k, 'z) prstate \<Rightarrow> ('k, 'z) prstate option" where
  "set_preempt_count t n s = do {
     td \<leftarrow> thread_datas s t;
     Some (s\<lparr>thread_datas := (thread_datas s)(t \<mapsto>
       td\<lparr>td_thread_info := (td_thread_info td)\<lparr>ti_preempt_count := n\<rparr>\<rparr>)\<rparr>) }"

definition dde_linux26_process_add_worker ::
  "('k, ('k, 'z) prstate) dde_kit \<Rightarrow> string \<Rightarrow> ('k, 'z) prstate \<Rightarrow> ('k, 'z) prstate option" where
  "dde_linux26_process_add_worker K name s = do {
     (cur, s) \<leftarrow> init_dde_linux26_thread K s;
     let h = thread_myself K (kit s);
     let (h, s) = (if h = 0 then kcall (thread_adopt_myself K name) s else (h, s));
     if h = 0 then None
     else do {
       s \<leftarrow> set_dde_kit_thread cur h s;
       let s = kit_update (thread_set_my_data K cur) s;
       task \<leftarrow> lx_task cur s;
       (r, s) \<leftarrow> attach_pid K task (thread_get_id K h (kit s)) s;
       set_preempt_count (current_thread_info K s) 0 s } }"

definition dde_linux26_process_from_dde_kit ::
  "('k, ('k, 'z) prstate) dde_kit \<Rightarrow> addr \<Rightarrow> ('k, 'z) prstate \<Rightarrow> (int \<times> ('k, 'z) prstate) option" where
  "dde_linux26_process_from_dde_kit K t s = do {
     (cur, s) \<leftarrow> init_dde_linux26_thread K s;
     s \<leftarrow> set_dde_kit_thread cur t s;
     let s = kit_update (thread_set_data K t cur) s;
     task \<leftarrow> lx_task cur s;
     (r, s) \<leftarrow> attach_pid K task (thread_get_id K t (kit s)) s;
     Some (0, s) }"

definition dde_linux26_process_init ::
  "('k, ('k, 'z) prstate) dde_kit \<Rightarrow> ('k, 'z) prstate \<Rightarrow> int \<times> ('k, 'z) prstate" where
  "dde_linux26_process_init K s =
     (let (l, s) = kcall (lock_init K) s in (0, s\<lparr>pid_task_list_lock := l\<rparr>))"

section \<open>Kernel threads\<close>

definition hex_digit :: "nat \<Rightarrow> char" where
  "hex_digit n = ''0123456789abcdef'' ! n"

fun hex :: "nat \<Rightarrow> string" where
  "hex n = (if n < 16 then [hex_digit n] else hex (n div 16) @ [hex_digit (n mod 16)])"

declare hex.simps [simp del]

definition kernel_thread ::
  "('k, ('k, 'z) prstate) dde_kit \<Rightarrow> addr \<Rightarrow> addr \<Rightarrow> u32 \<Rightarrow> ('k, 'z) prstate
   \<Rightarrow> (int \<times> ('k, 'z) prstate) option" where
  "kernel_thread K fn arg flags s = do {
     let (kt, s) = vmalloc K (sizeof K ''__kthread_data'') s;
     let threadnum = kthread_count s + 1;
     let s = s\<lparr>kthread_count := threadnum\<rparr>;
     if kt = 0 then None
     else do {
       let name = take 19 (''.kthread'' @ hex (unat threadnum));
       let s = s\<lparr>kthread_datas := (kthread_datas s)(kt \<mapsto> \<lparr>kd_fn = fn, kd_arg = arg, kd_name = name\<rparr>)\<rparr>;
       let (t, s) = kcall (thread_create K (symbol K ''__kthread_helper'') kt name) s;
       if t = 0 then None else Some (thread_get_id K t (kit s), s) } }"

text \<open>\<open>do_exit\<close> does not return: its result is the state in which the thread has left.\<close>

definition do_exit ::
  "('k, ('k, 'z) prstate) dde_kit \<Rightarrow> int \<Rightarrow> ('k, 'z) prstate \<Rightarrow> ('k, 'z) prstate option" where
  "do_exit K code s = do {
     cur \<leftarrow> get_current K s;
     td \<leftarrow> lxtask_to_ddethread cur s;
     t \<leftarrow> thread_datas s td;
     s \<leftarrow> detach_pid K cur s;
     Some (kit_update (thread_exit K) s) }"

text \<open>\<open>call\<close> is the meaning of the thread functions handed to \<open>kernel_thread\<close>.\<close>

definition kthread_helper ::
  "('k, ('k, 'z) prstate) dde_kit \<Rightarrow> (addr \<Rightarrow> addr \<Rightarrow> ('k, 'z) prstate \<Rightarrow> (int \<times> ('k, 'z) prstate) option)
   \<Rightarrow> addr \<Rightarrow> ('k, 'z) prstate \<Rightarrow> ('k, 'z) prstate option" where
  "kthread_helper K call arg s = do {
     k \<leftarrow> kthread_datas s arg;
     let s = (vfree K arg s)\<lparr>kthread_datas := (kthread_datas s)(arg := None)\<rparr>;
     s \<leftarrow> dde_linux26_process_add_worker K ''unused'' s;
     (code, s) \<leftarrow> call (kd_fn k) (kd_arg k) s;
     do_exit K code s }"

section \<open>Lemmas\<close>

text \<open>The mapping that the list of \<open>pid2task\<close> entries stands for; the newest entry of a pid wins.\<close>

definition pid_map :: "('k, 'z) prstate \<Rightarrow> int \<rightharpoonup> addr" where
  "pid_map s = map_of (map (\<lambda>(a, p). (pt_pid p, pt_ts p)) (pid_task_list s))"

lemma find_pid_map_of:
  "map_option (\<lambda>(a, p). pt_ts p) (find (\<lambda>(a, p). pt_pid p = nr) xs) =
   map_of (map (\<lambda>(a, p). (pt_pid p, pt_ts p)) xs) nr"
  by (induction xs) auto

lemma find_task_pid_map:
  "fst (find_task_by_pid_type K nr s) = (case pid_map s nr of None \<Rightarrow> 0 | Some t \<Rightarrow> t)"
  using find_pid_map_of [of nr "pid_task_list s"]
  by (auto simp: find_task_by_pid_type_def pid_map_def Let_def split: option.splits)

lemma more_proc:
  "kmem_state.more s' = kmem_state.more s \<Longrightarrow>
   thread_datas s' = thread_datas s \<and> tasks s' = tasks s \<and> kthread_datas s' = kthread_datas s \<and>
   pid_task_list s' = pid_task_list s \<and> pid_task_list_lock s' = pid_task_list_lock s \<and>
   kthread_count s' = kthread_count s \<and> proc_state.more s' = proc_state.more s"
  by (cases s, cases s') simp

lemma attach_pid_result:
  assumes "kmalloc_inv s" and "attach_pid K task nr s = Some (r, s')"
  obtains pt where "r = 0" "kmalloc_inv s'" "thread_datas s' = thread_datas s" "tasks s' = tasks s"
    "pid_task_list s' = (pt, \<lparr>pt_pid = nr, pt_ts = task\<rparr>) # pid_task_list s" "kmalloc_block s' pt"
    "kthread_datas s' = kthread_datas s" "proc_state.more s' = proc_state.more s"
    "kit_preserves K g \<Longrightarrow> g (kit s') = g (kit s)"
proof -
  obtain pt s1 where km: "kmalloc K (sizeof K ''pid2task'') GFP_KERNEL s = Some (pt, s1)"
    using kmalloc_total [OF assms(1)] by blast
  note fr = more_proc [OF kmalloc_frame(3) [OF assms(1) km]]
  have nz: "pt \<noteq> 0" and s': "r = 0" "s' = s1\<lparr>pid_task_list := (pt, \<lparr>pt_pid = nr, pt_ts = task\<rparr>) # pid_task_list s1,
      kit := lock_unlock K (pid_task_list_lock s1) (lock_lock K (pid_task_list_lock s1) (kit s1))\<rparr>"
    using assms(2) km by (auto simp: attach_pid_def Let_def split: if_splits)
  have "kmalloc_block s1 pt" using kheap.alloc_block [OF assms(1) km nz] .
  then have blk: "kmalloc_block s' pt" by (simp add: s' kmalloc_block_def)
  have inv: "kmalloc_inv s'"
    using kmalloc_keeps_inv [OF assms(1) km] kmalloc_inv_cong [of s' s1] by (simp add: s')
  have pres: "kit_preserves K g \<Longrightarrow> g (kit s') = g (kit s)"
    using kmalloc_preserves [OF _ assms(1) km, of g] by (simp add: s')
  show thesis by (rule that [OF s'(1) inv _ _ _ blk _ _ pres]) (use fr in \<open>simp_all add: s'\<close>)
qed

lemma detach_pid_head:
  assumes "kmalloc_inv s" and "pid_task_list s = (pt, p) # rest" and "pt_ts p = task" and "kmalloc_block s pt"
  shows "\<exists>k. detach_pid K task s = Some (s\<lparr>pid_task_list := rest, kit := k\<rparr>)"
proof -
  let ?t = "s\<lparr>kit := lock_lock K (pid_task_list_lock s) (kit s), pid_task_list := rest\<rparr>"
  have "kmalloc_inv ?t" using assms(1) kmalloc_inv_cong [of ?t s] by simp
  moreover have "kmalloc_block ?t pt" using assms(4) by (simp add: kmalloc_block_def)
  ultimately obtain k where "kfree K pt ?t = Some (?t\<lparr>kit := k\<rparr>)" using kfree_block by blast
  with assms(2,3) show ?thesis by (cases s) (simp add: detach_pid_def Let_def)
qed

lemma add_worker_result:
  assumes "kit_tls K" and "kmalloc_inv s" and "dde_linux26_process_add_worker K name s = Some s'"
  obtains cur task td pt id where "kmalloc_inv s'" "cur \<noteq> 0" "task \<noteq> 0"
    "thread_get_my_data K (kit s') = cur" "thread_datas s' cur = Some td" "ti_task (td_thread_info td) = task"
    "ti_preempt_count (td_thread_info td) = 0" "td_dde_kit_thread td \<noteq> 0"
    "tasks s' task = Some \<lparr>ts_state = TASK_RUNNING, ts_thread_info = cur\<rparr>"
    "pid_task_list s' = (pt, \<lparr>pt_pid = id, pt_ts = task\<rparr>) # pid_task_list s" "kmalloc_block s' pt"
    "kthread_datas s' = kthread_datas s" "\<exists>k. id = thread_get_id K (td_dde_kit_thread td) k"
proof -
  obtain cur s1 where i: "init_dde_linux26_thread K s = Some (cur, s1)"
    using assms(3) by (auto simp: dde_linux26_process_add_worker_def)
  then obtain task sem where cur: "cur \<noteq> 0" "task \<noteq> 0" "malloc_sizes s1 = malloc_sizes s"
      "tasks s1 task = Some \<lparr>ts_state = 0, ts_thread_info = cur\<rparr>" "caches s1 = caches s"
      "thread_datas s1 cur = Some \<lparr>td_thread_info = \<lparr>ti_task = task, ti_preempt_count = 1\<rparr>,
         td_dde_kit_thread = 0, td_sleep_lock = sem\<rparr>"
      "pid_task_list s1 = pid_task_list s" "kthread_datas s1 = kthread_datas s"
    by (auto simp: init_dde_linux26_thread_def vmalloc_def kcall_def init_thread_def init_task_def Let_def
        split: if_splits)
  obtain h s1' where hs: "(if thread_myself K (kit s1) = 0 then kcall (thread_adopt_myself K name) s1
      else (thread_myself K (kit s1), s1)) = (h, s1')" by fastforce
  then have s1': "s1' = s1\<lparr>kit := kit s1'\<rparr>" by (auto simp: kcall_def split: if_splits)
  define s2 where "s2 = s1\<lparr>kit := thread_set_my_data K cur (kit s1'), thread_datas := (thread_datas s1)(cur \<mapsto>
      \<lparr>td_thread_info = \<lparr>ti_task = task, ti_preempt_count = 1\<rparr>, td_dde_kit_thread = h, td_sleep_lock = sem\<rparr>)\<rparr>"
  have sd: "set_dde_kit_thread cur h s1' = Some (s1'\<lparr>thread_datas := thread_datas s2\<rparr>)"
    by (subst s1', subst (2) s1') (simp add: set_dde_kit_thread_def cur(6) s2_def)
  have st: "kit_update (thread_set_my_data K cur) (s1'\<lparr>thread_datas := thread_datas s2\<rparr>) = s2"
    by (subst s1') (simp add: s2_def)
  note s2 = s2_def
  have lx: "lx_task cur s2 = Some task" "thread_set_my_data K cur (kit s1') = kit s2"
    by (simp_all add: lx_task_def s2)
  have h: "h \<noteq> 0" and "\<exists>r s3. attach_pid K task (thread_get_id K h (kit s2)) s2 = Some (r, s3) \<and>
      set_preempt_count (current_thread_info K s3) 0 s3 = Some s'"
    using assms(3) by (auto simp: dde_linux26_process_add_worker_def i hs sd st lx Let_def split: if_splits)
  then obtain r s3 where at: "attach_pid K task (thread_get_id K h (kit s2)) s2 = Some (r, s3)"
    and pc: "set_preempt_count (current_thread_info K s3) 0 s3 = Some s'" by blast
  have inv2: "kmalloc_inv s2" using assms(2) cur kmalloc_inv_cong [of s2 s] by (simp add: s2)
  have tls: "kit_preserves K (thread_get_my_data K)" "thread_get_my_data K (kit s2) = cur"
    using assms(1) by (auto simp: kit_tls_def s2)
  from inv2 at obtain pt where a: "kmalloc_inv s3" "thread_datas s3 = thread_datas s2" "tasks s3 = tasks s2"
    "pid_task_list s3 = (pt, \<lparr>pt_pid = thread_get_id K h (kit s2), pt_ts = task\<rparr>) # pid_task_list s2"
    "kmalloc_block s3 pt" "kthread_datas s3 = kthread_datas s2" "thread_get_my_data K (kit s3) = cur"
    by (rule attach_pid_result [where g = "thread_get_my_data K"]) (use tls in auto)
  have s': "s' = s3\<lparr>thread_datas := (thread_datas s3)(cur \<mapsto> \<lparr>td_thread_info = \<lparr>ti_task = task, ti_preempt_count = 0\<rparr>,
         td_dde_kit_thread = h, td_sleep_lock = sem\<rparr>)\<rparr>"
    using pc a(2,7) by (auto simp: set_preempt_count_def current_thread_info_def s2)
  have inv': "kmalloc_inv s'" using a(1) kmalloc_inv_cong [of s' s3] by (simp add: s')
  show thesis
    by (rule that [OF inv' cur(1,2)]) (use a cur h in \<open>auto simp: s' s2 kmalloc_block_def\<close>)
qed

section \<open>Properties\<close>

definition proc_example :: "sim proc_state" where
  "proc_example = \<lparr>kit = sim_init, mem = (\<lambda>_. 0), caches = Map.empty, malloc_sizes = malloc_sizes_boot,
     thread_datas = Map.empty, tasks = Map.empty, kthread_datas = [0x500 \<mapsto> \<lparr>kd_fn = 1, kd_arg = 2, kd_name = ''k''\<rparr>],
     pid_task_list = [(0x40, \<lparr>pt_pid = 7, pt_ts = 0x700\<rparr>)], pid_task_list_lock = 3, kthread_count = 0\<rparr>"

abbreviation proc_sim_kit :: "(sim, sim proc_state) dde_kit" where
  "proc_sim_kit \<equiv> sim_kit"

lemma proc_example_inv: "kmalloc_inv proc_example"
  by (simp add: proc_example_def kmalloc_inv_def malloc_sizes_boot_def kmalloc_size_list_def cache_matches_def)

lemmas proc_example_simps = proc_example_def malloc_sizes_boot_def kmalloc_size_list_def kmem_defs sim_defs Let_def

text \<open>
  After \<open>attach_pid\<close> the new pid is found with its task and every other pid is found as
  before; a pid attached a second time resolves to the most recent task.
\<close>

theorem attach_pid_find:
  assumes "kmalloc_inv s" and "attach_pid K task nr s = Some (r, s')"
  shows "r = 0 \<and> kmalloc_inv s' \<and> (\<forall>m. fst (find_task_by_pid_type K m s') =
    (if m = nr then task else fst (find_task_by_pid_type K m s)))"
proof -
  from assms obtain pt where "r = 0" "kmalloc_inv s'"
      "pid_task_list s' = (pt, \<lparr>pt_pid = nr, pt_ts = task\<rparr>) # pid_task_list s"
    by (rule attach_pid_result)
  moreover from this(3) have "pid_map s' = (pid_map s)(nr \<mapsto> task)" by (simp add: pid_map_def)
  ultimately show ?thesis by (simp add: find_task_pid_map)
qed

theorem attach_pid_find_witness:
  "\<exists>r s'. attach_pid proc_sim_kit 0x900 12 proc_example = Some (r, s') \<and>
     fst (find_task_by_pid_type proc_sim_kit 12 s') = 0x900 \<and> fst (find_task_by_pid_type proc_sim_kit 7 s') = 0x700"
proof -
  obtain r s' where run: "attach_pid proc_sim_kit 0x900 12 proc_example = Some (r, s')"
    by (simp add: attach_pid_def proc_example_simps)
  have "fst (find_task_by_pid_type proc_sim_kit 7 proc_example) = 0x700"
    by (simp add: find_task_by_pid_type_def proc_example_def)
  with attach_pid_find [OF proc_example_inv run] run show ?thesis by auto
qed

text \<open>
  A thread that \<open>dde_linux26_process_add_worker\<close> returns to is a complete Linux process:
  \<open>current\<close> is its new running task, the task's \<open>thread_info\<close> leads back to the thread's own data,
  preemption is enabled, and its kit thread id is registered as its pid.
\<close>

theorem add_worker_makes_process:
  assumes "kit_tls K" and "kmalloc_inv s" and "dde_linux26_process_add_worker K name s = Some s'"
  shows "\<exists>cur td task k. get_current K s' = Some task \<and> task \<noteq> 0 \<and>
    lxtask_to_ddethread task s' = Some cur \<and> current_thread_info K s' = cur \<and>
    thread_datas s' cur = Some td \<and> ti_preempt_count (td_thread_info td) = 0 \<and>
    map_option ts_state (tasks s' task) = Some TASK_RUNNING \<and>
    fst (find_task_by_pid_type K (thread_get_id K (td_dde_kit_thread td) k) s') = task"
proof -
  from assms obtain cur task td pt id where
    r: "task \<noteq> 0" "thread_get_my_data K (kit s') = cur" "thread_datas s' cur = Some td"
    "ti_task (td_thread_info td) = task" "ti_preempt_count (td_thread_info td) = 0"
    "tasks s' task = Some \<lparr>ts_state = TASK_RUNNING, ts_thread_info = cur\<rparr>"
    "pid_task_list s' = (pt, \<lparr>pt_pid = id, pt_ts = task\<rparr>) # pid_task_list s"
    "\<exists>k. id = thread_get_id K (td_dde_kit_thread td) k"
    by (rule add_worker_result)
  moreover have "fst (find_task_by_pid_type K id s') = task"
    by (simp add: find_task_pid_map pid_map_def r(7))
  moreover have "get_current K s' = Some task" "current_thread_info K s' = cur"
    by (simp_all add: get_current_def current_thread_info_def r)
  ultimately show ?thesis by (auto simp: lxtask_to_ddethread_def)
qed

theorem add_worker_makes_process_witness:
  "\<exists>s' task. dde_linux26_process_add_worker proc_sim_kit ''w'' proc_example = Some s' \<and>
     get_current proc_sim_kit s' = Some task \<and> (\<exists>pid. fst (find_task_by_pid_type proc_sim_kit pid s') = task)"
proof -
  obtain s' where run: "dde_linux26_process_add_worker proc_sim_kit ''w'' proc_example = Some s'"
    by (simp add: dde_linux26_process_add_worker_def init_dde_linux26_thread_def set_dde_kit_thread_def
        set_preempt_count_def lx_task_def vmalloc_def attach_pid_def current_thread_info_def proc_example_simps)
  from add_worker_makes_process [OF sim_kit_tls proc_example_inv run] run show ?thesis by blast
qed



end
