(* ===== verification/Irq_Flags.thy ===== *)
theory Irq_Flags
  imports Process
begin

text \<open>
  The interrupt flag emulation of \<open>arch/dde_kit/cli_sti.c\<close> and the wrappers of \<open>asm/irqflags.h\<close> and
  \<open>linux/irqflags.h\<close> around it.  The "flags" word of a DDE thread is the value of one global
  reference counter, a 32-bit \<open>atomic_t\<close>.
\<close>

record 'k irqf_state = "'k proc_state" +
  refcnt :: u32

type_synonym ('k, 'z) ifstate = "('k, 'z) irqf_state_scheme"

definition raw_irqs_disabled_flags :: "u32 \<Rightarrow> bool" where
  "raw_irqs_disabled_flags flags \<longleftrightarrow> 0 < sint flags"

definition raw_local_save_flags :: "('k, 'z) ifstate \<Rightarrow> u32" where
  "raw_local_save_flags s = refcnt s"

definition raw_local_irq_disable :: "('k, 'z) ifstate \<Rightarrow> ('k, 'z) ifstate" where
  "raw_local_irq_disable s = s\<lparr>refcnt := refcnt s + 1\<rparr>"

text \<open>\<open>for (i; i > 0; --i) atomic_dec(&_refcnt);\<close>\<close>

primrec irq_enable_loop :: "nat \<Rightarrow> ('k, 'z) ifstate \<Rightarrow> ('k, 'z) ifstate" where
  "irq_enable_loop 0 s = s"
| "irq_enable_loop (Suc i) s = irq_enable_loop i (s\<lparr>refcnt := refcnt s - 1\<rparr>)"

definition raw_local_irq_enable :: "('k, 'z) ifstate \<Rightarrow> ('k, 'z) ifstate" where
  "raw_local_irq_enable s = irq_enable_loop (nat (sint (refcnt s))) s"

definition raw_local_irq_restore :: "u32 \<Rightarrow> ('k, 'z) ifstate \<Rightarrow> ('k, 'z) ifstate" where
  "raw_local_irq_restore flags s = raw_local_irq_enable s"

definition raw_local_irq_save :: "('k, 'z) ifstate \<Rightarrow> u32 \<times> ('k, 'z) ifstate" where
  "raw_local_irq_save s = (let flags = raw_local_save_flags s in (flags, raw_local_irq_disable s))"

definition raw_irqs_disabled :: "('k, 'z) ifstate \<Rightarrow> bool" where
  "raw_irqs_disabled s = raw_irqs_disabled_flags (raw_local_save_flags s)"

definition local_irq_save :: "('k, 'z) ifstate \<Rightarrow> u32 \<times> ('k, 'z) ifstate" where
  "local_irq_save s = raw_local_irq_save s"

text \<open>Both branches of the macro restore; they differ in lock tracing only, which is compiled out.\<close>

definition local_irq_restore :: "u32 \<Rightarrow> ('k, 'z) ifstate \<Rightarrow> ('k, 'z) ifstate" where
  "local_irq_restore flags s =
     (if raw_irqs_disabled_flags flags then raw_local_irq_restore flags s else raw_local_irq_restore flags s)"

section \<open>Lemmas\<close>

lemma irq_enable_loop_result: "irq_enable_loop n s = s\<lparr>refcnt := refcnt s - of_nat n\<rparr>"
proof (induction n arbitrary: s)
  case (Suc n)
  have "refcnt s - 1 - of_nat n = refcnt s - of_nat (Suc n)" by (simp only: of_nat_Suc diff_diff_eq)
  with Suc show ?case by simp
qed simp

lemma raw_local_irq_enable_result:
  "raw_local_irq_enable s = (if raw_irqs_disabled s then s\<lparr>refcnt := 0\<rparr> else s)"
proof (cases "0 < sint (refcnt s)")
  case True
  then have "(of_nat (nat (sint (refcnt s))) :: u32) = refcnt s"
    using of_nat_nat [of "sint (refcnt s)", where 'a = u32] by simp
  with True show ?thesis
    by (simp add: raw_local_irq_enable_def irq_enable_loop_result raw_irqs_disabled_def
        raw_irqs_disabled_flags_def raw_local_save_flags_def)
qed (simp add: raw_local_irq_enable_def raw_irqs_disabled_def raw_irqs_disabled_flags_def raw_local_save_flags_def)

lemma local_irq_restore_result:
  "local_irq_restore flags s = (if raw_irqs_disabled s then s\<lparr>refcnt := 0\<rparr> else s)"
  by (simp add: local_irq_restore_def raw_local_irq_restore_def raw_local_irq_enable_result)

lemma local_irq_save_result: "local_irq_save s = (refcnt s, s\<lparr>refcnt := refcnt s + 1\<rparr>)"
  by (simp add: local_irq_save_def raw_local_irq_save_def raw_local_save_flags_def raw_local_irq_disable_def)

lemma local_irq_section:
  assumes "refcnt s = 0"
  shows "raw_irqs_disabled (snd (local_irq_save s))"
  using assms by (simp add: local_irq_save_result raw_irqs_disabled_def raw_irqs_disabled_flags_def raw_local_save_flags_def)

lemma nested_irq_save:
  "((snd \<circ> local_irq_save) ^^ n) s = s\<lparr>refcnt := refcnt s + of_nat n\<rparr>"
proof (induction n)
  case (Suc n)
  have "refcnt s + of_nat n + 1 = refcnt s + of_nat (Suc n)" by (simp only: of_nat_Suc ac_simps)
  with Suc show ?case by (simp add: local_irq_save_result)
qed simp

section \<open>Properties\<close>

text \<open>
  From enabled interrupts, \<open>n\<close> nested \<open>local_irq_save\<close> calls disable them, but the first
  \<open>local_irq_restore\<close>, whatever flags it is given, enables them again for all enclosing sections; only
  a section that is not nested in another one is restored exactly.
\<close>

theorem irq_restore_ends_all_sections:
  assumes "refcnt s = 0" and "0 < n" and "n < 2 ^ 31"
  shows "raw_irqs_disabled (((snd \<circ> local_irq_save) ^^ n) s) \<and>
    local_irq_restore flags (((snd \<circ> local_irq_save) ^^ n) s) = s \<and> \<not> raw_irqs_disabled s"
proof -
  have "sint (of_nat n :: u32) = int n"
    using assms(3) by (simp add: signed_of_nat signed_take_bit_int_eq_self)
  then have d: "raw_irqs_disabled (((snd \<circ> local_irq_save) ^^ n) s)"
    using assms(1,2) by (simp add: nested_irq_save raw_irqs_disabled_def raw_irqs_disabled_flags_def raw_local_save_flags_def)
  then have "local_irq_restore flags (((snd \<circ> local_irq_save) ^^ n) s) = s"
    using assms(1) by (simp add: local_irq_restore_result) (simp add: nested_irq_save)
  with d assms(1) show ?thesis
    by (simp add: raw_irqs_disabled_def raw_irqs_disabled_flags_def raw_local_save_flags_def)
qed

definition irqf_example :: "sim irqf_state" where
  "irqf_example = proc_state.extend proc_example (irqf_state.fields 0)"

theorem irq_restore_ends_all_sections_witness:
  "local_irq_restore 1 (((snd \<circ> local_irq_save) ^^ 2) irqf_example) = irqf_example"
  using irq_restore_ends_all_sections [of irqf_example 2 1]
  by (simp add: irqf_example_def proc_example_def proc_state.defs irqf_state.defs)

end
