(* ===== verification/Timer_Sched.thy ===== *)
theory Timer_Sched
  imports Irq_Flags
begin

text \<open>
  Timers (\<open>arch/dde_kit/timer.c\<close>) and the scheduler interface (\<open>arch/dde_kit/sched.c\<close>).  A
  \<open>struct timer_list\<close> belongs to the caller, so the timer operations take its value and return the
  updated one.  Jiffies come from the kit and are a wrapping 32-bit counter.
\<close>

section \<open>Timers\<close>

record timer_list =
  tl_expires :: u32
  tl_function :: addr
  tl_data :: u32
  tl_dde_kit_timer :: addr

record 'k sched_state = "'k irqf_state" +
  timer_initialized :: bool

type_synonym ('k, 'z) sstate = "('k, 'z) sched_state_scheme"
type_synonym ('k, 'z) skit = "('k, ('k, 'z) sched_state_scheme) dde_kit"

text \<open>\<open>CHECK_INITVAR\<close> stops in \<open>BUG()\<close> when the subsystem was not initialised.\<close>

definition check_initvar :: "bool \<Rightarrow> unit option" where
  "check_initvar b = (if b then Some () else None)"

definition add_timer ::
  "('k, 'z) skit \<Rightarrow> timer_list \<Rightarrow> ('k, 'z) sstate \<Rightarrow> (timer_list \<times> ('k, 'z) sstate) option" where
  "add_timer K t s = do {
     check_initvar (timer_initialized s);
     let (h, s) = kcall (timer_add K (tl_function t) (tl_data t) (tl_expires t)) s;
     Some (t\<lparr>tl_dde_kit_timer := h\<rparr>, s) }"

definition add_timer_on ::
  "('k, 'z) skit \<Rightarrow> timer_list \<Rightarrow> int \<Rightarrow> ('k, 'z) sstate \<Rightarrow> (timer_list \<times> ('k, 'z) sstate) option" where
  "add_timer_on K t cpu s = add_timer K t s"

definition del_timer ::
  "('k, 'z) skit \<Rightarrow> timer_list \<Rightarrow> ('k, 'z) sstate \<Rightarrow> (int \<times> timer_list \<times> ('k, 'z) sstate) option" where
  "del_timer K t s = do {
     check_initvar (timer_initialized s);
     if tl_dde_kit_timer t \<noteq> 0 then do {
       let pending = (if timer_pending_kit K (tl_dde_kit_timer t) (kit s) then 1 else 0);
       let s = kit_update (timer_del K (tl_dde_kit_timer t)) s;
       Some (pending, t\<lparr>tl_dde_kit_timer := 0\<rparr>, s) }
     else Some (0, t, s) }"

definition del_timer_sync ::
  "('k, 'z) skit \<Rightarrow> timer_list \<Rightarrow> ('k, 'z) sstate \<Rightarrow> (int \<times> timer_list \<times> ('k, 'z) sstate) option" where
  "del_timer_sync K t s = del_timer K t s"

definition mod_timer_internal ::
  "('k, 'z) skit \<Rightarrow> timer_list \<Rightarrow> u32 \<Rightarrow> ('k, 'z) sstate \<Rightarrow> (int \<times> timer_list \<times> ('k, 'z) sstate) option" where
  "mod_timer_internal K t expires s = do {
     check_initvar (timer_initialized s);
     (r, t, s) \<leftarrow> del_timer K t s;
     let t = t\<lparr>tl_expires := expires\<rparr>;
     (t, s) \<leftarrow> add_timer K t s;
     Some (if r > 0 then 1 else 0, t, s) }"

definition mod_timer ::
  "('k, 'z) skit \<Rightarrow> timer_list \<Rightarrow> u32 \<Rightarrow> ('k, 'z) sstate \<Rightarrow> (int \<times> timer_list \<times> ('k, 'z) sstate) option" where
  "mod_timer K t expires s = mod_timer_internal K t expires s"

definition timer_pending :: "('k, 'z) skit \<Rightarrow> timer_list \<Rightarrow> ('k, 'z) sstate \<Rightarrow> bool option" where
  "timer_pending K t s = do {
     check_initvar (timer_initialized s);
     Some (tl_dde_kit_timer t \<noteq> 0 \<and> timer_pending_kit K (tl_dde_kit_timer t) (kit s)) }"

definition dde_linux26_timer_init :: "('k, 'z) skit \<Rightarrow> ('k, 'z) sstate \<Rightarrow> ('k, 'z) sstate" where
  "dde_linux26_timer_init K s = (kit_update (timer_init K) s)\<lparr>timer_initialized := True\<rparr>"

text \<open>\<open>_init_timers\<close> is the function the kit's timer thread runs first.\<close>

definition init_timers :: "('k, 'z) skit \<Rightarrow> ('k, 'z) sstate \<Rightarrow> ('k, 'z) sstate option" where
  "init_timers K s = dde_linux26_process_add_worker K ''unused'' s"

abbreviation (input) HZ :: u32 where "HZ \<equiv> 100"

definition do_gettimeofday :: "('k, 'z) skit \<Rightarrow> ('k, 'z) sstate \<Rightarrow> u32 \<times> u32" where
  "do_gettimeofday K s =
     (jiffies K (kit s) div HZ, ((jiffies K (kit s) mod HZ) * 1000000) div HZ)"

definition round_jiffies :: "u32 \<Rightarrow> u32" where
  "round_jiffies j = j"

section \<open>Scheduling\<close>

definition set_current_state :: "('k, 'z) skit \<Rightarrow> u32 \<Rightarrow> ('k, 'z) sstate \<Rightarrow> ('k, 'z) sstate option" where
  "set_current_state K st s = do {
     cur \<leftarrow> get_current K s;
     t \<leftarrow> tasks s cur;
     Some (s\<lparr>tasks := (tasks s)(cur \<mapsto> t\<lparr>ts_state := st\<rparr>)\<rparr>) }"

definition schedule :: "('k, 'z) skit \<Rightarrow> ('k, 'z) sstate \<Rightarrow> ('k, 'z) sstate option" where
  "schedule K s = do {
     cur \<leftarrow> get_current K s;
     a \<leftarrow> lxtask_to_ddethread cur s;
     t \<leftarrow> tasks s cur;
     if ts_state t = TASK_RUNNING then Some (kit_update (thread_schedule K) s)
     else if ts_state t = TASK_INTERRUPTIBLE \<or> ts_state t = TASK_UNINTERRUPTIBLE then do {
       td \<leftarrow> thread_datas s a;
       Some (kit_update (sem_down K (td_sleep_lock td)) s) }
     else None }"

definition yield :: "('k, 'z) skit \<Rightarrow> ('k, 'z) sstate \<Rightarrow> ('k, 'z) sstate option" where
  "yield K s = do {
     s \<leftarrow> set_current_state K TASK_RUNNING s;
     Some (kit_update (thread_schedule K) s) }"

definition try_to_wake_up ::
  "('k, 'z) skit \<Rightarrow> addr \<Rightarrow> u32 \<Rightarrow> int \<Rightarrow> ('k, 'z) sstate \<Rightarrow> (int \<times> ('k, 'z) sstate) option" where
  "try_to_wake_up K p state sync s = do {
     a \<leftarrow> lxtask_to_ddethread p s;
     t \<leftarrow> tasks s p;
     let s = s\<lparr>tasks := (tasks s)(p \<mapsto> t\<lparr>ts_state := TASK_RUNNING\<rparr>)\<rparr>;
     td \<leftarrow> thread_datas s a;
     Some (0, kit_update (sem_up K (td_sleep_lock td)) s) }"

text \<open>\<open>wake_up_process\<close> of \<open>kernel/sched.c\<close>; the mask holds the four sleeping and stopped states.\<close>

definition wake_up_process ::
  "('k, 'z) skit \<Rightarrow> addr \<Rightarrow> ('k, 'z) sstate \<Rightarrow> (int \<times> ('k, 'z) sstate) option" where
  "wake_up_process K p s = try_to_wake_up K p 0xF 0 s"

definition process_timeout :: "('k, 'z) skit \<Rightarrow> u32 \<Rightarrow> ('k, 'z) sstate \<Rightarrow> ('k, 'z) sstate option" where
  "process_timeout K data s = map_option snd (wake_up_process K data s)"

definition schedule_timeout ::
  "('k, 'z) skit \<Rightarrow> 32 word \<Rightarrow> ('k, 'z) sstate \<Rightarrow> (32 word \<times> ('k, 'z) sstate) option" where
  "schedule_timeout K timeout s = do {
     let expire = timeout + jiffies K (kit s);
     cur \<leftarrow> get_current K s;
     let timer = \<lparr>tl_expires = expire, tl_function = symbol K ''process_timeout'', tl_data = cur,
                  tl_dde_kit_timer = 0\<rparr>;
     (timer, s) \<leftarrow> add_timer K timer s;
     s \<leftarrow> schedule K s;
     (r, timer, s) \<leftarrow> del_timer K timer s;
     let timeout = expire - jiffies K (kit s);
     Some (if sint timeout < 0 then 0 else timeout, s) }"

definition schedule_timeout_interruptible ::
  "('k, 'z) skit \<Rightarrow> 32 word \<Rightarrow> ('k, 'z) sstate \<Rightarrow> (32 word \<times> ('k, 'z) sstate) option" where
  "schedule_timeout_interruptible K timeout s = do {
     s \<leftarrow> set_current_state K TASK_INTERRUPTIBLE s;
     schedule_timeout K timeout s }"

definition schedule_timeout_uninterruptible ::
  "('k, 'z) skit \<Rightarrow> 32 word \<Rightarrow> ('k, 'z) sstate \<Rightarrow> (32 word \<times> ('k, 'z) sstate) option" where
  "schedule_timeout_uninterruptible K timeout s = do {
     s \<leftarrow> set_current_state K TASK_UNINTERRUPTIBLE s;
     schedule_timeout K timeout s }"

definition set_cpus_allowed :: "addr \<Rightarrow> u32 \<Rightarrow> int" where
  "set_cpus_allowed p new_mask = 0"

section \<open>Sleeping\<close>

definition msleep :: "('k, 'z) skit \<Rightarrow> u32 \<Rightarrow> ('k, 'z) sstate \<Rightarrow> ('k, 'z) sstate" where
  "msleep K msecs s = kit_update (thread_msleep K msecs) s"

definition msleep_interruptible :: "('k, 'z) skit \<Rightarrow> u32 \<Rightarrow> ('k, 'z) sstate \<Rightarrow> ('k, 'z) sstate option" where
  "msleep_interruptible K msecs s = do {
     check_initvar (timer_initialized s);
     s \<leftarrow> set_current_state K TASK_INTERRUPTIBLE s;
     (r, s) \<leftarrow> schedule_timeout K msecs s;
     Some s }"

definition udelay :: "('k, 'z) skit \<Rightarrow> u32 \<Rightarrow> ('k, 'z) sstate \<Rightarrow> ('k, 'z) sstate" where
  "udelay K usecs s = kit_update (thread_usleep K usecs) s"

definition ndelay :: "('k, 'z) skit \<Rightarrow> u32 \<Rightarrow> ('k, 'z) sstate \<Rightarrow> ('k, 'z) sstate" where
  "ndelay K nsecs s = kit_update (thread_nsleep K nsecs) s"

section \<open>Lemmas\<close>

text \<open>The calling thread is a process whose task and thread data refer to each other.\<close>

definition proc_ok :: "('k, 'z) skit \<Rightarrow> ('k, 'z) sstate \<Rightarrow> bool" where
  "proc_ok K s \<longleftrightarrow> (case thread_datas s (current_thread_info K s) of None \<Rightarrow> False
     | Some td \<Rightarrow> (case tasks s (ti_task (td_thread_info td)) of None \<Rightarrow> False
       | Some t \<Rightarrow> ts_thread_info t = current_thread_info K s \<and> ts_state t \<le> TASK_UNINTERRUPTIBLE))"

lemma proc_okE:
  assumes "proc_ok K s"
  obtains td t where "thread_datas s (current_thread_info K s) = Some td"
    "tasks s (ti_task (td_thread_info td)) = Some t" "ts_thread_info t = current_thread_info K s"
    "ts_state t = TASK_RUNNING \<or> ts_state t = TASK_INTERRUPTIBLE \<or> ts_state t = TASK_UNINTERRUPTIBLE"
    "get_current K s = Some (ti_task (td_thread_info td))"
proof -
  have "x = 0 \<or> x = 1 \<or> x = 2" if "x \<le> 2" for x :: u32
    using that by (simp add: word_le_nat_alt word_unat_eq_iff) linarith
  then show thesis
    using that assms by (auto simp: proc_ok_def get_current_def split: option.splits)
qed

lemma schedule_result:
  assumes "proc_ok K s"
  shows "\<exists>k. schedule K s = Some (s\<lparr>kit := k\<rparr>)"
proof -
  from assms obtain td t where "thread_datas s (current_thread_info K s) = Some td"
    "tasks s (ti_task (td_thread_info td)) = Some t" "ts_thread_info t = current_thread_info K s"
    "ts_state t = TASK_RUNNING \<or> ts_state t = TASK_INTERRUPTIBLE \<or> ts_state t = TASK_UNINTERRUPTIBLE"
    "get_current K s = Some (ti_task (td_thread_info td))"
    by (rule proc_okE)
  then show ?thesis by (cases s) (auto simp: schedule_def lxtask_to_ddethread_def)
qed

lemma schedule_timeout_result:
  assumes "kit_tls K" and "proc_ok K s" and "timer_initialized s"
  shows "\<exists>k. schedule_timeout K timeout s =
    (let left = timeout + jiffies K (kit s) - jiffies K k
     in Some (if sint left < 0 then 0 else left, s\<lparr>kit := k\<rparr>))"
proof -
  let ?e = "timeout + jiffies K (kit s)"
  from assms(2) obtain td :: thread_data where gc: "get_current K s = Some (ti_task (td_thread_info td))"
    by (elim proc_okE) blast
  let ?t = "\<lparr>tl_expires = ?e, tl_function = symbol K ''process_timeout'',
      tl_data = ti_task (td_thread_info td), tl_dde_kit_timer = 0\<rparr>"
  let ?k = "snd (timer_add K (symbol K ''process_timeout'') (ti_task (td_thread_info td)) ?e (kit s))"
  let ?h = "fst (timer_add K (symbol K ''process_timeout'') (ti_task (td_thread_info td)) ?e (kit s))"
  have add: "add_timer K ?t s = Some (?t\<lparr>tl_dde_kit_timer := ?h\<rparr>, s\<lparr>kit := ?k\<rparr>)"
    using assms(3) by (simp add: add_timer_def check_initvar_def kcall_def)
  have "proc_ok K (s\<lparr>kit := ?k\<rparr>)"
    using assms(1,2) by (auto simp: proc_ok_def current_thread_info_def kit_tls_def split: option.splits)
  then obtain k2 where "schedule K (s\<lparr>kit := ?k\<rparr>) = Some (s\<lparr>kit := k2\<rparr>)"
    using schedule_result by fastforce
  moreover obtain r t' k3 where "del_timer K (?t\<lparr>tl_dde_kit_timer := ?h\<rparr>) (s\<lparr>kit := k2\<rparr>) = Some (r, t', s\<lparr>kit := k3\<rparr>)"
    using assms(3) by (cases "?h = 0") (auto simp: del_timer_def check_initvar_def comp_def)
  ultimately show ?thesis
    using gc add by (auto simp: schedule_timeout_def Let_def intro!: exI [of _ k3])
qed

text \<open>Subtraction of two jiffies counters measures a span of less than half the counter's range.\<close>

lemma jiffies_span:
  fixes t j0 j1 :: u32
  assumes "0 \<le> sint t" and "unat (j1 - j0) < 2 ^ 31"
  shows "sint (t + j0 - j1) = sint t - int (unat (j1 - j0))"
proof -
  let ?d = "j1 - j0"
  have t: "t + j0 - j1 = t - ?d" by simp
  have "int (unat ?d) < int (2 ^ 31)" using assms(2) by (simp only: of_nat_less_iff)
  then have u: "uint ?d < 2 ^ 31" "0 \<le> uint ?d" by (simp_all del: power_numeral)
  have d: "sint ?d = uint ?d" using sint_small [OF assms(2)] by simp
  have "sint t < 2 ^ 31" using sint_lt [of t] by simp
  then have "signed_take_bit 31 (sint t - uint ?d) = sint t - uint ?d"
    using assms(1) u by (intro signed_take_bit_int_eq_self) linarith+
  then show ?thesis unfolding t
    using d sint_word_ariths(2) [of t ?d] by simp
qed

section \<open>Properties\<close>

definition sched_example :: "sim sched_state" where
  "sched_example = \<lparr>kit = sim_init\<lparr>sim_now := 0xFFFFFFF0, sim_data := 0x10\<rparr>, mem = (\<lambda>_. 0), caches = Map.empty,
     malloc_sizes = malloc_sizes_boot,
     thread_datas = [0x10 \<mapsto> \<lparr>td_thread_info = \<lparr>ti_task = 0x20, ti_preempt_count = 0\<rparr>,
       td_dde_kit_thread = 1, td_sleep_lock = 2\<rparr>],
     tasks = [0x20 \<mapsto> \<lparr>ts_state = TASK_INTERRUPTIBLE, ts_thread_info = 0x10\<rparr>], kthread_datas = Map.empty,
     pid_task_list = [], pid_task_list_lock = 3, kthread_count = 0, refcnt = 0, timer_initialized = True\<rparr>"

text \<open>A kit whose semaphores let 30 jiffies pass before they are taken.\<close>

definition slow_kit :: "(sim, sim sched_state) dde_kit" where
  "slow_kit = sim_kit\<lparr>sem_down := (\<lambda>a k. k\<lparr>sim_now := sim_now k + 30\<rparr>)\<rparr>"

lemma slow_kit_tls: "kit_tls slow_kit"
  by (simp add: slow_kit_def kit_tls_def kit_preserves_def sim_kit_def sim_ev_def sim_new_def)

text \<open>
  \<open>schedule_timeout\<close> always comes back and returns the unused part of the timeout: the
  timeout less the jiffies that passed, or zero when more have passed.  This holds across the
  wrap-around of the jiffies counter, for spans below half its range.
\<close>

theorem schedule_timeout_remaining:
  assumes "kit_tls K" and "proc_ok K s" and "timer_initialized s" and "0 \<le> sint timeout"
  shows "\<exists>r s'. schedule_timeout K timeout s = Some (r, s') \<and>
    (let passed = unat (jiffies K (kit s') - jiffies K (kit s))
     in passed < 2 ^ 31 \<longrightarrow> sint r = max 0 (sint timeout - int passed))"
proof -
  obtain k where run: "schedule_timeout K timeout s =
    (let left = timeout + jiffies K (kit s) - jiffies K k
     in Some (if sint left < 0 then 0 else left, s\<lparr>kit := k\<rparr>))"
    using schedule_timeout_result [OF assms(1-3)] by blast
  show ?thesis
    using jiffies_span [OF assms(4), of "jiffies K k" "jiffies K (kit s)"] by (auto simp: run Let_def)
qed

theorem schedule_timeout_remaining_witness:
  "\<exists>r s'. schedule_timeout slow_kit 50 sched_example = Some (r, s') \<and> sint r = 20"
proof -
  have ok: "proc_ok slow_kit sched_example" "timer_initialized sched_example"
    by (simp_all add: proc_ok_def current_thread_info_def slow_kit_def sim_kit_def sched_example_def)
  have j: "jiffies slow_kit (kit s') - jiffies slow_kit (kit sched_example) = 30"
    if "schedule_timeout slow_kit 50 sched_example = Some (r, s')" for r s'
    using that by (auto simp: schedule_timeout_def get_current_def current_thread_info_def slow_kit_def
        sched_example_def add_timer_def del_timer_def check_initvar_def schedule_def lxtask_to_ddethread_def sim_defs)
  obtain r s' where "schedule_timeout slow_kit 50 sched_example = Some (r, s')"
      "let passed = unat (jiffies slow_kit (kit s') - jiffies slow_kit (kit sched_example))
       in passed < 2 ^ 31 \<longrightarrow> sint r = max 0 (sint (50 :: u32) - int passed)"
    using schedule_timeout_remaining [OF slow_kit_tls ok, of 50] by auto
  with j [OF this(1)] show ?thesis by (auto simp: Let_def)
qed

text \<open>
  \<open>mod_timer\<close> leaves exactly one kit timer behind: it deletes the one the timer had,
  arms a new one with the same function and the new expiry, and reports whether the old one was
  pending.  A later \<open>timer_pending\<close> therefore asks the kit about the new timer.
\<close>

theorem mod_timer_rearms:
  assumes "timer_initialized s"
  shows "\<exists>r t' s'. mod_timer K t e s = Some (r, t', s') \<and>
    (r = 1 \<longleftrightarrow> timer_pending K t s = Some True) \<and> (r = 0 \<or> r = 1) \<and>
    tl_expires t' = e \<and> tl_function t' = tl_function t \<and> tl_data t' = tl_data t \<and>
    (tl_dde_kit_timer t', kit s') = timer_add K (tl_function t) (tl_data t) e
      (if tl_dde_kit_timer t = 0 then kit s else timer_del K (tl_dde_kit_timer t) (kit s)) \<and>
    s' = s\<lparr>kit := kit s'\<rparr>"
  using assms
  by (cases "tl_dde_kit_timer t = 0")
    (auto simp: mod_timer_def mod_timer_internal_def del_timer_def add_timer_def timer_pending_def
      check_initvar_def kcall_def Let_def)

theorem mod_timer_rearms_witness:
  "\<exists>r t' s'. mod_timer slow_kit \<lparr>tl_expires = 1, tl_function = 2, tl_data = 3, tl_dde_kit_timer = 4\<rparr> 9 sched_example
     = Some (r, t', s') \<and> r = 1 \<and> tl_expires t' = 9"
proof -
  have "timer_initialized sched_example" by (simp add: sched_example_def)
  from mod_timer_rearms [OF this, of slow_kit "\<lparr>tl_expires = 1, tl_function = 2, tl_data = 3, tl_dde_kit_timer = 4\<rparr>" 9]
  show ?thesis by (auto simp: timer_pending_def check_initvar_def sched_example_def slow_kit_def sim_kit_def)
qed

end
