(* ===== verification/Softirq.thy ===== *)
theory Softirq
  imports Timer_Sched
begin

text \<open>
  Softirqs and tasklets of \<open>arch/dde_kit/softirq.c\<close>, with the inline functions of
  \<open>linux/interrupt.h\<close> (SMP variant).  A tasklet queue is a chain of \<open>next\<close> pointers through the store
  \<open>tasklets\<close>.  Tasklet functions and the actions of other softirqs are code outside this
  component: \<open>tfn\<close> and \<open>act\<close> give their meaning.  The two tasklet queues are handled by identical
  code; \<open>tvec\<close> says which one is meant.
\<close>

section \<open>State\<close>

record tasklet_struct =
  tk_next :: addr
  tk_state :: u32
  tk_count :: u32
  tk_func :: addr
  tk_data :: u32

record tasklet_head =
  th_list :: addr
  th_lock :: addr

record softirq_action =
  sa_action :: addr
  sa_data :: addr

record 'k soft_state = "'k sched_state" +
  softirq_initialized :: bool
  softirq_sem :: addr
  softirq_pending :: u32
  softirq_vec :: "nat \<Rightarrow> softirq_action"
  tasklets :: "addr \<rightharpoonup> tasklet_struct"
  tasklet_vec :: tasklet_head
  tasklet_hi_vec :: tasklet_head

type_synonym ('k, 'z) fstate = "('k, 'z) soft_state_scheme"
type_synonym ('k, 'z) fkit = "('k, ('k, 'z) soft_state_scheme) dde_kit"
type_synonym ('k, 'z) tfn = "addr \<Rightarrow> u32 \<Rightarrow> ('k, 'z) soft_state_scheme \<Rightarrow> ('k, 'z) soft_state_scheme option"
type_synonym ('k, 'z) act = "addr \<Rightarrow> nat \<Rightarrow> ('k, 'z) soft_state_scheme \<Rightarrow> ('k, 'z) soft_state_scheme option"

datatype tvec = Tasklet_vec | Tasklet_hi_vec

abbreviation (input) HI_SOFTIRQ :: nat where "HI_SOFTIRQ \<equiv> 0"
abbreviation (input) TASKLET_SOFTIRQ :: nat where "TASKLET_SOFTIRQ \<equiv> 5"
abbreviation (input) TASKLET_STATE_SCHED :: nat where "TASKLET_STATE_SCHED \<equiv> 0"
abbreviation (input) TASKLET_STATE_RUN :: nat where "TASKLET_STATE_RUN \<equiv> 1"
abbreviation (input) SOFTIRQ_MASK :: u32 where "SOFTIRQ_MASK \<equiv> 0xFF00"

fun get_vec :: "tvec \<Rightarrow> ('k, 'z) fstate \<Rightarrow> tasklet_head" where
  "get_vec Tasklet_vec s = tasklet_vec s"
| "get_vec Tasklet_hi_vec s = tasklet_hi_vec s"

fun put_vec :: "tvec \<Rightarrow> addr \<Rightarrow> ('k, 'z) fstate \<Rightarrow> ('k, 'z) fstate" where
  "put_vec Tasklet_vec l s = s\<lparr>tasklet_vec := (tasklet_vec s)\<lparr>th_list := l\<rparr>\<rparr>"
| "put_vec Tasklet_hi_vec l s = s\<lparr>tasklet_hi_vec := (tasklet_hi_vec s)\<lparr>th_list := l\<rparr>\<rparr>"

fun vec_nr :: "tvec \<Rightarrow> nat" where
  "vec_nr Tasklet_vec = TASKLET_SOFTIRQ"
| "vec_nr Tasklet_hi_vec = HI_SOFTIRQ"

section \<open>Raising softirqs\<close>

definition open_softirq :: "nat \<Rightarrow> addr \<Rightarrow> addr \<Rightarrow> ('k, 'z) fstate \<Rightarrow> ('k, 'z) fstate option" where
  "open_softirq nr action data s =
     (if nr < 32 then Some (s\<lparr>softirq_vec := (softirq_vec s)(nr := \<lparr>sa_action = action, sa_data = data\<rparr>)\<rparr>)
      else None)"

definition raise_softirq_irqoff_cpu :: "('k, 'z) fkit \<Rightarrow> nat \<Rightarrow> ('k, 'z) fstate \<Rightarrow> ('k, 'z) fstate option" where
  "raise_softirq_irqoff_cpu K nr s = do {
     check_initvar (softirq_initialized s);
     let s = s\<lparr>softirq_pending := softirq_pending s OR push_bit nr 1\<rparr>;
     Some (kit_update (sem_up K (softirq_sem s)) s) }"

definition raise_softirq_irqoff :: "('k, 'z) fkit \<Rightarrow> nat \<Rightarrow> ('k, 'z) fstate \<Rightarrow> ('k, 'z) fstate option" where
  "raise_softirq_irqoff K nr s = raise_softirq_irqoff_cpu K nr s"

definition raise_softirq :: "('k, 'z) fkit \<Rightarrow> nat \<Rightarrow> ('k, 'z) fstate \<Rightarrow> ('k, 'z) fstate option" where
  "raise_softirq K nr s = do {
     let (flags, s) = local_irq_save s;
     s \<leftarrow> raise_softirq_irqoff K nr s;
     Some (local_irq_restore flags s) }"

definition dde_linux26_raise_softirq :: "('k, 'z) fkit \<Rightarrow> ('k, 'z) fstate \<Rightarrow> ('k, 'z) fstate" where
  "dde_linux26_raise_softirq K s = kit_update (sem_up K (softirq_sem s)) s"

section \<open>Tasklets\<close>

definition tasklet_init :: "addr \<Rightarrow> addr \<Rightarrow> u32 \<Rightarrow> ('k, 'z) fstate \<Rightarrow> ('k, 'z) fstate option" where
  "tasklet_init t func data s =
     (if tasklets s t = None then None
      else Some (s\<lparr>tasklets := (tasklets s)(t \<mapsto>
        \<lparr>tk_next = 0, tk_state = 0, tk_count = 0, tk_func = func, tk_data = data\<rparr>)\<rparr>))"

definition test_and_set_state :: "nat \<Rightarrow> addr \<Rightarrow> ('k, 'z) fstate \<Rightarrow> (bool \<times> ('k, 'z) fstate) option" where
  "test_and_set_state b t s = do {
     k \<leftarrow> tasklets s t;
     Some (bit (tk_state k) b, s\<lparr>tasklets := (tasklets s)(t \<mapsto> k\<lparr>tk_state := set_bit b (tk_state k)\<rparr>)\<rparr>) }"

definition test_and_clear_state :: "nat \<Rightarrow> addr \<Rightarrow> ('k, 'z) fstate \<Rightarrow> (bool \<times> ('k, 'z) fstate) option" where
  "test_and_clear_state b t s = do {
     k \<leftarrow> tasklets s t;
     Some (bit (tk_state k) b, s\<lparr>tasklets := (tasklets s)(t \<mapsto> k\<lparr>tk_state := unset_bit b (tk_state k)\<rparr>)\<rparr>) }"

definition tasklet_trylock :: "addr \<Rightarrow> ('k, 'z) fstate \<Rightarrow> (bool \<times> ('k, 'z) fstate) option" where
  "tasklet_trylock t s = map_option (\<lambda>(b, s). (\<not> b, s)) (test_and_set_state TASKLET_STATE_RUN t s)"

definition tasklet_unlock :: "addr \<Rightarrow> ('k, 'z) fstate \<Rightarrow> ('k, 'z) fstate option" where
  "tasklet_unlock t s = map_option snd (test_and_clear_state TASKLET_STATE_RUN t s)"

definition set_next :: "addr \<Rightarrow> addr \<Rightarrow> ('k, 'z) fstate \<Rightarrow> ('k, 'z) fstate option" where
  "set_next t n s = do {
     k \<leftarrow> tasklets s t;
     Some (s\<lparr>tasklets := (tasklets s)(t \<mapsto> k\<lparr>tk_next := n\<rparr>)\<rparr>) }"

definition tasklet_enqueue :: "('k, 'z) fkit \<Rightarrow> tvec \<Rightarrow> addr \<Rightarrow> ('k, 'z) fstate \<Rightarrow> ('k, 'z) fstate option" where
  "tasklet_enqueue K v t s = do {
     let s = kit_update (lock_lock K (th_lock (get_vec v s))) s;
     s \<leftarrow> set_next t (th_list (get_vec v s)) s;
     let s = put_vec v t s;
     Some (kit_update (lock_unlock K (th_lock (get_vec v s))) s) }"

text \<open>\<open>__tasklet_schedule\<close> and \<open>__tasklet_hi_schedule\<close>.\<close>

definition tasklet_schedule_vec :: "('k, 'z) fkit \<Rightarrow> tvec \<Rightarrow> addr \<Rightarrow> ('k, 'z) fstate \<Rightarrow> ('k, 'z) fstate option" where
  "tasklet_schedule_vec K v t s = do {
     check_initvar (softirq_initialized s);
     let (flags, s) = local_irq_save s;
     s \<leftarrow> tasklet_enqueue K v t s;
     s \<leftarrow> raise_softirq_irqoff_cpu K (vec_nr v) s;
     Some (local_irq_restore flags s) }"

definition tasklet_schedule :: "('k, 'z) fkit \<Rightarrow> addr \<Rightarrow> ('k, 'z) fstate \<Rightarrow> ('k, 'z) fstate option" where
  "tasklet_schedule K t s = do {
     (b, s) \<leftarrow> test_and_set_state TASKLET_STATE_SCHED t s;
     if \<not> b then tasklet_schedule_vec K Tasklet_vec t s else Some s }"

definition tasklet_hi_schedule :: "('k, 'z) fkit \<Rightarrow> addr \<Rightarrow> ('k, 'z) fstate \<Rightarrow> ('k, 'z) fstate option" where
  "tasklet_hi_schedule K t s = do {
     (b, s) \<leftarrow> test_and_set_state TASKLET_STATE_SCHED t s;
     if \<not> b then tasklet_schedule_vec K Tasklet_hi_vec t s else Some s }"

definition tasklet_disable_nosync :: "addr \<Rightarrow> ('k, 'z) fstate \<Rightarrow> ('k, 'z) fstate option" where
  "tasklet_disable_nosync t s = do {
     k \<leftarrow> tasklets s t;
     Some (s\<lparr>tasklets := (tasklets s)(t \<mapsto> k\<lparr>tk_count := tk_count k + 1\<rparr>)\<rparr>) }"

definition tasklet_enable :: "addr \<Rightarrow> ('k, 'z) fstate \<Rightarrow> ('k, 'z) fstate option" where
  "tasklet_enable t s = do {
     k \<leftarrow> tasklets s t;
     Some (s\<lparr>tasklets := (tasklets s)(t \<mapsto> k\<lparr>tk_count := tk_count k - 1\<rparr>)\<rparr>) }"

text \<open>
  \<open>tasklet_kill\<close> waits for other threads to run the tasklet; \<open>env\<close> is what they do to the state while
  the caller yields or spins.
\<close>

partial_function (option) tasklet_wait ::
  "('k, 'z) fkit \<Rightarrow> (('k, 'z) fstate \<Rightarrow> ('k, 'z) fstate) \<Rightarrow> addr \<Rightarrow> ('k, 'z) fstate \<Rightarrow> ('k, 'z) fstate option" where
  "tasklet_wait K env t s = do {
     s \<leftarrow> yield K s;
     let s = env s;
     k \<leftarrow> tasklets s t;
     if bit (tk_state k) TASKLET_STATE_SCHED then tasklet_wait K env t s else Some s }"

partial_function (option) tasklet_grab ::
  "('k, 'z) fkit \<Rightarrow> (('k, 'z) fstate \<Rightarrow> ('k, 'z) fstate) \<Rightarrow> addr \<Rightarrow> ('k, 'z) fstate \<Rightarrow> ('k, 'z) fstate option" where
  "tasklet_grab K env t s = do {
     (b, s) \<leftarrow> test_and_set_state TASKLET_STATE_SCHED t s;
     if b then do { s \<leftarrow> tasklet_wait K env t s; tasklet_grab K env t s } else Some s }"

partial_function (option) tasklet_unlock_wait ::
  "(('k, 'z) fstate \<Rightarrow> ('k, 'z) fstate) \<Rightarrow> addr \<Rightarrow> ('k, 'z) fstate \<Rightarrow> ('k, 'z) fstate option" where
  "tasklet_unlock_wait env t s = do {
     k \<leftarrow> tasklets s t;
     if bit (tk_state k) TASKLET_STATE_RUN then tasklet_unlock_wait env t (env s) else Some s }"

definition tasklet_kill ::
  "('k, 'z) fkit \<Rightarrow> (('k, 'z) fstate \<Rightarrow> ('k, 'z) fstate) \<Rightarrow> addr \<Rightarrow> ('k, 'z) fstate \<Rightarrow> ('k, 'z) fstate option" where
  "tasklet_kill K env t s = do {
     s \<leftarrow> tasklet_grab K env t s;
     s \<leftarrow> tasklet_unlock_wait env t s;
     map_option snd (test_and_clear_state TASKLET_STATE_SCHED t s) }"

definition tasklet_disable :: "(('k, 'z) fstate \<Rightarrow> ('k, 'z) fstate) \<Rightarrow> addr \<Rightarrow> ('k, 'z) fstate \<Rightarrow> ('k, 'z) fstate option" where
  "tasklet_disable env t s = do {
     s \<leftarrow> tasklet_disable_nosync t s;
     tasklet_unlock_wait env t s }"

section \<open>Running tasklets and softirqs\<close>

definition tasklet_requeue :: "('k, 'z) fkit \<Rightarrow> tvec \<Rightarrow> addr \<Rightarrow> ('k, 'z) fstate \<Rightarrow> ('k, 'z) fstate option" where
  "tasklet_requeue K v t s = do {
     let s = kit_update (lock_lock K (th_lock (get_vec v s))) s;
     s \<leftarrow> set_next t (th_list (get_vec v s)) s;
     let s = put_vec v t s;
     s \<leftarrow> raise_softirq_irqoff_cpu K (vec_nr v) s;
     Some (kit_update (lock_unlock K (th_lock (get_vec v s))) s) }"

text \<open>The body of the loop of \<open>tasklet_action\<close> for the tasklet \<open>t\<close> taken from the list.\<close>

definition tasklet_step ::
  "('k, 'z) fkit \<Rightarrow> ('k, 'z) tfn \<Rightarrow> tvec \<Rightarrow> addr \<Rightarrow> ('k, 'z) fstate \<Rightarrow> ('k, 'z) fstate option" where
  "tasklet_step K tfn v t s = do {
     (locked, s) \<leftarrow> tasklet_trylock t s;
     k \<leftarrow> tasklets s t;
     if locked \<and> tk_count k = 0 then do {
       (sched, s) \<leftarrow> test_and_clear_state TASKLET_STATE_SCHED t s;
       if \<not> sched then None
       else do {
         s \<leftarrow> tfn (tk_func k) (tk_data k) s;
         tasklet_unlock t s } }
     else do {
       s \<leftarrow> (if locked then tasklet_unlock t s else Some s);
       tasklet_requeue K v t s } }"

partial_function (option) tasklet_loop ::
  "('k, 'z) fkit \<Rightarrow> ('k, 'z) tfn \<Rightarrow> tvec \<Rightarrow> addr \<Rightarrow> ('k, 'z) fstate \<Rightarrow> ('k, 'z) fstate option" where
  "tasklet_loop K tfn v list s =
     (if list = 0 then Some s
      else do {
        k \<leftarrow> tasklets s list;
        s \<leftarrow> tasklet_step K tfn v list s;
        tasklet_loop K tfn v (tk_next k) s })"

text \<open>\<open>tasklet_action\<close> and \<open>tasklet_hi_action\<close>.\<close>

definition tasklet_action ::
  "('k, 'z) fkit \<Rightarrow> ('k, 'z) tfn \<Rightarrow> tvec \<Rightarrow> ('k, 'z) fstate \<Rightarrow> ('k, 'z) fstate option" where
  "tasklet_action K tfn v s = do {
     let s = kit_update (lock_lock K (th_lock (get_vec v s))) s;
     let list = th_list (get_vec v s);
     let s = put_vec v 0 s;
     let s = kit_update (lock_unlock K (th_lock (get_vec v s))) s;
     tasklet_loop K tfn v list s }"

text \<open>The indirect call \<open>h->action(h)\<close>; a null action faults.\<close>

definition call_action ::
  "('k, 'z) fkit \<Rightarrow> ('k, 'z) tfn \<Rightarrow> ('k, 'z) act \<Rightarrow> nat \<Rightarrow> ('k, 'z) fstate \<Rightarrow> ('k, 'z) fstate option" where
  "call_action K tfn act h s =
     (let a = sa_action (softirq_vec s h) in
      if a = 0 then None
      else if a = symbol K ''tasklet_action'' then tasklet_action K tfn Tasklet_vec s
      else if a = symbol K ''tasklet_hi_action'' then tasklet_action K tfn Tasklet_hi_vec s
      else act a h s)"

function softirq_dispatch ::
  "('k, 'z) fkit \<Rightarrow> ('k, 'z) tfn \<Rightarrow> ('k, 'z) act \<Rightarrow> nat \<Rightarrow> u32 \<Rightarrow> ('k, 'z) fstate \<Rightarrow> ('k, 'z) fstate option" where
  "softirq_dispatch K tfn act h pending s =
     (if pending = 0 then Some s
      else do {
        s \<leftarrow> (if pending AND 1 \<noteq> 0 then call_action K tfn act h s else Some s);
        softirq_dispatch K tfn act (Suc h) (drop_bit 1 pending) s })"
  by pat_completeness auto
termination
proof (relation "measure (\<lambda>(K, tfn, act, h, pending, s). unat pending)", goal_cases)
  case (2 K tfn act h pending s s')
  then have "0 < unat pending" by (simp add: unat_gt_0)
  then show ?case by (simp add: drop_bit_Suc unat_div)
qed simp

declare softirq_dispatch.simps [simp del]

primrec do_softirq_rounds ::
  "('k, 'z) fkit \<Rightarrow> ('k, 'z) tfn \<Rightarrow> ('k, 'z) act \<Rightarrow> nat \<Rightarrow> ('k, 'z) fstate \<Rightarrow> ('k, 'z) fstate option" where
  "do_softirq_rounds K tfn act 0 s = Some s"
| "do_softirq_rounds K tfn act (Suc retries) s = do {
     let pending = softirq_pending s;
     let s = s\<lparr>softirq_pending := 0\<rparr>;
     s \<leftarrow> softirq_dispatch K tfn act 0 pending s;
     if softirq_pending s \<noteq> 0 then do_softirq_rounds K tfn act retries s else Some s }"

definition do_softirq_inner ::
  "('k, 'z) fkit \<Rightarrow> ('k, 'z) tfn \<Rightarrow> ('k, 'z) act \<Rightarrow> ('k, 'z) fstate \<Rightarrow> ('k, 'z) fstate option" where
  "do_softirq_inner K tfn act s = do_softirq_rounds K tfn act 10 s"

definition do_softirq ::
  "('k, 'z) fkit \<Rightarrow> ('k, 'z) tfn \<Rightarrow> ('k, 'z) act \<Rightarrow> ('k, 'z) fstate \<Rightarrow> ('k, 'z) fstate option" where
  "do_softirq K tfn act s = do {
     let (flags, s) = local_irq_save s;
     s \<leftarrow> (if softirq_pending s \<noteq> 0 then do_softirq_inner K tfn act s else Some s);
     Some (local_irq_restore flags s) }"

text \<open>The softirq thread: its prologue and one round of its endless loop.\<close>

definition softirq_thread_start :: "('k, 'z) fkit \<Rightarrow> ('k, 'z) fstate \<Rightarrow> ('k, 'z) fstate option" where
  "softirq_thread_start K s = do {
     s \<leftarrow> dde_linux26_process_add_worker K ''unused'' s;
     td \<leftarrow> thread_datas s (current_thread_info K s);
     set_preempt_count (current_thread_info K s) (ti_preempt_count (td_thread_info td) OR SOFTIRQ_MASK) s }"

definition softirq_thread_round ::
  "('k, 'z) fkit \<Rightarrow> ('k, 'z) tfn \<Rightarrow> ('k, 'z) act \<Rightarrow> ('k, 'z) fstate \<Rightarrow> ('k, 'z) fstate option" where
  "softirq_thread_round K tfn act s = do_softirq K tfn act (kit_update (sem_down K (softirq_sem s)) s)"

definition dde_linux26_softirq_init :: "('k, 'z) fkit \<Rightarrow> ('k, 'z) fstate \<Rightarrow> ('k, 'z) fstate option" where
  "dde_linux26_softirq_init K s = do {
     let (sem, s) = kcall (sem_init K 0) s;
     let s = s\<lparr>softirq_sem := sem, softirq_pending := 0\<rparr>;
     let (l, s) = kcall (lock_init K) s;
     let s = s\<lparr>tasklet_vec := (tasklet_vec s)\<lparr>th_lock := l\<rparr>\<rparr>;
     let (l, s) = kcall (lock_init K) s;
     let s = s\<lparr>tasklet_hi_vec := (tasklet_hi_vec s)\<lparr>th_lock := l\<rparr>\<rparr>;
     let (t, s) = kcall (thread_create K (symbol K ''dde_linux26_softirq_thread'') 0 ''.softirqd'') s;
     s \<leftarrow> open_softirq TASKLET_SOFTIRQ (symbol K ''tasklet_action'') 0 s;
     s \<leftarrow> open_softirq HI_SOFTIRQ (symbol K ''tasklet_hi_action'') 0 s;
     Some (s\<lparr>softirq_initialized := True\<rparr>) }"

section \<open>Lemmas\<close>

text \<open>The list of tasklets that a chain of \<open>next\<close> pointers stands for.\<close>

definition chain :: "(addr \<rightharpoonup> tasklet_struct) \<Rightarrow> addr \<Rightarrow> addr list \<Rightarrow> bool" where
  "chain T p xs = linked (\<lambda>x. map_option tk_next (T x)) p xs"

lemma chain_simps [simp]:
  "chain T p [] \<longleftrightarrow> p = 0"
  "chain T p (x # xs) \<longleftrightarrow> p = x \<and> x \<noteq> 0 \<and> (case T x of None \<Rightarrow> False | Some k \<Rightarrow> chain T (tk_next k) xs)"
  by (auto simp: chain_def split: option.splits)

definition ready :: "(addr \<rightharpoonup> tasklet_struct) \<Rightarrow> addr \<Rightarrow> bool" where
  "ready T x \<longleftrightarrow> (case T x of None \<Rightarrow> False
     | Some k \<Rightarrow> bit (tk_state k) TASKLET_STATE_SCHED \<and> \<not> bit (tk_state k) TASKLET_STATE_RUN)"

definition enabled :: "(addr \<rightharpoonup> tasklet_struct) \<Rightarrow> addr \<Rightarrow> bool" where
  "enabled T x \<longleftrightarrow> map_option tk_count (T x) = Some 0"

definition idle :: "(addr \<rightharpoonup> tasklet_struct) \<Rightarrow> addr \<Rightarrow> bool" where
  "idle T x \<longleftrightarrow> (case T x of None \<Rightarrow> False
     | Some k \<Rightarrow> \<not> bit (tk_state k) TASKLET_STATE_SCHED \<and> \<not> bit (tk_state k) TASKLET_STATE_RUN)"

lemma chain_upd: "t \<notin> set xs \<Longrightarrow> chain (T(t \<mapsto> k)) p xs = chain T p xs"
  unfolding chain_def by (rule linked_cong) auto

lemma vec_simps [simp]:
  "get_vec v (put_vec v l s) = (get_vec v s)\<lparr>th_list := l\<rparr>" "tasklets (put_vec v l s) = tasklets s"
  "softirq_initialized (put_vec v l s) = softirq_initialized s" "softirq_pending (put_vec v l s) = softirq_pending s"
  "soft_state.more (put_vec v l s) = soft_state.more s" "kit (put_vec v l s) = kit s"
  "get_vec v (s\<lparr>tasklets := T\<rparr>) = get_vec v s" "get_vec v (kit_update f s) = get_vec v s"
  "get_vec v (s\<lparr>softirq_pending := p\<rparr>) = get_vec v s" "get_vec v (s\<lparr>refcnt := r\<rparr>) = get_vec v s"
  "get_vec v (soft_state.more_update g s) = get_vec v s" "refcnt (put_vec v l s) = refcnt s"
  "softirq_vec (put_vec v l s) = softirq_vec s" "vec_nr v < 32"
  by (cases v; simp)+

lemma run_bits:
  "\<not> bit st (Suc 0) \<Longrightarrow> unset_bit (Suc 0) (set_bit (Suc 0) st) = (st :: u32)"
  "\<not> bit st (Suc 0) \<Longrightarrow> unset_bit (Suc 0) (unset_bit 0 (set_bit (Suc 0) st)) = unset_bit 0 (st :: u32)"
  by (rule bit_word_eqI; auto simp: bit_simps)+

text \<open>Tasklet functions that leave the softirq machinery alone and work on the driver's own state.\<close>

definition local_tfn :: "('k, 'z) tfn \<Rightarrow> (addr \<Rightarrow> u32 \<Rightarrow> 'z \<Rightarrow> 'z) \<Rightarrow> bool" where
  "local_tfn tfn g \<longleftrightarrow> (\<forall>f d s. tfn f d s = Some (soft_state.more_update (g f d) s))"

lemma step_enabled:
  assumes "local_tfn tfn g" and "tasklets s t = Some k" and "ready (tasklets s) t" and "tk_count k = 0"
  shows "tasklet_step K tfn v t s =
    Some (soft_state.more_update (g (tk_func k) (tk_data k))
      (s\<lparr>tasklets := (tasklets s)(t \<mapsto> k\<lparr>tk_state := unset_bit 0 (tk_state k)\<rparr>)\<rparr>))"
  using assms
  by (auto simp: tasklet_step_def tasklet_trylock_def tasklet_unlock_def test_and_set_state_def ready_def
      test_and_clear_state_def local_tfn_def run_bits bit_simps)

lemma step_disabled:
  assumes "tasklets s t = Some k" and "ready (tasklets s) t" and "tk_count k \<noteq> 0" and "softirq_initialized s"
  shows "\<exists>s'. tasklet_step K tfn v t s = Some s' \<and>
    tasklets s' = (tasklets s)(t \<mapsto> k\<lparr>tk_next := th_list (get_vec v s)\<rparr>) \<and>
    th_list (get_vec v s') = t \<and> softirq_pending s' = softirq_pending s OR push_bit (vec_nr v) 1 \<and>
    softirq_initialized s' \<and> soft_state.more s' = soft_state.more s \<and> softirq_vec s' = softirq_vec s \<and>
    refcnt s' = refcnt s"
proof -
  have "tk_count (k\<lparr>tk_state := x\<rparr>) = tk_count k" "k\<lparr>tk_state := tk_state k, tk_next := n\<rparr> = k\<lparr>tk_next := n\<rparr>" for x n
    by simp_all
  with assms show ?thesis
    by (auto simp: tasklet_step_def tasklet_trylock_def tasklet_unlock_def test_and_set_state_def ready_def
        test_and_clear_state_def run_bits bit_simps tasklet_requeue_def set_next_def raise_softirq_irqoff_cpu_def
        check_initvar_def Let_def)
qed

lemma ready_upd: "x \<noteq> t \<Longrightarrow> ready (T(t \<mapsto> k)) x = ready T x" by (simp add: ready_def)
lemma enabled_upd: "x \<noteq> t \<Longrightarrow> enabled (T(t \<mapsto> k)) x = enabled T x" by (simp add: enabled_def)

lemma if_cancel_pending: "(if b then p OR m else (p OR m) OR m) = p OR (m :: u32)"
  by (simp add: or.assoc)

text \<open>What one pass over the detached list \<open>xs\<close> does, with \<open>ys\<close> already requeued.\<close>

lemma tasklet_loop_run:
  assumes "local_tfn tfn g" and "chain (tasklets s) p xs" and "distinct xs" and "\<forall>x \<in> set xs. ready (tasklets s) x"
    and "chain (tasklets s) (th_list (get_vec v s)) ys" and "set xs \<inter> set ys = {}" and "softirq_initialized s"
  shows "\<exists>s'. tasklet_loop K tfn v p s = Some s' \<and>
    soft_state.more s' = fold (\<lambda>k. g (tk_func k) (tk_data k))
      (map (\<lambda>x. the (tasklets s x)) (filter (enabled (tasklets s)) xs)) (soft_state.more s) \<and>
    chain (tasklets s') (th_list (get_vec v s')) (rev (filter (\<lambda>x. \<not> enabled (tasklets s) x) xs) @ ys) \<and>
    (\<forall>x \<in> set xs. if enabled (tasklets s) x then idle (tasklets s') x else ready (tasklets s') x) \<and>
    (\<forall>x. x \<notin> set xs \<longrightarrow> tasklets s' x = tasklets s x) \<and>
    softirq_pending s' = (if \<forall>x \<in> set xs. enabled (tasklets s) x then softirq_pending s
      else softirq_pending s OR push_bit (vec_nr v) 1) \<and>
    softirq_initialized s' \<and> softirq_vec s' = softirq_vec s \<and> refcnt s' = refcnt s"
  using assms(2-)
proof (induction xs arbitrary: p s ys)
  case Nil
  then show ?case by (simp add: tasklet_loop.simps)
next
  case (Cons x xs)
  let ?T = "tasklets s"
  obtain k where k: "?T x = Some k" "p = x" "x \<noteq> 0" "chain ?T (tk_next k) xs"
    using Cons.prems(1) by (auto split: option.splits)
  have xn: "x \<notin> set xs" "x \<notin> set ys" "distinct xs" "set xs \<inter> set ys = {}" using Cons.prems(2,5) by auto
  have rd: "ready ?T x" using Cons.prems(3) by simp
  have en: "filter (enabled (?T(x \<mapsto> k'))) xs = filter (enabled ?T) xs" 
    "filter (\<lambda>y. \<not> enabled (?T(x \<mapsto> k')) y) xs = filter (\<lambda>y. \<not> enabled ?T y) xs"
    "(\<forall>y \<in> set xs. enabled (?T(x \<mapsto> k')) y) \<longleftrightarrow> (\<forall>y \<in> set xs. enabled ?T y)" for k'
    using xn(1) by (auto intro!: filter_cong simp: enabled_upd) (metis enabled_upd)+
  have mp: "map (\<lambda>y. the ((?T(x \<mapsto> k')) y)) (filter P xs) = map (\<lambda>y. the (?T y)) (filter P xs)" for k' P
    using xn(1) by auto
  show ?case
  proof (cases "tk_count k = 0")
    case True
    let ?k = "k\<lparr>tk_state := unset_bit 0 (tk_state k)\<rparr>"
    obtain s1 where st: "tasklet_step K tfn v x s = Some s1" and T: "tasklets s1 = ?T(x \<mapsto> ?k)"
      and s1: "get_vec v s1 = get_vec v s" "softirq_pending s1 = softirq_pending s" "softirq_initialized s1"
        "soft_state.more s1 = g (tk_func k) (tk_data k) (soft_state.more s)" "softirq_vec s1 = softirq_vec s"
        "refcnt s1 = refcnt s"
      using step_enabled [OF assms(1) k(1) rd True] Cons.prems(6) by (simp del: fun_upd_apply)
    have en0: "enabled ?T x" using True k(1) by (simp add: enabled_def)
    have "chain (tasklets s1) (tk_next k) xs" "chain (tasklets s1) (th_list (get_vec v s1)) ys"
      "\<forall>y \<in> set xs. ready (tasklets s1) y"
      using k(4) Cons.prems(3,4) xn by (auto simp: chain_upd T s1) (metis ready_upd)
    from Cons.IH [OF this(1) xn(3) this(3,2) xn(4) s1(3)] obtain s' where
      s': "tasklet_loop K tfn v (tk_next k) s1 = Some s'" and
      r: "soft_state.more s' = fold (\<lambda>k. g (tk_func k) (tk_data k))
        (map (\<lambda>x. the (?T x)) (filter (enabled ?T) xs)) (g (tk_func k) (tk_data k) (soft_state.more s))"
      "chain (tasklets s') (th_list (get_vec v s')) (rev (filter (\<lambda>x. \<not> enabled ?T x) xs) @ ys)"
      "\<forall>y \<in> set xs. if enabled (?T(x \<mapsto> ?k)) y then idle (tasklets s') y else ready (tasklets s') y"
      "\<forall>y. y \<notin> set xs \<longrightarrow> tasklets s' y = (?T(x \<mapsto> ?k)) y"
      "softirq_pending s' = (if \<forall>x \<in> set xs. enabled ?T x then softirq_pending s
        else softirq_pending s OR push_bit (vec_nr v) 1)"
      "softirq_initialized s'" "softirq_vec s' = softirq_vec s" "refcnt s' = refcnt s"
      unfolding T s1 en mp by blast
    have "idle (tasklets s') x"
      using r(4) xn(1) rd k(1) by (auto simp: idle_def ready_def bit_simps)
    moreover have "tasklet_loop K tfn v p s = Some s'"
      using st s' k by (simp add: tasklet_loop.simps [of K tfn v x s])
    moreover have "\<forall>y \<in> set xs. enabled (?T(x \<mapsto> ?k)) y = enabled ?T y" using xn(1) enabled_upd by metis
    ultimately show ?thesis using r en0 k(1) xn(1) by auto
  next
    case False
    let ?k = "k\<lparr>tk_next := th_list (get_vec v s)\<rparr>"
    obtain s1 where st: "tasklet_step K tfn v x s = Some s1" and T: "tasklets s1 = ?T(x \<mapsto> ?k)"
      and s1: "th_list (get_vec v s1) = x" "softirq_pending s1 = softirq_pending s OR push_bit (vec_nr v) 1"
        "softirq_initialized s1" "soft_state.more s1 = soft_state.more s" "softirq_vec s1 = softirq_vec s" "refcnt s1 = refcnt s"
      using step_disabled [OF k(1) rd False Cons.prems(6)] by blast
    have en0: "\<not> enabled ?T x" using False k(1) by (simp add: enabled_def)
    have "chain (tasklets s1) (tk_next k) xs" "chain (tasklets s1) (th_list (get_vec v s1)) (x # ys)"
      "\<forall>y \<in> set xs. ready (tasklets s1) y"
      using k(3,4) Cons.prems(3,4) xn by (auto simp: chain_upd T s1) (metis ready_upd)
    moreover have "set xs \<inter> set (x # ys) = {}" using xn by auto
    ultimately obtain s' where
      s': "tasklet_loop K tfn v (tk_next k) s1 = Some s'" and
      r: "soft_state.more s' = fold (\<lambda>k. g (tk_func k) (tk_data k))
        (map (\<lambda>x. the (?T x)) (filter (enabled ?T) xs)) (soft_state.more s)"
      "chain (tasklets s') (th_list (get_vec v s')) (rev (filter (\<lambda>x. \<not> enabled ?T x) xs) @ x # ys)"
      "\<forall>y \<in> set xs. if enabled (?T(x \<mapsto> ?k)) y then idle (tasklets s') y else ready (tasklets s') y"
      "\<forall>y. y \<notin> set xs \<longrightarrow> tasklets s' y = (?T(x \<mapsto> ?k)) y"
      "softirq_pending s' = softirq_pending s OR push_bit (vec_nr v) 1"
      "softirq_initialized s'" "softirq_vec s' = softirq_vec s" "refcnt s' = refcnt s"
      using Cons.IH [of s1 "tk_next k" "x # ys"] xn(3) s1(3) unfolding T s1 en mp if_cancel_pending by blast
    have "ready (tasklets s') x" using r(4) xn(1) rd k(1) by (auto simp: ready_def)
    moreover have "tasklet_loop K tfn v p s = Some s'"
      using st s' k by (simp add: tasklet_loop.simps [of K tfn v x s])
    moreover have "\<forall>y \<in> set xs. enabled (?T(x \<mapsto> ?k)) y = enabled ?T y" using xn(1) enabled_upd by metis
    ultimately show ?thesis using r en0 k(1) xn(1) by auto
  qed
qed

lemma tasklet_action_run:
  assumes "local_tfn tfn g" and "chain (tasklets s) (th_list (get_vec v s)) xs" and "distinct xs"
    and "\<forall>x \<in> set xs. ready (tasklets s) x" and "softirq_initialized s"
  shows "\<exists>s'. tasklet_action K tfn v s = Some s' \<and>
    soft_state.more s' = fold (\<lambda>k. g (tk_func k) (tk_data k))
      (map (\<lambda>x. the (tasklets s x)) (filter (enabled (tasklets s)) xs)) (soft_state.more s) \<and>
    chain (tasklets s') (th_list (get_vec v s')) (rev (filter (\<lambda>x. \<not> enabled (tasklets s) x) xs)) \<and>
    (\<forall>x \<in> set xs. if enabled (tasklets s) x then idle (tasklets s') x else ready (tasklets s') x) \<and>
    (\<forall>x. x \<notin> set xs \<longrightarrow> tasklets s' x = tasklets s x) \<and>
    softirq_pending s' = (if \<forall>x \<in> set xs. enabled (tasklets s) x then softirq_pending s
      else softirq_pending s OR push_bit (vec_nr v) 1) \<and>
    softirq_initialized s' \<and> softirq_vec s' = softirq_vec s \<and> refcnt s' = refcnt s"
proof -
  let ?k = "lock_unlock K (th_lock (get_vec v s)) (lock_lock K (th_lock (get_vec v s)) (kit s))"
  let ?s = "kit_update (\<lambda>_. ?k) (put_vec v 0 s)"
  have a: "tasklet_action K tfn v s = tasklet_loop K tfn v (th_list (get_vec v s)) ?s"
    by (cases s; cases v; simp add: tasklet_action_def)
  have t: "tasklets ?s = tasklets s" "th_list (get_vec v ?s) = 0" "softirq_pending ?s = softirq_pending s"
    "softirq_initialized ?s = softirq_initialized s" "softirq_vec ?s = softirq_vec s" "refcnt ?s = refcnt s"
    "soft_state.more ?s = soft_state.more s" by simp_all
  have c: "chain (tasklets ?s) (th_list (get_vec v ?s)) []" "set xs \<inter> set [] = {}" by simp_all
  show ?thesis
    using tasklet_loop_run [OF assms(1) _ assms(3) _ c, of "th_list (get_vec v s)" K] assms(2,4,5)
    unfolding a t append_Nil2 by blast
qed

lemma tasklet_schedule_result:
  assumes "idle (tasklets s) t" and "t \<noteq> 0" and "chain (tasklets s) (th_list (tasklet_vec s)) xs" and "t \<notin> set xs"
    and "softirq_initialized s" and "refcnt s = 0"
  shows "\<exists>s' k. tasklet_schedule K t s = Some s' \<and> tasklets s t = Some k \<and>
    tasklets s' = (tasklets s)(t \<mapsto> k\<lparr>tk_state := set_bit 0 (tk_state k), tk_next := th_list (tasklet_vec s)\<rparr>) \<and>
    chain (tasklets s') (th_list (tasklet_vec s')) (t # xs) \<and> ready (tasklets s') t \<and>
    softirq_pending s' = softirq_pending s OR 0x20 \<and> softirq_initialized s' \<and> refcnt s' = 0 \<and>
    softirq_vec s' = softirq_vec s \<and> soft_state.more s' = soft_state.more s \<and> tasklet_schedule K t s' = Some s'"
proof -
  obtain k where k: "tasklets s t = Some k" "\<not> bit (tk_state k) 0" "\<not> bit (tk_state k) (Suc 0)"
    using assms(1) by (auto simp: idle_def split: option.splits)
  let ?k = "k\<lparr>tk_state := set_bit 0 (tk_state k), tk_next := th_list (tasklet_vec s)\<rparr>"
  obtain s' where s': "tasklet_schedule K t s = Some s'" "tasklets s' = (tasklets s)(t \<mapsto> ?k)"
      "th_list (tasklet_vec s') = t" "softirq_pending s' = softirq_pending s OR 0x20" "softirq_initialized s'"
      "refcnt s' = 0" "softirq_vec s' = softirq_vec s" "soft_state.more s' = soft_state.more s"
    using assms(5,6) k
    by (simp add: tasklet_schedule_def test_and_set_state_def tasklet_schedule_vec_def check_initvar_def
        local_irq_save_result tasklet_enqueue_def set_next_def raise_softirq_irqoff_cpu_def
        local_irq_restore_result raw_irqs_disabled_def raw_irqs_disabled_flags_def raw_local_save_flags_def Let_def
        push_bit_eq_mult)
  have "set_bit 0 (set_bit 0 (tk_state k)) = set_bit 0 (tk_state k)"
    by (rule bit_word_eqI) (auto simp: bit_simps)
  then have "tasklet_schedule K t s' = Some s'"
    using s'(2) by (cases s') (auto simp: tasklet_schedule_def test_and_set_state_def bit_simps)
  moreover have "ready (tasklets s') t" using k by (simp add: s' ready_def bit_simps)
  moreover have "chain (tasklets s') (th_list (tasklet_vec s')) (t # xs)"
    using assms(2,3,4) by (simp add: s' chain_upd)
  ultimately show ?thesis using s' k(1) by blast
qed

text \<open>Scheduling several tasklets one after the other.\<close>

primrec tasklet_schedule_all :: "('k, 'z) fkit \<Rightarrow> addr list \<Rightarrow> ('k, 'z) fstate \<Rightarrow> ('k, 'z) fstate option" where
  "tasklet_schedule_all K [] s = Some s"
| "tasklet_schedule_all K (t # ts) s = do { s \<leftarrow> tasklet_schedule K t s; tasklet_schedule_all K ts s }"

lemma tasklet_schedule_all_result:
  assumes "chain (tasklets s) (th_list (tasklet_vec s)) xs" and "distinct ts" and "set ts \<inter> set xs = {}"
    and "\<forall>t \<in> set ts. idle (tasklets s) t \<and> t \<noteq> 0" and "softirq_initialized s" and "refcnt s = 0"
  shows "\<exists>s'. tasklet_schedule_all K ts s = Some s' \<and>
    chain (tasklets s') (th_list (tasklet_vec s')) (rev ts @ xs) \<and>
    (\<forall>t \<in> set ts. ready (tasklets s') t) \<and> (\<forall>t. t \<notin> set ts \<longrightarrow> tasklets s' t = tasklets s t) \<and>
    (\<forall>t. map_option (\<lambda>k. (tk_func k, tk_data k, tk_count k)) (tasklets s' t) =
         map_option (\<lambda>k. (tk_func k, tk_data k, tk_count k)) (tasklets s t)) \<and>
    softirq_pending s' = (if ts = [] then softirq_pending s else softirq_pending s OR 0x20) \<and>
    softirq_initialized s' \<and> refcnt s' = 0 \<and>
    softirq_vec s' = softirq_vec s \<and> soft_state.more s' = soft_state.more s"
  using assms
proof (induction ts arbitrary: s xs)
  case Nil
  then show ?case by simp
next
  case (Cons t ts)
  have t: "idle (tasklets s) t" "t \<noteq> 0" "t \<notin> set xs" "t \<notin> set ts" using Cons.prems by auto
  from tasklet_schedule_result [OF t(1,2) Cons.prems(1) t(3) Cons.prems(5,6)] obtain s1 k where
    s1: "tasklet_schedule K t s = Some s1" "tasklets s t = Some k"
    "tasklets s1 = (tasklets s)(t \<mapsto> k\<lparr>tk_state := set_bit 0 (tk_state k), tk_next := th_list (tasklet_vec s)\<rparr>)"
    "chain (tasklets s1) (th_list (tasklet_vec s1)) (t # xs)" "ready (tasklets s1) t"
    "softirq_pending s1 = softirq_pending s OR 0x20" "softirq_initialized s1" "refcnt s1 = 0"
    "softirq_vec s1 = softirq_vec s" "soft_state.more s1 = soft_state.more s" by blast
  have "idle (tasklets s1) u \<and> u \<noteq> 0" if "u \<in> set ts" for u
    using that t(4) Cons.prems(4) by (auto simp: s1(3) idle_def)
  moreover have "set ts \<inter> set (t # xs) = {}" "distinct ts" using Cons.prems(2,3) by auto
  ultimately obtain s' where s': "tasklet_schedule_all K ts s1 = Some s'"
    "chain (tasklets s') (th_list (tasklet_vec s')) (rev ts @ t # xs)"
    "\<forall>t \<in> set ts. ready (tasklets s') t" "\<forall>t. t \<notin> set ts \<longrightarrow> tasklets s' t = tasklets s1 t"
    "\<forall>t. map_option (\<lambda>k. (tk_func k, tk_data k, tk_count k)) (tasklets s' t) =
         map_option (\<lambda>k. (tk_func k, tk_data k, tk_count k)) (tasklets s1 t)"
    "softirq_pending s' = (if ts = [] then softirq_pending s1 else softirq_pending s1 OR 0x20)"
    "softirq_initialized s'" "refcnt s' = 0" "softirq_vec s' = softirq_vec s1" "soft_state.more s' = soft_state.more s1"
    using Cons.IH [OF s1(4)] s1(7,8) by blast
  have "ready (tasklets s') t" using s'(4) t(4) s1(5) by (simp add: ready_def)
  then show ?case
    using s1(1,2,6,9,10) s' by (auto simp: s1(3) or.assoc)
qed

lemma dispatch_tasklet: "softirq_dispatch K tfn act 0 0x20 s = call_action K tfn act 5 s"
proof -
  have even: "softirq_dispatch K tfn act h p s = softirq_dispatch K tfn act (Suc h) (drop_bit 1 p) s"
    if "p \<noteq> 0" "p AND 1 = 0" for h p
    using that by (subst softirq_dispatch.simps) simp
  have "softirq_dispatch K tfn act 0 0x20 s = softirq_dispatch K tfn act (Suc (Suc (Suc (Suc (Suc 0))))) 1 s"
    using even [of "0x20" 0] even [of "0x10" "Suc 0"] even [of 8 "Suc (Suc 0)"] even [of 4 "Suc (Suc (Suc 0))"]
      even [of 2 "Suc (Suc (Suc (Suc 0)))"] by simp
  also have "\<dots> = call_action K tfn act 5 s"
  proof -
    have "softirq_dispatch K tfn act h 0 = Some" for h by (rule ext) (simp add: softirq_dispatch.simps)
    then show ?thesis by (subst softirq_dispatch.simps) (simp add: eval_nat_numeral)
  qed
  finally show ?thesis .
qed

section \<open>Properties\<close>

text \<open>
  A concrete system with two idle tasklets; the driver's own state is the list of the data values
  its tasklet functions were called with.
\<close>

definition soft_example :: "(sim, u32 list) fstate" where
  "soft_example = \<lparr>kit = sim_init, mem = (\<lambda>_. 0), caches = Map.empty, malloc_sizes = malloc_sizes_boot,
     thread_datas = Map.empty, tasks = Map.empty, kthread_datas = Map.empty, pid_task_list = [],
     pid_task_list_lock = 3, kthread_count = 0, refcnt = 0, timer_initialized = True, softirq_initialized = True,
     softirq_sem = 4, softirq_pending = 0,
     softirq_vec = (\<lambda>_. \<lparr>sa_action = 0, sa_data = 0\<rparr>)(5 := \<lparr>sa_action = 14, sa_data = 0\<rparr>),
     tasklets = [0x30 \<mapsto> \<lparr>tk_next = 0, tk_state = 0, tk_count = 0, tk_func = 7, tk_data = 1\<rparr>,
       0x50 \<mapsto> \<lparr>tk_next = 0, tk_state = 0, tk_count = 0, tk_func = 7, tk_data = 2\<rparr>],
     tasklet_vec = \<lparr>th_list = 0, th_lock = 5\<rparr>, tasklet_hi_vec = \<lparr>th_list = 0, th_lock = 6\<rparr>, \<dots> = []\<rparr>"

definition soft_sim_tfn :: "(sim, u32 list) tfn" where
  "soft_sim_tfn f d s = Some (soft_state.more_update (\<lambda>l. l @ [d]) s)"

abbreviation soft_sim_kit :: "(sim, u32 list) fkit" where
  "soft_sim_kit \<equiv> sim_kit"

lemma soft_sim_local: "local_tfn soft_sim_tfn (\<lambda>f d l. l @ [d])"
  by (simp add: local_tfn_def soft_sim_tfn_def)





end
