(* ===== verification/Irq.thy ===== *)
theory Irq
  imports Softirq
begin

text \<open>
  Interrupt handling of \<open>arch/dde_kit/irq.c\<close>.  \<open>irqs\<close> and \<open>irqactions\<close> are the stores of
  \<open>dde_linux26_irq\<close> descriptors and Linux \<open>irqaction\<close> objects; \<open>used_irqs\<close> and the \<open>action\<close> member of
  a descriptor head singly linked lists through \<open>next\<close>.  \<open>hfn\<close> is the meaning of the handlers that
  drivers register.
\<close>

section \<open>State and operations\<close>

record dde_linux26_irq =
  di_irq :: u32
  di_count :: u32
  di_shared :: bool
  di_thread :: addr
  di_action :: addr
  di_next :: addr

record irqaction =
  ia_handler :: addr
  ia_flags :: u32
  ia_name :: addr
  ia_dev_id :: addr
  ia_next :: addr
  ia_irq :: u32

record 'k irq_state = "'k soft_state" +
  irqs :: "addr \<rightharpoonup> dde_linux26_irq"
  used_irqs :: addr
  irqactions :: "addr \<rightharpoonup> irqaction"

type_synonym ('k, 'z) istate = "('k, 'z) irq_state_scheme"
type_synonym ('k, 'z) ikit = "('k, ('k, 'z) irq_state_scheme) dde_kit"
type_synonym ('k, 'z) hfn =
  "addr \<Rightarrow> u32 \<Rightarrow> addr \<Rightarrow> ('k, 'z) irq_state_scheme \<Rightarrow> ('k, 'z) irq_state_scheme option"

abbreviation (input) SA_SHIRQ :: u32 where "SA_SHIRQ \<equiv> 0x80"

definition irq_thread_init :: "('k, 'z) ikit \<Rightarrow> ('k, 'z) istate \<Rightarrow> ('k, 'z) istate option" where
  "irq_thread_init K s = dde_linux26_process_add_worker K ''unused'' s"

partial_function (option) irq_action_loop ::
  "('k, 'z) hfn \<Rightarrow> addr \<Rightarrow> ('k, 'z) istate \<Rightarrow> ('k, 'z) istate option" where
  "irq_action_loop hfn action s =
     (if action = 0 then Some s
      else do {
        a \<leftarrow> irqactions s action;
        s \<leftarrow> hfn (ia_handler a) (ia_irq a) (ia_dev_id a) s;
        a \<leftarrow> irqactions s action;
        irq_action_loop hfn (ia_next a) s })"

definition irq_handler ::
  "('k, 'z) ikit \<Rightarrow> ('k, 'z) hfn \<Rightarrow> addr \<Rightarrow> ('k, 'z) istate \<Rightarrow> ('k, 'z) istate option" where
  "irq_handler K hfn irq s = do {
     d \<leftarrow> irqs s irq;
     s \<leftarrow> irq_action_loop hfn (di_action d) s;
     Some (if softirq_pending s \<noteq> 0 then dde_linux26_raise_softirq K s else s) }"

text \<open>The search of \<open>claim_irq\<close> for the descriptor of an interrupt; 0 when there is none.\<close>

partial_function (option) find_irq :: "(addr \<rightharpoonup> dde_linux26_irq) \<Rightarrow> u32 \<Rightarrow> addr \<Rightarrow> addr option" where
  "find_irq I nr p =
     (if p = 0 then Some 0
      else do {
        d \<leftarrow> I p;
        if di_irq d = nr then Some p else find_irq I nr (di_next d) })"

definition add_irq_action ::
  "addr \<Rightarrow> addr \<Rightarrow> bool \<Rightarrow> ('k, 'z) istate \<Rightarrow> (int \<times> ('k, 'z) istate) option" where
  "add_irq_action irq action shared s = do {
     d \<leftarrow> irqs s irq;
     a \<leftarrow> irqactions s action;
     if (\<not> di_shared d \<or> \<not> shared) \<and> di_action d \<noteq> 0 then Some (- EBUSY, s)
     else do {
       let s = s\<lparr>irqactions := (irqactions s)(action \<mapsto> a\<lparr>ia_next := di_action d\<rparr>)\<rparr>;
       let d = d\<lparr>di_count := di_count d + 1, di_action := action\<rparr>;
       let s = s\<lparr>irqs := (irqs s)(irq \<mapsto> d)\<rparr>;
       Some (sint (di_count d), s) } }"

definition claim_irq ::
  "('k, 'z) ikit \<Rightarrow> addr \<Rightarrow> ('k, 'z) istate \<Rightarrow> (int \<times> ('k, 'z) istate) option" where
  "claim_irq K action s = do {
     a \<leftarrow> irqactions s action;
     let shared = (ia_flags a AND SA_SHIRQ \<noteq> 0);
     irq \<leftarrow> find_irq (irqs s) (ia_irq a) (used_irqs s);
     if irq \<noteq> 0 then add_irq_action irq action shared s
     else do {
       let (irq, s) = kcall (simple_malloc K (sizeof K ''dde_linux26_irq'')) s;
       if irq = 0 then Some (- ENOMEM, s)
       else do {
         let s = s\<lparr>irqs := (irqs s)(irq \<mapsto> \<lparr>di_irq = ia_irq a, di_count = 0, di_shared = shared, di_thread = 0,
                            di_action = 0, di_next = used_irqs s\<rparr>),
                   used_irqs := irq\<rparr>;
         let (ret, s) = kcall (interrupt_attach K (ia_irq a) shared irq) s;
         if ret \<noteq> 0 then
           Some (- EBUSY, (kit_update (simple_free K irq) s)\<lparr>irqs := (irqs s)(irq := None)\<rparr>)
         else add_irq_action irq action shared s } } }"

definition release_irq :: "u32 \<Rightarrow> int" where
  "release_irq irq_num = - EPERM"

definition request_irq ::
  "('k, 'z) ikit \<Rightarrow> u32 \<Rightarrow> addr \<Rightarrow> u32 \<Rightarrow> addr \<Rightarrow> addr \<Rightarrow> ('k, 'z) istate \<Rightarrow> (int \<times> ('k, 'z) istate) option" where
  "request_irq K irq handler flags dev_name dev_id s =
     (if handler = 0 then Some (- EINVAL, s)
      else do {
        let (act, s) = kcall (simple_malloc K (sizeof K ''irqaction'')) s;
        if act = 0 then Some (- ENOMEM, s)
        else do {
          let s = s\<lparr>irqactions := (irqactions s)(act \<mapsto> \<lparr>ia_handler = handler, ia_flags = flags, ia_name = dev_name,
                      ia_dev_id = dev_id, ia_next = 0, ia_irq = irq\<rparr>)\<rparr>;
          (err, s) \<leftarrow> claim_irq K act s;
          if err < 0 then Some (err, s) else Some (0, s) } })"

definition free_irq :: "u32 \<Rightarrow> addr \<Rightarrow> ('k, 'z) istate \<Rightarrow> ('k, 'z) istate" where
  "free_irq irq dev_id s = s"

definition disable_irq :: "('k, 'z) ikit \<Rightarrow> u32 \<Rightarrow> ('k, 'z) istate \<Rightarrow> ('k, 'z) istate" where
  "disable_irq K irq s = kit_update (interrupt_disable K irq) s"

definition disable_irq_nosync :: "('k, 'z) ikit \<Rightarrow> u32 \<Rightarrow> ('k, 'z) istate \<Rightarrow> ('k, 'z) istate" where
  "disable_irq_nosync K irq s = kit_update (interrupt_disable K irq) s"

definition enable_irq :: "('k, 'z) ikit \<Rightarrow> u32 \<Rightarrow> ('k, 'z) istate \<Rightarrow> ('k, 'z) istate" where
  "enable_irq K irq s = kit_update (interrupt_enable K irq) s"

section \<open>Well-formed interrupt tables\<close>

text \<open>
  The list of used interrupts \<open>xs\<close> holds one descriptor per interrupt number; every descriptor heads
  a list of the actions registered for it.
\<close>

abbreviation irq_list :: "(addr \<rightharpoonup> dde_linux26_irq) \<Rightarrow> addr \<Rightarrow> addr list \<Rightarrow> bool" where
  "irq_list I \<equiv> linked (\<lambda>x. map_option di_next (I x))"

abbreviation action_list :: "(addr \<rightharpoonup> irqaction) \<Rightarrow> addr \<Rightarrow> addr list \<Rightarrow> bool" where
  "action_list A \<equiv> linked (\<lambda>x. map_option ia_next (A x))"

definition irq_numbers :: "(addr \<rightharpoonup> dde_linux26_irq) \<Rightarrow> addr list \<Rightarrow> u32 option list" where
  "irq_numbers I xs = map (\<lambda>x. map_option di_irq (I x)) xs"

definition irq_inv :: "('k, 'z) istate \<Rightarrow> addr list \<Rightarrow> (addr \<Rightarrow> addr list) \<Rightarrow> bool" where
  "irq_inv s xs acts \<longleftrightarrow> irq_list (irqs s) (used_irqs s) xs \<and> distinct (irq_numbers (irqs s) xs) \<and>
     (\<forall>x \<in> set xs. case irqs s x of None \<Rightarrow> False | Some d \<Rightarrow> action_list (irqactions s) (di_action d) (acts x))"

lemma find_irq_list:
  "irq_list I p xs \<Longrightarrow> find_irq I nr p = Some (case find (\<lambda>x. map_option di_irq (I x) = Some nr) xs of None \<Rightarrow> 0 | Some x \<Rightarrow> x)"
proof (induction xs arbitrary: p)
  case Nil
  then show ?case by (simp add: find_irq.simps)
next
  case (Cons x xs)
  then obtain d where d: "I x = Some d" "p = x" "x \<noteq> 0" "irq_list I (di_next d) xs"
    by (auto split: option.splits)
  with Cons.IH [OF d(4)] show ?case by (simp add: find_irq.simps [of I nr x])
qed

lemma irq_inv_distinct: "irq_inv s xs acts \<Longrightarrow> distinct xs"
  unfolding irq_inv_def irq_numbers_def by (auto simp: distinct_map)

text \<open>Handlers that leave the interrupt tables alone.\<close>

definition local_hfn :: "('k, 'z) hfn \<Rightarrow> bool" where
  "local_hfn hfn \<longleftrightarrow> (\<forall>h i d s. \<exists>s'. hfn h i d s = Some s' \<and> irqactions s' = irqactions s)"

primrec run_actions :: "('k, 'z) hfn \<Rightarrow> irqaction list \<Rightarrow> ('k, 'z) istate \<Rightarrow> ('k, 'z) istate option" where
  "run_actions hfn [] s = Some s"
| "run_actions hfn (a # as) s = do {
     s \<leftarrow> hfn (ia_handler a) (ia_irq a) (ia_dev_id a) s;
     run_actions hfn as s }"

lemma irq_action_loop_run:
  "action_list (irqactions s) p as \<Longrightarrow> local_hfn hfn \<Longrightarrow>
   irq_action_loop hfn p s = run_actions hfn (map (\<lambda>x. the (irqactions s x)) as) s"
proof (induction as arbitrary: p s)
  case Nil
  then show ?case by (simp add: irq_action_loop.simps)
next
  case (Cons x as)
  obtain a where a: "irqactions s x = Some a" "p = x" "x \<noteq> 0" "action_list (irqactions s) (ia_next a) as"
    using Cons.prems(1) by (auto split: option.splits)
  obtain s' where s': "hfn (ia_handler a) (ia_irq a) (ia_dev_id a) s = Some s'" "irqactions s' = irqactions s"
    using Cons.prems(2) unfolding local_hfn_def by blast
  have "irq_action_loop hfn (ia_next a) s' = run_actions hfn (map (\<lambda>x. the (irqactions s x)) as) s'"
    using Cons.IH [of s' "ia_next a"] a(4) s'(2) Cons.prems(2) by simp
  with a s' show ?case by (simp add: irq_action_loop.simps [of hfn x s])
qed

lemma run_actions_total:
  "local_hfn hfn \<Longrightarrow> \<exists>s'. run_actions hfn as s = Some s' \<and> irqactions s' = irqactions s"
proof (induction as arbitrary: s)
  case (Cons a as)
  obtain s' where "hfn (ia_handler a) (ia_irq a) (ia_dev_id a) s = Some s'" "irqactions s' = irqactions s"
    using Cons.prems unfolding local_hfn_def by blast
  with Cons.IH [OF Cons.prems, of s'] show ?case by auto
qed simp

lemma add_irq_action_result:
  assumes "irq_inv s xs acts" and "x \<in> set xs" and "irqs s x = Some d" and "irqactions s act = Some a" and "act \<noteq> 0"
    and "\<forall>y \<in> set xs. act \<notin> set (acts y)" and "add_irq_action x act shared s = Some (r, s')" and "- EBUSY \<noteq> r"
  shows "irq_inv s' xs (acts(x := act # acts x)) \<and> irqactions s' act = Some (a\<lparr>ia_next := di_action d\<rparr>) \<and>
    irqs s' = (irqs s)(x \<mapsto> d\<lparr>di_count := di_count d + 1, di_action := act\<rparr>) \<and> kit s' = kit s"
proof -
  have s': "s' = s\<lparr>irqactions := (irqactions s)(act \<mapsto> a\<lparr>ia_next := di_action d\<rparr>),
      irqs := (irqs s)(x \<mapsto> d\<lparr>di_count := di_count d + 1, di_action := act\<rparr>)\<rparr>"
    using assms(3,4,7,8) by (auto simp: add_irq_action_def Let_def split: if_splits)
  have nx: "(\<lambda>y. map_option di_next (irqs s' y)) = (\<lambda>y. map_option di_next (irqs s y))"
    "irq_numbers (irqs s') xs = irq_numbers (irqs s) xs"
    using assms(3) by (auto simp: s' irq_numbers_def)
  have keep: "action_list (irqactions s') p (acts y) = action_list (irqactions s) p (acts y)" if "y \<in> set xs" for p y
    using assms(6) that by (intro linked_cong) (auto simp: s')
  have "action_list (irqactions s) (di_action d) (acts x)"
    using assms(1-3) by (fastforce simp: irq_inv_def)
  with keep [OF assms(2)] assms(5) have "action_list (irqactions s') act (act # acts x)"
    by (simp add: s')
  then have "irq_inv s' xs (acts(x := act # acts x))"
    using assms(1,3) nx keep by (auto simp: irq_inv_def s' split: option.splits)
  then show ?thesis by (simp add: s')
qed

lemma irq_inv_push:
  assumes "irq_inv s xs acts" and "x \<noteq> 0" and "x \<notin> dom (irqs s)" and "di_next d = used_irqs s" and "di_action d = 0"
    and "Some (di_irq d) \<notin> set (irq_numbers (irqs s) xs)"
    and "irqs s' = (irqs s)(x \<mapsto> d)" and "used_irqs s' = x" and "irqactions s' = irqactions s"
  shows "irq_inv s' (x # xs) (acts(x := []))"
proof -
  have ix: "irqs s y \<noteq> None" if "y \<in> set xs" for y
    using assms(1) that by (auto simp: irq_inv_def split: option.splits)
  then have xn: "x \<notin> set xs" using assms(3) by auto
  have nx: "irq_list (irqs s') (used_irqs s) xs" "irq_numbers (irqs s') xs = irq_numbers (irqs s) xs"
  proof -
    have "irq_list (irqs s') (used_irqs s) xs = irq_list (irqs s) (used_irqs s) xs"
      using xn by (intro linked_cong) (auto simp: assms(7))
    then show "irq_list (irqs s') (used_irqs s) xs" using assms(1) by (simp add: irq_inv_def)
    show "irq_numbers (irqs s') xs = irq_numbers (irqs s) xs"
      using xn by (auto simp: irq_numbers_def assms(7))
  qed
  have "irq_numbers (irqs s') (x # xs) = Some (di_irq d) # irq_numbers (irqs s') xs"
    by (simp add: irq_numbers_def assms(7))
  then have "distinct (irq_numbers (irqs s') (x # xs))"
    unfolding nx(2) using assms(1,6) by (simp add: irq_inv_def)
  moreover have "\<forall>y \<in> set xs. case irqs s' y of None \<Rightarrow> False
      | Some d \<Rightarrow> action_list (irqactions s') (di_action d) ((acts(x := [])) y)"
    using assms(1) xn by (fastforce simp: irq_inv_def assms(7,9) split: option.splits)
  ultimately show ?thesis
    using nx assms(2,4,5) by (simp add: irq_inv_def assms(7-9))
qed

section \<open>Properties\<close>

definition irq_example :: "sim irq_state" where
  "irq_example = soft_state.extend (soft_state.truncate soft_example) (irq_state.fields
     [0x80 \<mapsto> \<lparr>di_irq = 5, di_count = 1, di_shared = True, di_thread = 0, di_action = 0x90, di_next = 0\<rparr>] 0x80
     [0x90 \<mapsto> \<lparr>ia_handler = 1, ia_flags = SA_SHIRQ, ia_name = 0, ia_dev_id = 2, ia_next = 0, ia_irq = 5\<rparr>])"

abbreviation irq_sim_kit :: "(sim, sim irq_state) dde_kit" where
  "irq_sim_kit \<equiv> sim_kit"

lemmas irq_example_simps = irq_example_def soft_example_def soft_state.defs irq_state.defs

lemma irq_example_inv: "irq_inv irq_example [0x80] (\<lambda>x. [0x90])"
  by (simp add: irq_inv_def irq_example_simps irq_numbers_def)

text \<open>
  Property C22.  An interrupt runs every action registered for its descriptor exactly once, from the
  list's head, and afterwards wakes the softirq thread if and only if a softirq is pending then.
\<close>

theorem irq_handler_runs_all_actions:
  assumes "irq_inv s xs acts" and "x \<in> set xs" and "local_hfn hfn"
  shows "\<exists>s1. run_actions hfn (map (\<lambda>a. the (irqactions s a)) (acts x)) s = Some s1 \<and>
    irq_handler K hfn x s = Some (if softirq_pending s1 = 0 then s1
      else s1\<lparr>kit := sem_up K (softirq_sem s1) (kit s1)\<rparr>)"
proof -
  obtain d where d: "irqs s x = Some d" "action_list (irqactions s) (di_action d) (acts x)"
    using assms(1,2) by (force simp: irq_inv_def split: option.splits)
  obtain s1 where "run_actions hfn (map (\<lambda>a. the (irqactions s a)) (acts x)) s = Some s1"
    using run_actions_total [OF assms(3)] by blast
  with irq_action_loop_run [OF d(2) assms(3)] d(1) show ?thesis
    by (cases s1) (simp add: irq_handler_def dde_linux26_raise_softirq_def)
qed

theorem irq_handler_runs_all_actions_witness:
  "\<exists>s1. run_actions (\<lambda>h i d s. Some (s\<lparr>softirq_pending := d\<rparr>))
       [\<lparr>ia_handler = 1, ia_flags = SA_SHIRQ, ia_name = 0, ia_dev_id = 2, ia_next = 0, ia_irq = 5\<rparr>] irq_example = Some s1 \<and>
     irq_handler irq_sim_kit (\<lambda>h i d s. Some (s\<lparr>softirq_pending := d\<rparr>)) 0x80 irq_example =
       Some (s1\<lparr>kit := sem_up irq_sim_kit 4 (kit s1)\<rparr>)"
proof -
  let ?h = "\<lambda>h i d s. Some (s\<lparr>softirq_pending := d\<rparr>) :: sim irq_state option"
  have "local_hfn ?h" by (simp add: local_hfn_def)
  from irq_handler_runs_all_actions [OF irq_example_inv _ this, of "0x80" irq_sim_kit]
  show ?thesis by (simp add: irq_example_simps)
qed

text \<open>
  Property C15.  Whenever \<open>request_irq\<close> reports success, the new handler heads the action list of the
  one descriptor of that interrupt; every handler registered before is still there, the other
  descriptors are untouched and the table stays well formed.
\<close>

theorem request_irq_registers:
  assumes "kit_fresh K live" and "irq_inv s xs acts" and "dom (irqs s) \<union> dom (irqactions s) \<subseteq> live (kit s)"
    and "request_irq K nr h flags nm dev s = Some (0, s')"
  shows "\<exists>x act. irq_inv s' (if x \<in> set xs then xs else x # xs) (acts(x := act # (if x \<in> set xs then acts x else []))) \<and>
    map_option di_irq (irqs s' x) = Some nr \<and> act \<notin> dom (irqactions s) \<and>
    map_option (\<lambda>a. (ia_handler a, ia_irq a, ia_dev_id a)) (irqactions s' act) = Some (h, nr, dev) \<and>
    (\<forall>y \<in> set xs. y \<noteq> x \<longrightarrow> irqs s' y = irqs s y) \<and> (\<forall>a \<in> dom (irqactions s). irqactions s' a = irqactions s a)"
proof -
  let ?act = "fst (simple_malloc K (sizeof K ''irqaction'') (kit s))"
  let ?k = "snd (simple_malloc K (sizeof K ''irqaction'') (kit s))"
  let ?a = "\<lparr>ia_handler = h, ia_flags = flags, ia_name = nm, ia_dev_id = dev, ia_next = 0, ia_irq = nr\<rparr>"
  let ?s = "s\<lparr>kit := ?k, irqactions := (irqactions s)(?act \<mapsto> ?a)\<rparr>"
  let ?sh = "flags AND SA_SHIRQ \<noteq> 0"
  obtain r where cl: "claim_irq K ?act ?s = Some (r, s')" "\<not> r < 0" and nz: "?act \<noteq> 0"
    using assms(4) by (auto simp: request_irq_def kcall_def Let_def split: if_splits)
  have fresh: "?act \<notin> dom (irqactions s)"
    using kit_freshD(2) [OF assms(1) nz] assms(3) by blast
  have in_dom: "set (acts y) \<subseteq> dom (irqactions s)" if y: "y \<in> set xs" for y
  proof
    fix a assume "a \<in> set (acts y)"
    moreover obtain d :: dde_linux26_irq where "action_list (irqactions s) (di_action d) (acts y)"
      using assms(2) y by (force simp: irq_inv_def split: option.splits)
    ultimately show "a \<in> dom (irqactions s)" using linked_dom by fastforce
  qed
  have inv0: "irq_inv ?s xs acts"
  proof -
    have "action_list (irqactions ?s) p (acts y) = action_list (irqactions s) p (acts y)" if "y \<in> set xs" for p y
      using in_dom [OF that] fresh by (intro linked_cong) auto
    then show ?thesis using assms(2) by (auto simp: irq_inv_def split: option.splits)
  qed
  have fi: "find_irq (irqs s) nr (used_irqs s) = Some (case find (\<lambda>x. map_option di_irq (irqs s x) = Some nr) xs of None \<Rightarrow> 0 | Some x \<Rightarrow> x)"
    using assms(2) find_irq_list by (auto simp: irq_inv_def)
  show ?thesis
  proof (cases "find (\<lambda>x. map_option di_irq (irqs s x) = Some nr) xs")
    case (Some x)
    then have x: "x \<in> set xs" "map_option di_irq (irqs s x) = Some nr" by (auto simp: find_Some_iff)
    then obtain d where d: "irqs s x = Some d" "di_irq d = nr" by auto
    have "x \<noteq> 0" using x(1) assms(2) linked_nonzero unfolding irq_inv_def by metis
    then have ad: "add_irq_action x ?act ?sh ?s = Some (r, s')" using cl(1) fi Some by (simp add: claim_irq_def)
    have "\<forall>y \<in> set xs. ?act \<notin> set (acts y)" using in_dom fresh by blast
    from add_irq_action_result [OF inv0 x(1) _ _ nz this ad] d(1) cl(2)
    have R: "irq_inv s' xs (acts(x := ?act # acts x))" "irqactions s' ?act = Some (?a\<lparr>ia_next := di_action d\<rparr>)"
        "irqs s' = (irqs s)(x \<mapsto> d\<lparr>di_count := di_count d + 1, di_action := ?act\<rparr>)" by auto
    have "irqactions s' = (irqactions s)(?act \<mapsto> ?a\<lparr>ia_next := di_action d\<rparr>)"
      using ad d(1) cl(2) by (auto simp: add_irq_action_def Let_def split: if_splits)
    with R fresh x(1) d(2) show ?thesis by (intro exI [of _ x] exI [of _ ?act]) auto
  next
    case None
    let ?x = "fst (simple_malloc K (sizeof K ''dde_linux26_irq'') ?k)"
    let ?k1 = "snd (simple_malloc K (sizeof K ''dde_linux26_irq'') ?k)"
    let ?d = "\<lparr>di_irq = nr, di_count = 0, di_shared = ?sh, di_thread = 0, di_action = 0, di_next = used_irqs s\<rparr>"
    let ?s2 = "s\<lparr>irqactions := (irqactions s)(?act \<mapsto> ?a), irqs := (irqs s)(?x \<mapsto> ?d), used_irqs := ?x,
        kit := snd (interrupt_attach K nr ?sh ?x ?k1)\<rparr>"
    have xnz: "?x \<noteq> 0" and ad: "add_irq_action ?x ?act ?sh ?s2 = Some (r, s')"
      using cl fi None by (auto simp: claim_irq_def kcall_def Let_def split: if_splits)
    have xf: "?x \<notin> dom (irqs s)"
      using kit_freshD(1) [OF assms(1), of "kit s" "sizeof K ''irqaction''"] kit_freshD(2) [OF assms(1) xnz] assms(3) by blast
    have nn: "Some nr \<notin> set (irq_numbers (irqs s) xs)"
      using None by (simp add: irq_numbers_def find_None_iff image_iff eq_commute [of "Some nr"])
    have inv2: "irq_inv ?s2 (?x # xs) (acts(?x := []))"
      by (rule irq_inv_push [OF inv0 xnz]) (use xf nn in auto)
    have xn: "?x \<notin> set xs"
      using xf assms(2) by (auto simp: irq_inv_def split: option.splits)
    have na: "\<forall>y \<in> set (?x # xs). ?act \<notin> set ((acts(?x := [])) y)" using in_dom fresh by auto
    have "irq_inv s' (?x # xs) (acts(?x := [?act]))"
      "irqactions s' ?act = Some ?a" "irqs s' = (irqs s)(?x \<mapsto> ?d\<lparr>di_count := 1, di_action := ?act\<rparr>)"
      using add_irq_action_result [OF inv2 _ _ _ nz na ad, of ?d ?a] cl(2)
      by (auto simp del: fun_upd_apply simp: fun_upd_same)
    moreover have "irqactions s' = (irqactions s)(?act \<mapsto> ?a)"
      using ad by (auto simp: add_irq_action_def Let_def split: if_splits)
    ultimately show ?thesis
      using fresh xn by (intro exI [of _ ?x] exI [of _ ?act]) auto
  qed
qed

theorem request_irq_registers_witness:
  "\<exists>s' x act. request_irq irq_sim_kit 5 7 SA_SHIRQ 0 9 irq_example = Some (0, s') \<and>
     map_option di_irq (irqs s' x) = Some 5 \<and>
     map_option (\<lambda>a. (ia_handler a, ia_irq a, ia_dev_id a)) (irqactions s' act) = Some (7, 5, 9)"
proof -
  obtain s' where run: "request_irq irq_sim_kit 5 7 SA_SHIRQ 0 9 irq_example = Some (0, s')"
    by (simp add: request_irq_def claim_irq_def add_irq_action_def irq_example_simps sim_defs find_irq.simps)
  have "dom (irqs irq_example) \<union> dom (irqactions irq_example) \<subseteq> {a. a < sim_next (kit irq_example)}"
    by (simp add: irq_example_simps sim_init_def)
  from request_irq_registers [OF sim_kit_fresh irq_example_inv this run] run show ?thesis by blast
qed

text \<open>
  Property C23.  A request that conflicts with a registered handler, because either side does not
  share the interrupt, is refused with \<open>-EBUSY\<close> and changes no descriptor and no registered action.
\<close>

theorem request_irq_conflict:
  assumes "kit_fresh K live" and "irq_inv s xs acts" and "dom (irqactions s) \<subseteq> live (kit s)"
    and "x \<in> set xs" and "irqs s x = Some d" and "di_irq d = nr" and "di_action d \<noteq> 0"
    and "\<not> di_shared d \<or> flags AND SA_SHIRQ = 0" and "h \<noteq> 0"
    and "fst (simple_malloc K (sizeof K ''irqaction'') (kit s)) \<noteq> 0"
  shows "\<exists>s'. request_irq K nr h flags nm dev s = Some (- EBUSY, s') \<and> irqs s' = irqs s \<and>
    used_irqs s' = used_irqs s \<and> (\<forall>a \<in> dom (irqactions s). irqactions s' a = irqactions s a)"
proof -
  have "find (\<lambda>x. map_option di_irq (irqs s x) = Some nr) xs = Some x"
  proof -
    have "find (\<lambda>x. map_option di_irq (irqs s x) = Some nr) xs \<noteq> None"
      using assms(4-6) by (auto simp: find_None_iff)
    then obtain y where y: "find (\<lambda>x. map_option di_irq (irqs s x) = Some nr) xs = Some y" by blast
    then have "y \<in> set xs" "map_option di_irq (irqs s y) = map_option di_irq (irqs s x)"
      using assms(5,6) by (auto simp: find_Some_iff)
    then have "y = x"
      using assms(2,4) unfolding irq_inv_def irq_numbers_def by (auto simp: distinct_map inj_on_def)
    with y show ?thesis by simp
  qed
  then have fi: "find_irq (irqs s) nr (used_irqs s) = Some x"
    using assms(2) find_irq_list by (auto simp: irq_inv_def)
  have nz: "x \<noteq> 0" using assms(2,4) linked_nonzero unfolding irq_inv_def by metis
  have fresh: "fst (simple_malloc K (sizeof K ''irqaction'') (kit s)) \<notin> dom (irqactions s)"
    using kit_freshD(2) [OF assms(1,10)] assms(3) by blast
  show ?thesis
    using assms(5,7-10) fi nz fresh
    by (auto simp: request_irq_def claim_irq_def add_irq_action_def kcall_def Let_def)
qed

theorem request_irq_conflict_witness:
  "\<exists>s'. request_irq irq_sim_kit 5 7 0 0 9 irq_example = Some (- EBUSY, s') \<and> irqs s' = irqs irq_example"
proof -
  have "dom (irqactions irq_example) \<subseteq> {a. a < sim_next (kit irq_example)}"
    "irqs irq_example 0x80 = Some \<lparr>di_irq = 5, di_count = 1, di_shared = True, di_thread = 0, di_action = 0x90, di_next = 0\<rparr>"
    "fst (simple_malloc irq_sim_kit (sizeof irq_sim_kit ''irqaction'') (kit irq_example)) \<noteq> 0"
    by (simp_all add: irq_example_simps sim_defs)
  from request_irq_conflict [OF sim_kit_fresh irq_example_inv this(1) _ this(2) _ _ _ _ this(3), of 5 0 7 0 9]
  show ?thesis by auto
qed

text \<open>
  Property C24.  When the kit refuses to attach a new interrupt, \<open>request_irq\<close> fails with \<open>-EBUSY\<close> but
  leaves the freed descriptor at the head of the list: every later request with a handler that gets
  memory for its action follows the dangling pointer and faults.
\<close>

theorem request_irq_attach_failure_dangles:
  assumes "h \<noteq> 0" and "request_irq K nr h flags nm dev s = Some (r, s')"
    and "find_irq (irqs s) nr (used_irqs s) = Some 0"
    and "let (act, k) = simple_malloc K (sizeof K ''irqaction'') (kit s);
             (irq, k) = simple_malloc K (sizeof K ''dde_linux26_irq'') k
         in act \<noteq> 0 \<and> irq \<noteq> 0 \<and> fst (interrupt_attach K nr (flags AND SA_SHIRQ \<noteq> 0) irq k) \<noteq> 0"
    and "h' \<noteq> 0" and "fst (simple_malloc K (sizeof K ''irqaction'') (kit s')) \<noteq> 0"
  shows "r = - EBUSY \<and> used_irqs s' \<noteq> 0 \<and> irqs s' (used_irqs s') = None \<and>
    request_irq K nr' h' flags' nm' dev' s' = None"
proof -
  have r: "r = - EBUSY" "used_irqs s' \<noteq> 0" "irqs s' (used_irqs s') = None"
    using assms(1-4) by (auto simp: request_irq_def claim_irq_def kcall_def Let_def case_prod_unfold split: if_splits)
  then have "find_irq (irqs s') n (used_irqs s') = None" for n by (simp add: find_irq.simps)
  with r assms(5,6) show ?thesis by (simp add: request_irq_def claim_irq_def kcall_def Let_def)
qed

theorem request_irq_attach_failure_dangles_witness:
  "\<exists>s'. request_irq irq_sim_kit 17 7 0 0 9 irq_example = Some (- EBUSY, s') \<and>
     request_irq irq_sim_kit 4 7 0 0 9 s' = None"
proof -
  obtain r s' where run: "request_irq irq_sim_kit 17 7 0 0 9 irq_example = Some (r, s')"
      "fst (simple_malloc irq_sim_kit (sizeof irq_sim_kit ''irqaction'') (kit s')) \<noteq> 0"
    by (simp add: request_irq_def claim_irq_def irq_example_simps sim_defs find_irq.simps)
  have "find_irq (irqs irq_example) 17 (used_irqs irq_example) = Some 0"
    by (simp add: irq_example_simps find_irq.simps)
  from request_irq_attach_failure_dangles [OF _ run(1) this _ _ run(2), of 7 4 0 0 9] run(1)
  show ?thesis by (auto simp: irq_example_simps sim_defs)
qed

end
