(* ===== verification/Resources.thy ===== *)
theory Resources
  imports Kmem
begin

text \<open>
  I/O ports and I/O memory of \<open>arch/dde_kit/res.c\<close>.  \<open>mem_regions\<close> is the list
  \<open>dde_linux26_mem_regions\<close> with the addresses of its entries, the latest region first.  The
  \<open>struct resource *\<close> results are the constants 0 and 1, as in the code.
\<close>

record mem_region =
  mr_pa :: addr
  mr_va :: addr
  mr_size :: u32

record 'k res_state = "'k kmem_state" +
  mem_regions :: "(addr \<times> mem_region) list"

type_synonym ('k, 'z) rstate = "('k, 'z) res_state_scheme"
type_synonym ('k, 'z) rkit = "('k, ('k, 'z) res_state_scheme) dde_kit"

definition request_region :: "('k, 'z) rkit \<Rightarrow> u32 \<Rightarrow> u32 \<Rightarrow> ('k, 'z) rstate \<Rightarrow> addr \<times> ('k, 'z) rstate" where
  "request_region K start n s =
     (let (err, s) = kcall (request_io K start n) s in (if err \<noteq> 0 then 0 else 1, s))"

definition request_mem_region ::
  "('k, 'z) rkit \<Rightarrow> u32 \<Rightarrow> u32 \<Rightarrow> ('k, 'z) rstate \<Rightarrow> (addr \<times> ('k, 'z) rstate) option" where
  "request_mem_region K start n s = do {
     let ((i, va), s) = kcall (request_mem K start n) s;
     if i \<noteq> 0 then Some (0, s)
     else do {
       (mreg, s) \<leftarrow> kmalloc K (sizeof K ''dde_linux26_mem_region'') GFP_KERNEL s;
       if mreg = 0 then None
       else Some (1, s\<lparr>mem_regions := (mreg, \<lparr>mr_pa = start, mr_va = va, mr_size = n\<rparr>) # mem_regions s\<rparr>) } }"

definition release_region :: "('k, 'z) rkit \<Rightarrow> u32 \<Rightarrow> u32 \<Rightarrow> ('k, 'z) rstate \<Rightarrow> ('k, 'z) rstate" where
  "release_region K start n s = kit_update (release_io K start n) s"

definition release_mem_region :: "('k, 'z) rkit \<Rightarrow> u32 \<Rightarrow> u32 \<Rightarrow> ('k, 'z) rstate \<Rightarrow> ('k, 'z) rstate" where
  "release_mem_region K start n s = kit_update (release_mem K start n) s"

text \<open>The comparison \<open>mreg->pa >= phys_addr\<close> is the source's; it excludes interior addresses.\<close>

fun ioremap_scan :: "addr \<Rightarrow> (addr \<times> mem_region) list \<Rightarrow> addr" where
  "ioremap_scan phys_addr [] = 0"
| "ioremap_scan phys_addr ((a, mreg) # rest) =
     (if phys_addr \<le> mr_pa mreg \<and> phys_addr < mr_pa mreg + mr_size mreg
      then mr_va mreg + (phys_addr - mr_pa mreg)
      else ioremap_scan phys_addr rest)"

definition ioremap :: "addr \<Rightarrow> u32 \<Rightarrow> ('k, 'z) rstate \<Rightarrow> addr" where
  "ioremap phys_addr n s = ioremap_scan phys_addr (mem_regions s)"

definition ioremap_nocache :: "addr \<Rightarrow> u32 \<Rightarrow> ('k, 'z) rstate \<Rightarrow> addr" where
  "ioremap_nocache offset n s = ioremap offset n s"

section \<open>Lemmas\<close>

lemma request_mem_region_result:
  assumes "kmalloc_inv s" and "request_mem_region K start n s = Some (1, s')"
  shows "kmalloc_inv s' \<and> (\<exists>e va. snd (fst (request_mem K start n (kit s))) = va \<and>
    mem_regions s' = (e, \<lparr>mr_pa = start, mr_va = va, mr_size = n\<rparr>) # mem_regions s)"
proof -
  let ?t = "s\<lparr>kit := snd (request_mem K start n (kit s))\<rparr>"
  have ti: "kmalloc_inv ?t" using assms(1) kmalloc_inv_cong [of ?t s] by simp
  obtain mreg s1 where km: "kmalloc K (sizeof K ''dde_linux26_mem_region'') GFP_KERNEL ?t = Some (mreg, s1)"
    using kmalloc_total [OF ti] by blast
  have "mem_regions s1 = mem_regions s"
    using kmalloc_frame(3) [OF ti km] by (cases s1, cases s) simp
  moreover have s': "s' = s1\<lparr>mem_regions := (mreg, \<lparr>mr_pa = start, mr_va = snd (fst (request_mem K start n (kit s))), mr_size = n\<rparr>) # mem_regions s1\<rparr>"
    using assms(2) km by (auto simp: request_mem_region_def kcall_def case_prod_unfold Let_def split: if_splits)
  moreover have "kmalloc_inv s'"
    using kmalloc_keeps_inv [OF ti km] kmalloc_inv_cong [of s' s1] by (simp add: s')
  ultimately show ?thesis by simp
qed

section \<open>Properties\<close>

definition res_example :: "sim res_state" where
  "res_example = \<lparr>kit = sim_init, mem = (\<lambda>_. 0), caches = Map.empty, malloc_sizes = malloc_sizes_boot,
     mem_regions = [(0x40, \<lparr>mr_pa = 0xE0000000, mr_va = 0x5000, mr_size = 0x1000\<rparr>)]\<rparr>"

abbreviation res_sim_kit :: "(sim, sim res_state) dde_kit" where
  "res_sim_kit \<equiv> sim_kit"

lemma res_example_inv: "kmalloc_inv res_example"
  by (simp add: res_example_def kmalloc_inv_def malloc_sizes_boot_def kmalloc_size_list_def cache_matches_def)

text \<open>
  After a granted \<open>request_mem_region\<close> of a region that does not wrap around the address
  space, \<open>ioremap\<close> of its start returns the virtual address the kit assigned, whatever regions were
  requested before; addresses outside the new region's reach resolve as before.
\<close>

theorem ioremap_of_requested_start:
  assumes "kmalloc_inv s" and "request_mem_region K start n s = Some (1, s')" and "0 < n" and "start \<le> start + n"
  shows "ioremap start m s' = snd (fst (request_mem K start n (kit s))) \<and>
    (\<forall>a. start < a \<longrightarrow> ioremap a m s' = ioremap a m s)"
proof -
  obtain e va where "snd (fst (request_mem K start n (kit s))) = va"
      "mem_regions s' = (e, \<lparr>mr_pa = start, mr_va = va, mr_size = n\<rparr>) # mem_regions s"
    using request_mem_region_result [OF assms(1,2)] by blast
  moreover have "start < start + n" using assms(3,4) by (metis add_cancel_right_right order_le_less word_gt_0)
  ultimately show ?thesis by (auto simp: ioremap_def)
qed

theorem ioremap_of_requested_start_witness:
  "\<exists>s'. request_mem_region res_sim_kit 0xD0000000 0x2000 res_example = Some (1, s') \<and>
     ioremap 0xD0000000 0x2000 s' = 0x50000000"
proof -
  obtain s' where run: "request_mem_region res_sim_kit 0xD0000000 0x2000 res_example = Some (1, s')"
    by (simp add: request_mem_region_def res_example_def malloc_sizes_boot_def kmalloc_size_list_def kmem_defs
        sim_defs Let_def)
  from ioremap_of_requested_start [OF res_example_inv run, of 0] run show ?thesis
    by (auto simp: sim_kit_def ioremap_def)
qed

text \<open>
  The comparison in \<open>ioremap\<close> is reversed: an address strictly inside the only region is
  not found, while an address below it is mapped to a virtual address below the region's window.
\<close>

theorem ioremap_reversed_bound:
  assumes "mem_regions s = [(e, r)]" and "mr_pa r < mr_pa r + mr_size r"
  shows "(mr_pa r < a \<longrightarrow> ioremap a m s = 0) \<and>
    (a < mr_pa r \<longrightarrow> ioremap a m s = mr_va r - (mr_pa r - a))"
  using assms by (auto simp: ioremap_def)

theorem ioremap_reversed_bound_witness:
  "ioremap 0xE0000010 4 res_example = 0 \<and> ioremap 0xDFFFFFF0 4 res_example = 0x4FF0"
  using ioremap_reversed_bound [of res_example "0x40" "\<lparr>mr_pa = 0xE0000000, mr_va = 0x5000, mr_size = 0x1000\<rparr>" "0xE0000010" 4]
    ioremap_reversed_bound [of res_example "0x40" "\<lparr>mr_pa = 0xE0000000, mr_va = 0x5000, mr_size = 0x1000\<rparr>" "0xDFFFFFF0" 4]
  by (simp add: res_example_def)

end
