(* ===== verification/Pci.thy ===== *)
theory Pci
  imports DDE_Kit
begin

text \<open>
  PCI: the configuration space backend of \<open>arch/dde_kit/pci.c\<close>, the accessors of
  \<open>drivers/pci/access.c\<close> and the part of the bus probe in \<open>drivers/pci/probe.c\<close> that sizes base
  address registers and reads bridge windows.  The device a function works on is passed by value
  and returned updated; configuration space itself lives behind the kit.  The spinlock around an
  access only serialises threads and is not represented.
\<close>

section \<open>Configuration space\<close>

record resource =
  r_start :: u32
  r_end :: u32
  r_flags :: u32

record pci_dev =
  pd_bus :: u32
  pd_devfn :: u32
  pd_resource :: "resource list"
  pd_rom_base_reg :: u32

type_synonym ('k, 'z) pst = "('k, 'z) dde_base_scheme"

abbreviation (input) PCI_NUM_RESOURCES :: nat where "PCI_NUM_RESOURCES \<equiv> 11"
abbreviation (input) PCI_ROM_RESOURCE :: nat where "PCI_ROM_RESOURCE \<equiv> 6"
abbreviation (input) PCI_BRIDGE_RESOURCES :: nat where "PCI_BRIDGE_RESOURCES \<equiv> 7"
abbreviation (input) IORESOURCE_IO :: u32 where "IORESOURCE_IO \<equiv> 0x100"
abbreviation (input) IORESOURCE_MEM :: u32 where "IORESOURCE_MEM \<equiv> 0x200"
abbreviation (input) IORESOURCE_PREFETCH :: u32 where "IORESOURCE_PREFETCH \<equiv> 0x1000"
abbreviation (input) IORESOURCE_READONLY :: u32 where "IORESOURCE_READONLY \<equiv> 0x2000"
abbreviation (input) IORESOURCE_CACHEABLE :: u32 where "IORESOURCE_CACHEABLE \<equiv> 0x4000"
abbreviation (input) IORESOURCE_ROM_ENABLE :: u32 where "IORESOURCE_ROM_ENABLE \<equiv> 1"
abbreviation (input) PCI_COMMAND :: u32 where "PCI_COMMAND \<equiv> 4"
abbreviation (input) PCI_COMMAND_IO :: u16 where "PCI_COMMAND_IO \<equiv> 1"
abbreviation (input) PCI_COMMAND_MEMORY :: u16 where "PCI_COMMAND_MEMORY \<equiv> 2"
abbreviation (input) PCI_BASE_ADDRESS_0 :: u32 where "PCI_BASE_ADDRESS_0 \<equiv> 0x10"
abbreviation (input) PCI_BASE_ADDRESS_MEM_MASK :: u32 where "PCI_BASE_ADDRESS_MEM_MASK \<equiv> 0xFFFFFFF0"
abbreviation (input) PCI_BASE_ADDRESS_IO_MASK :: u32 where "PCI_BASE_ADDRESS_IO_MASK \<equiv> 0xFFFFFFFC"
abbreviation (input) PCI_ROM_ADDRESS_MASK :: u32 where "PCI_ROM_ADDRESS_MASK \<equiv> 0xFFFFF800"
abbreviation (input) PCIBIOS_BAD_REGISTER_NUMBER :: int where "PCIBIOS_BAD_REGISTER_NUMBER \<equiv> 0x87"

definition PCI_SLOT :: "u32 \<Rightarrow> u32" where "PCI_SLOT devfn = drop_bit 3 devfn AND 0x1F"
definition PCI_FUNC :: "u32 \<Rightarrow> u32" where "PCI_FUNC devfn = devfn AND 7"

text \<open>A read of 1 or 2 bytes stores only the low bytes of \<open>*val\<close>; another size stores nothing.\<close>

definition dde_linux26_pci_read ::
  "('k, 's) dde_kit \<Rightarrow> u32 \<Rightarrow> u32 \<Rightarrow> u32 \<Rightarrow> nat \<Rightarrow> u32 \<Rightarrow> ('k, 'z) pst \<Rightarrow> int \<times> u32 \<times> ('k, 'z) pst" where
  "dde_linux26_pci_read K bus devfn pos len val s =
     (if len = 1 then (let (b, s) = kcall (pci_readb K bus (PCI_SLOT devfn) (PCI_FUNC devfn) pos) s
                        in (0, (val AND NOT 0xFF) OR ucast b, s))
      else if len = 2 then (let (w, s) = kcall (pci_readw K bus (PCI_SLOT devfn) (PCI_FUNC devfn) pos) s
                        in (0, (val AND NOT 0xFFFF) OR ucast w, s))
      else if len = 4 then (let (l, s) = kcall (pci_readl K bus (PCI_SLOT devfn) (PCI_FUNC devfn) pos) s
                        in (0, l, s))
      else (0, val, s))"

definition dde_linux26_pci_write ::
  "('k, 's) dde_kit \<Rightarrow> u32 \<Rightarrow> u32 \<Rightarrow> u32 \<Rightarrow> nat \<Rightarrow> u32 \<Rightarrow> ('k, 'z) pst \<Rightarrow> int \<times> ('k, 'z) pst" where
  "dde_linux26_pci_write K bus devfn pos len val s =
     (if len = 1 then (0, kit_update (pci_writeb K bus (PCI_SLOT devfn) (PCI_FUNC devfn) pos (ucast val)) s)
      else if len = 2 then (0, kit_update (pci_writew K bus (PCI_SLOT devfn) (PCI_FUNC devfn) pos (ucast val)) s)
      else if len = 4 then (0, kit_update (pci_writel K bus (PCI_SLOT devfn) (PCI_FUNC devfn) pos val) s)
      else (0, s))"

text \<open>
  The accessors generated by \<open>PCI_OP_READ\<close> and \<open>PCI_OP_WRITE\<close>.  A misaligned position returns an
  error and leaves the caller's variable (\<open>old\<close>) alone.
\<close>

definition pci_bus_read_config_byte ::
  "('k, 's) dde_kit \<Rightarrow> u32 \<Rightarrow> u32 \<Rightarrow> u32 \<Rightarrow> ('k, 'z) pst \<Rightarrow> int \<times> u8 \<times> ('k, 'z) pst" where
  "pci_bus_read_config_byte K bus devfn pos s =
     (let (res, data, s) = dde_linux26_pci_read K bus devfn pos 1 0 s in (res, ucast data, s))"

definition pci_bus_read_config_word ::
  "('k, 's) dde_kit \<Rightarrow> u32 \<Rightarrow> u32 \<Rightarrow> u32 \<Rightarrow> u16 \<Rightarrow> ('k, 'z) pst \<Rightarrow> int \<times> u16 \<times> ('k, 'z) pst" where
  "pci_bus_read_config_word K bus devfn pos old s =
     (if pos AND 1 \<noteq> 0 then (PCIBIOS_BAD_REGISTER_NUMBER, old, s)
      else let (res, data, s) = dde_linux26_pci_read K bus devfn pos 2 0 s in (res, ucast data, s))"

definition pci_bus_read_config_dword ::
  "('k, 's) dde_kit \<Rightarrow> u32 \<Rightarrow> u32 \<Rightarrow> u32 \<Rightarrow> u32 \<Rightarrow> ('k, 'z) pst \<Rightarrow> int \<times> u32 \<times> ('k, 'z) pst" where
  "pci_bus_read_config_dword K bus devfn pos old s =
     (if pos AND 3 \<noteq> 0 then (PCIBIOS_BAD_REGISTER_NUMBER, old, s)
      else dde_linux26_pci_read K bus devfn pos 4 0 s)"

definition pci_bus_write_config_word ::
  "('k, 's) dde_kit \<Rightarrow> u32 \<Rightarrow> u32 \<Rightarrow> u32 \<Rightarrow> u16 \<Rightarrow> ('k, 'z) pst \<Rightarrow> int \<times> ('k, 'z) pst" where
  "pci_bus_write_config_word K bus devfn pos value s =
     (if pos AND 1 \<noteq> 0 then (PCIBIOS_BAD_REGISTER_NUMBER, s)
      else dde_linux26_pci_write K bus devfn pos 2 (ucast value) s)"

definition pci_bus_write_config_dword ::
  "('k, 's) dde_kit \<Rightarrow> u32 \<Rightarrow> u32 \<Rightarrow> u32 \<Rightarrow> u32 \<Rightarrow> ('k, 'z) pst \<Rightarrow> int \<times> ('k, 'z) pst" where
  "pci_bus_write_config_dword K bus devfn pos value s =
     (if pos AND 3 \<noteq> 0 then (PCIBIOS_BAD_REGISTER_NUMBER, s)
      else dde_linux26_pci_write K bus devfn pos 4 value s)"

text \<open>The inline wrappers of \<open>linux/pci.h\<close>, as their callers use them: the status is ignored.\<close>

definition pci_read_config_byte :: "('k, 's) dde_kit \<Rightarrow> pci_dev \<Rightarrow> u32 \<Rightarrow> ('k, 'z) pst \<Rightarrow> u8 \<times> ('k, 'z) pst" where
  "pci_read_config_byte K dev pos s = snd (pci_bus_read_config_byte K (pd_bus dev) (pd_devfn dev) pos s)"

definition pci_read_config_word :: "('k, 's) dde_kit \<Rightarrow> pci_dev \<Rightarrow> u32 \<Rightarrow> ('k, 'z) pst \<Rightarrow> u16 \<times> ('k, 'z) pst" where
  "pci_read_config_word K dev pos s = snd (pci_bus_read_config_word K (pd_bus dev) (pd_devfn dev) pos 0 s)"

definition pci_read_config_dword :: "('k, 's) dde_kit \<Rightarrow> pci_dev \<Rightarrow> u32 \<Rightarrow> ('k, 'z) pst \<Rightarrow> u32 \<times> ('k, 'z) pst" where
  "pci_read_config_dword K dev pos s = snd (pci_bus_read_config_dword K (pd_bus dev) (pd_devfn dev) pos 0 s)"

definition pci_write_config_word :: "('k, 's) dde_kit \<Rightarrow> pci_dev \<Rightarrow> u32 \<Rightarrow> u16 \<Rightarrow> ('k, 'z) pst \<Rightarrow> ('k, 'z) pst" where
  "pci_write_config_word K dev pos v s = snd (pci_bus_write_config_word K (pd_bus dev) (pd_devfn dev) pos v s)"

definition pci_write_config_dword :: "('k, 's) dde_kit \<Rightarrow> pci_dev \<Rightarrow> u32 \<Rightarrow> u32 \<Rightarrow> ('k, 'z) pst \<Rightarrow> ('k, 'z) pst" where
  "pci_write_config_dword K dev pos v s = snd (pci_bus_write_config_dword K (pd_bus dev) (pd_devfn dev) pos v s)"

section \<open>Enabling a device\<close>

text \<open>The loop over the resources; \<open>None\<close> is the \<open>-EINVAL\<close> exit.\<close>

fun enable_resources_loop :: "u32 \<Rightarrow> nat \<Rightarrow> resource list \<Rightarrow> u16 \<Rightarrow> u16 option" where
  "enable_resources_loop msk idx [] cmd = Some cmd"
| "enable_resources_loop msk idx (r # rs) cmd =
     (if \<not> bit msk idx then enable_resources_loop msk (Suc idx) rs cmd
      else if r_flags r AND (IORESOURCE_IO OR IORESOURCE_MEM) = 0 then enable_resources_loop msk (Suc idx) rs cmd
      else if idx = PCI_ROM_RESOURCE \<and> r_flags r AND IORESOURCE_ROM_ENABLE = 0
        then enable_resources_loop msk (Suc idx) rs cmd
      else if r_start r = 0 \<and> r_end r \<noteq> 0 then None
      else let cmd = (if r_flags r AND IORESOURCE_IO \<noteq> 0 then cmd OR PCI_COMMAND_IO else cmd);
               cmd = (if r_flags r AND IORESOURCE_MEM \<noteq> 0 then cmd OR PCI_COMMAND_MEMORY else cmd)
           in enable_resources_loop msk (Suc idx) rs cmd)"

definition pcibios_enable_resources ::
  "('k, 's) dde_kit \<Rightarrow> pci_dev \<Rightarrow> u32 \<Rightarrow> ('k, 'z) pst \<Rightarrow> int \<times> ('k, 'z) pst" where
  "pcibios_enable_resources K dev msk s =
     (let (cmd, s) = pci_read_config_word K dev PCI_COMMAND s; old_cmd = cmd in
      case enable_resources_loop msk 0 (take PCI_NUM_RESOURCES (pd_resource dev)) cmd of
        None \<Rightarrow> (- EINVAL, s)
      | Some cmd \<Rightarrow> (0, if cmd \<noteq> old_cmd then pci_write_config_word K dev PCI_COMMAND cmd s else s))"

definition pcibios_enable_device ::
  "('k, 's) dde_kit \<Rightarrow> pci_dev \<Rightarrow> u32 \<Rightarrow> ('k, 'z) pst \<Rightarrow> int \<times> ('k, 'z) pst" where
  "pcibios_enable_device K dev msk s =
     (let (err, s) = pcibios_enable_resources K dev msk s in if err < 0 then (err, s) else (0, s))"

section \<open>Base address registers\<close>

definition pci_calc_resource_flags :: "u32 \<Rightarrow> u32" where
  "pci_calc_resource_flags flags =
     (if flags AND 1 \<noteq> 0 then IORESOURCE_IO
      else if flags AND 8 \<noteq> 0 then IORESOURCE_MEM OR IORESOURCE_PREFETCH
      else IORESOURCE_MEM)"

definition pci_size :: "u32 \<Rightarrow> u32 \<Rightarrow> u32 \<Rightarrow> u32" where
  "pci_size base maxbase m =
     (let sz = m AND maxbase in
      if sz = 0 then 0
      else let sz = (sz AND NOT (sz - 1)) - 1 in
        if base = maxbase \<and> (base OR sz) AND m \<noteq> m then 0 else sz)"

text \<open>Writing all ones to a register and restoring it: the old and the probed value.\<close>

definition probe_reg ::
  "('k, 's) dde_kit \<Rightarrow> pci_dev \<Rightarrow> u32 \<Rightarrow> u32 \<Rightarrow> ('k, 'z) pst \<Rightarrow> (u32 \<times> u32) \<times> ('k, 'z) pst" where
  "probe_reg K dev reg ones s =
     (let (l, s) = pci_read_config_dword K dev reg s;
          s = pci_write_config_dword K dev reg ones s;
          (sz, s) = pci_read_config_dword K dev reg s;
          s = pci_write_config_dword K dev reg l s
      in ((l, sz), s))"

definition dev_resource :: "pci_dev \<Rightarrow> nat \<Rightarrow> resource" where
  "dev_resource dev i = pd_resource dev ! i"

definition set_resource :: "nat \<Rightarrow> resource \<Rightarrow> pci_dev \<Rightarrow> pci_dev" where
  "set_resource i r dev = dev\<lparr>pd_resource := (pd_resource dev)[i := r]\<rparr>"

text \<open>The upper half of a 64-bit memory register, for 32-bit longs.\<close>

definition read_base_high ::
  "('k, 's) dde_kit \<Rightarrow> u32 \<Rightarrow> u32 \<Rightarrow> u32 \<Rightarrow> pci_dev \<Rightarrow> resource \<Rightarrow> ('k, 'z) pst \<Rightarrow> resource \<times> ('k, 'z) pst" where
  "read_base_high K reg l sz dev res s =
     (let ((lhi, szhi), s) = probe_reg K dev (reg + 4) (- 1) s;
          szhi = pci_size lhi szhi 0xFFFFFFFF
      in if szhi \<noteq> 0 then (res\<lparr>r_start := 0, r_flags := 0\<rparr>, s)
         else if lhi \<noteq> 0 then
           (let s = pci_write_config_dword K dev reg (l AND NOT PCI_BASE_ADDRESS_MEM_MASK) s;
                s = pci_write_config_dword K dev (reg + 4) 0 s
            in (res\<lparr>r_start := 0, r_end := sz\<rparr>, s))
         else (res, s))"

text \<open>\<open>reg = PCI_BASE_ADDRESS_0 + (pos << 2)\<close>\<close>

definition bar_reg :: "nat \<Rightarrow> u32" where
  "bar_reg pos = PCI_BASE_ADDRESS_0 + of_nat (4 * pos)"

text \<open>The body of the loop for register \<open>pos\<close>; the result also says whether the next one was used up.\<close>

definition read_base ::
  "('k, 's) dde_kit \<Rightarrow> nat \<Rightarrow> pci_dev \<Rightarrow> ('k, 'z) pst \<Rightarrow> bool \<times> pci_dev \<times> ('k, 'z) pst" where
  "read_base K pos dev s =
     (let res = dev_resource dev pos;
          reg = bar_reg pos;
          ((l, sz), s) = probe_reg K dev reg (- 1) s
      in if sz = 0 \<or> sz = 0xFFFFFFFF then (False, dev, s)
         else let l = (if l = 0xFFFFFFFF then 0 else l);
                  mm = (if l AND 1 = 0 then PCI_BASE_ADDRESS_MEM_MASK else PCI_BASE_ADDRESS_IO_MASK);
                  sz = pci_size l sz (if l AND 1 = 0 then PCI_BASE_ADDRESS_MEM_MASK else PCI_BASE_ADDRESS_IO_MASK AND 0xFFFF)
              in if sz = 0 then (False, dev, s)
                 else let res = res\<lparr>r_start := l AND mm, r_flags := r_flags res OR (l AND NOT mm)\<rparr>;
                          res = res\<lparr>r_end := r_start res + sz,
                                    r_flags := r_flags res OR pci_calc_resource_flags l\<rparr>
                      in if l AND 7 = 4
                         then let (res, s) = read_base_high K reg l sz dev res s in (True, set_resource pos res dev, s)
                         else (False, set_resource pos res dev, s))"

function read_bases_loop ::
  "('k, 's) dde_kit \<Rightarrow> nat \<Rightarrow> nat \<Rightarrow> pci_dev \<Rightarrow> ('k, 'z) pst \<Rightarrow> pci_dev \<times> ('k, 'z) pst" where
  "read_bases_loop K howmany pos dev s =
     (if pos < howmany then
        let (wide, dev, s) = read_base K pos dev s
        in read_bases_loop K howmany (pos + 1 + (if wide then 1 else 0)) dev s
      else (dev, s))"
  by pat_completeness auto
termination by (relation "measure (\<lambda>(K, howmany, pos, dev, s). howmany - pos)") auto

declare read_bases_loop.simps [simp del]

text \<open>The expansion ROM register; \<open>~PCI_ROM_ADDRESS_ENABLE\<close> is \<open>- 2\<close>.\<close>

definition read_rom_base ::
  "('k, 's) dde_kit \<Rightarrow> u32 \<Rightarrow> pci_dev \<Rightarrow> ('k, 'z) pst \<Rightarrow> pci_dev \<times> ('k, 'z) pst" where
  "read_rom_base K rom dev s =
     (let dev = dev\<lparr>pd_rom_base_reg := rom\<rparr>;
          ((l, sz), s) = probe_reg K dev rom (- 2) s;
          l = (if l = 0xFFFFFFFF then 0 else l)
      in if sz \<noteq> 0 \<and> sz \<noteq> 0xFFFFFFFF then
           (let sz = pci_size l sz PCI_ROM_ADDRESS_MASK
            in if sz \<noteq> 0 then
                 (set_resource PCI_ROM_RESOURCE \<lparr>r_start = l AND PCI_ROM_ADDRESS_MASK,
                    r_end = (l AND PCI_ROM_ADDRESS_MASK) + sz,
                    r_flags = (l AND IORESOURCE_ROM_ENABLE) OR IORESOURCE_MEM OR IORESOURCE_PREFETCH OR
                      IORESOURCE_READONLY OR IORESOURCE_CACHEABLE\<rparr> dev, s)
               else (dev, s))
         else (dev, s))"

definition pci_read_bases ::
  "('k, 's) dde_kit \<Rightarrow> nat \<Rightarrow> u32 \<Rightarrow> pci_dev \<Rightarrow> ('k, 'z) pst \<Rightarrow> pci_dev \<times> ('k, 'z) pst" where
  "pci_read_bases K howmany rom dev s =
     (let (dev, s) = read_bases_loop K howmany 0 dev s
      in if rom \<noteq> 0 then read_rom_base K rom dev s else (dev, s))"

definition dde_linux26_init_pci_kit :: "('k, 's) dde_kit \<Rightarrow> ('k, 'z) pst \<Rightarrow> ('k, 'z) pst" where
  "dde_linux26_init_pci_kit K s = kit_update (pci_init K) s"

section \<open>Lemmas\<close>

text \<open>
  The PCI rules for the configuration registers of one function, as the kit passes them on: reading
  returns the register, writing replaces its writable bits \<open>w\<close> and nothing else.
\<close>

definition config_space :: "('k, 's) dde_kit \<Rightarrow> pci_dev \<Rightarrow> ('k \<Rightarrow> u32 \<Rightarrow> u32) \<Rightarrow> (u32 \<Rightarrow> u32) \<Rightarrow> bool" where
  "config_space K dev cfg w \<longleftrightarrow>
     (let b = pd_bus dev; d = PCI_SLOT (pd_devfn dev); f = PCI_FUNC (pd_devfn dev) in
      (\<forall>pos k. fst (pci_readl K b d f pos k) = cfg k pos \<and> cfg (snd (pci_readl K b d f pos k)) = cfg k) \<and>
      (\<forall>pos v k. cfg (pci_writel K b d f pos v k) = (cfg k)(pos := (v AND w pos) OR (cfg k pos AND NOT (w pos)))))"

lemma config_read:
  assumes "config_space K dev cfg w" and "pos AND 3 = 0"
  shows "fst (pci_read_config_dword K dev pos s) = cfg (kit s) pos"
    "cfg (kit (snd (pci_read_config_dword K dev pos s))) = cfg (kit s)"
  using assms by (simp_all add: pci_read_config_dword_def pci_bus_read_config_dword_def dde_linux26_pci_read_def
      kcall_def config_space_def Let_def)

lemma config_write:
  assumes "config_space K dev cfg w" and "pos AND 3 = 0"
  shows "cfg (kit (pci_write_config_dword K dev pos v s)) =
    (cfg (kit s))(pos := (v AND w pos) OR (cfg (kit s) pos AND NOT (w pos)))"
  using assms by (simp add: pci_write_config_dword_def pci_bus_write_config_dword_def dde_linux26_pci_write_def
      config_space_def Let_def)

lemma masked_bits:
  "((v AND w) OR (x AND NOT w)) AND NOT w = x AND NOT (w :: u32)" "(x AND w) OR (x AND NOT w) = (x :: u32)"
  by (auto intro!: bit_word_eqI simp: bit_simps)

text \<open>Probing a register shows its writable bits and leaves configuration space as it was.\<close>

lemma probe_reg_result:
  assumes "config_space K dev cfg w" and "reg AND 3 = 0"
  shows "fst (probe_reg K dev reg ones s) = (cfg (kit s) reg, (ones AND w reg) OR (cfg (kit s) reg AND NOT (w reg)))"
    "cfg (kit (snd (probe_reg K dev reg ones s))) = cfg (kit s)"
  using assms
  by (auto simp: probe_reg_def case_prod_unfold Let_def config_read [OF assms] config_write [OF assms] masked_bits)

lemma low_decode_bit:
  fixes x :: u32
  assumes "k < 32" and "x = - (2 ^ k)"
  shows "(x AND NOT (x - 1)) - 1 = 2 ^ k - 1"
proof -
  have "NOT (x - 1) = 2 ^ k" by (simp add: assms(2) not_eq_complement)
  moreover have "x AND 2 ^ k = 2 ^ k"
    using assms(1) by (auto intro!: bit_word_eqI simp: assms(2) minus_exp_eq_not_mask bit_simps)
  ultimately show ?thesis by simp
qed

lemma pci_size_decode:
  assumes "k < 32" and "m AND maxbase = - (2 ^ k)" and "base \<noteq> maxbase \<or> (base OR (2 ^ k - 1)) AND m = m"
  shows "pci_size base maxbase m = 2 ^ k - 1"
proof -
  have "(- (2 ^ k) :: u32) \<noteq> 0" using assms(1) by simp
  then show ?thesis
    using assms(3) unfolding pci_size_def assms(2) Let_def low_decode_bit [OF assms(1) refl] by auto
qed

lemma bar_reg_aligned: "pos < 6 \<Longrightarrow> bar_reg pos AND 3 = 0"
  by (auto simp: bar_reg_def less_Suc_eq numeral_eq_Suc [of "num.Bit0 (num.Bit1 num.One)"] eval_nat_numeral)

lemma read_base_keeps_config:
  assumes "config_space K dev cfg w" and "pos < 6" and "cfg (kit s) (bar_reg pos) AND 7 \<noteq> 4"
  shows "case read_base K pos dev s of (wide, dev', s') \<Rightarrow> \<not> wide \<and> cfg (kit s') = cfg (kit s) \<and>
    pd_bus dev' = pd_bus dev \<and> pd_devfn dev' = pd_devfn dev"
proof -
  note P = probe_reg_result [OF assms(1) bar_reg_aligned [OF assms(2)], of "- 1" s]
  obtain l sz s1 where p: "probe_reg K dev (bar_reg pos) (- 1) s = ((l, sz), s1)" by (metis prod.collapse)
  have "l = cfg (kit s) (bar_reg pos)" "cfg (kit s1) = cfg (kit s)" using P by (simp_all add: p)
  with assms(3) show ?thesis
    by (auto simp: read_base_def p Let_def set_resource_def)
qed

lemma read_bases_loop_keeps_config:
  assumes "config_space K dev cfg w" and "howmany \<le> 6" and "\<forall>p < 6. cfg (kit s) (bar_reg p) AND 7 \<noteq> 4"
  shows "cfg (kit (snd (read_bases_loop K howmany pos dev s))) = cfg (kit s) \<and>
    pd_bus (fst (read_bases_loop K howmany pos dev s)) = pd_bus dev \<and>
    pd_devfn (fst (read_bases_loop K howmany pos dev s)) = pd_devfn dev"
  using assms
proof (induction K howmany pos dev s rule: read_bases_loop.induct)
  case (1 K howmany pos dev s)
  show ?case
  proof (cases "pos < howmany")
    case True
    obtain wide dev' s' where r: "read_base K pos dev s = (wide, dev', s')" by (metis prod_cases3)
    have keep: "\<not> wide" "cfg (kit s') = cfg (kit s)" "pd_bus dev' = pd_bus dev" "pd_devfn dev' = pd_devfn dev"
      using read_base_keeps_config [OF "1.prems"(1), of pos s] True "1.prems"(2,3) by (auto simp: r)
    have "config_space K dev' cfg w" using "1.prems"(1) keep(3,4) by (simp add: config_space_def)
    with "1.IH" [OF True r [symmetric] refl] "1.prems"(2,3) keep show ?thesis
      by (simp add: read_bases_loop.simps [of K howmany pos] True r)
  next
    case False
    then show ?thesis by (simp add: read_bases_loop.simps)
  qed
qed

text \<open>The values a 32-bit memory register of \<open>2^k\<close> bytes shows when it is probed.\<close>

lemma memory_bar_values:
  fixes base fl :: u32
  assumes "4 \<le> k" and "k < 32" and "take_bit k base = 0" and "fl = 0 \<or> fl = 8"
  shows "(- (2 ^ k)) OR ((base OR fl) AND NOT (- (2 ^ k))) = - (2 ^ k) OR fl"
    "PCI_BASE_ADDRESS_MEM_MASK AND (- (2 ^ k) OR fl) = - (2 ^ k)"
    "(base OR fl) AND PCI_BASE_ADDRESS_MEM_MASK = base" "(base OR fl) AND NOT PCI_BASE_ADDRESS_MEM_MASK = fl"
    "(base OR fl) AND 1 = 0" "(base OR fl) AND 7 = 0" "\<not> bit (base OR fl) 0" "\<not> bit (- (2 ^ k) OR fl) 0"
    "bit (- (2 ^ k) OR fl) k"
    "((- (2 ^ k) OR fl) OR (2 ^ k - 1)) AND PCI_BASE_ADDRESS_MEM_MASK = PCI_BASE_ADDRESS_MEM_MASK"
proof -
  have M: "PCI_BASE_ADDRESS_MEM_MASK = NOT (mask 4)" and masks: "1 = (mask 1 :: u32)" "7 = (mask 3 :: u32)"
    by (simp_all add: mask_eq_exp_minus_1)
  have bb: "bit base i \<Longrightarrow> k \<le> i" for i
    using arg_cong [OF assms(3), of "\<lambda>x. bit x i"] by (auto simp: bit_simps)
  have bf: "bit fl i \<Longrightarrow> i = 3" for i
    using assms(4) bit_exp_iff [of 3 i, where 'a = u32] by auto
  have n: "- (2 ^ k) = NOT (mask k :: u32)" by (simp add: minus_exp_eq_not_mask)
  note B = n M bit_simps mask_eq_exp_minus_1 [symmetric]
  show "(- (2 ^ k)) OR ((base OR fl) AND NOT (- (2 ^ k))) = - (2 ^ k) OR fl"
    using assms(1) by (intro bit_word_eqI) (auto simp: B dest: bb bf)
  show "PCI_BASE_ADDRESS_MEM_MASK AND (- (2 ^ k) OR fl) = - (2 ^ k)"
    using assms(1) by (intro bit_word_eqI) (auto simp: B dest: bf)
  show "(base OR fl) AND PCI_BASE_ADDRESS_MEM_MASK = base" "(base OR fl) AND NOT PCI_BASE_ADDRESS_MEM_MASK = fl"
    using assms(1) by (intro bit_word_eqI; auto simp: B dest: bb bf)+
  show "(base OR fl) AND 1 = 0" "(base OR fl) AND 7 = 0"
    unfolding masks using assms(1) by (intro bit_word_eqI; auto simp: bit_simps dest: bb bf)+
  show "\<not> bit (base OR fl) 0" "\<not> bit (- (2 ^ k) OR fl) 0" "bit (- (2 ^ k) OR fl) k"
    using assms(1,2) by (auto simp: B dest: bb bf)
  show "((- (2 ^ k) OR fl) OR (2 ^ k - 1)) AND PCI_BASE_ADDRESS_MEM_MASK = PCI_BASE_ADDRESS_MEM_MASK"
    using assms(1) by (intro bit_word_eqI) (auto simp: B)
qed

section \<open>Properties\<close>

text \<open>
  Property C25.  Probing the base address registers leaves no trace in configuration space: on a
  function without 64-bit memory registers, \<open>pci_read_bases\<close> (all six registers and the ROM register)
  ends with every register holding the value it had before.
\<close>

theorem pci_read_bases_restores_config:
  assumes "config_space K dev cfg w" and "howmany \<le> 6" and "\<forall>p < 6. cfg (kit s) (bar_reg p) AND 7 \<noteq> 4"
    and "rom AND 3 = 0"
  shows "cfg (kit (snd (pci_read_bases K howmany rom dev s))) = cfg (kit s)"
proof -
  obtain dev' s' where l: "read_bases_loop K howmany 0 dev s = (dev', s')" by (metis prod.collapse)
  have keep: "cfg (kit s') = cfg (kit s)" "pd_bus dev' = pd_bus dev" "pd_devfn dev' = pd_devfn dev"
    using read_bases_loop_keeps_config [OF assms(1-3), of 0] by (simp_all add: l)
  let ?d = "dev'\<lparr>pd_rom_base_reg := rom\<rparr>"
  have "config_space K ?d cfg w" using assms(1) keep by (simp add: config_space_def)
  note P = probe_reg_result(2) [OF this assms(4), of "- 2" s']
  obtain r sz s2 where p: "probe_reg K ?d rom (- 2) s' = ((r, sz), s2)" by (metis prod.collapse)
  have "cfg (kit s2) = cfg (kit s)" using P keep(1) by (simp add: p)
  with keep(1) show ?thesis
    by (simp add: pci_read_bases_def l read_rom_base_def p Let_def)
qed

definition pci_example :: pci_dev where
  "pci_example = \<lparr>pd_bus = 0, pd_devfn = 8, pd_resource = replicate 12 \<lparr>r_start = 0, r_end = 0, r_flags = 0\<rparr>,
     pd_rom_base_reg = 0\<rparr>"

abbreviation pci_sim_kit :: "(sim, sim dde_base) dde_kit" where
  "pci_sim_kit \<equiv> sim_kit"

abbreviation pci_sim_state :: "sim dde_base" where
  "pci_sim_state \<equiv> \<lparr>kit = sim_init, mem = (\<lambda>_. 0)\<rparr>"

lemma pci_example_config: "config_space pci_sim_kit pci_example sim_cfg sim_writable"
  by (simp add: config_space_def sim_kit_def)

theorem pci_read_bases_restores_config_witness:
  "sim_cfg (kit (snd (pci_read_bases pci_sim_kit 6 0x30 pci_example pci_sim_state))) = sim_cfg sim_init"
  using pci_read_bases_restores_config [OF pci_example_config, of 6 pci_sim_state "0x30"]
  by (simp add: sim_init_def)



end
