(* ===== verification/Input.thy ===== *)
theory Input
  imports Timer_Sched
begin

text \<open>
  The Linux input core, \<open>drivers/input/input.c\<close>: event filtering, key repeat, grabbing, and the
  registration of devices and handlers.  Bit arrays are predicates on bit numbers.  Drivers and
  handlers hand function pointers to the core; \<open>input_code\<close> is their meaning.  The device mutex is
  never contended within one operation and no signal interrupts its acquisition.
\<close>

section \<open>Data\<close>

record input_dev =
  dv_bustype :: u16
  dv_vendor :: u16
  dv_product :: u16
  dv_version :: u16
  dv_evbit :: "nat \<Rightarrow> bool"
  dv_keybit :: "nat \<Rightarrow> bool"
  dv_relbit :: "nat \<Rightarrow> bool"
  dv_absbit :: "nat \<Rightarrow> bool"
  dv_mscbit :: "nat \<Rightarrow> bool"
  dv_ledbit :: "nat \<Rightarrow> bool"
  dv_sndbit :: "nat \<Rightarrow> bool"
  dv_ffbit :: "nat \<Rightarrow> bool"
  dv_swbit :: "nat \<Rightarrow> bool"
  dv_repeat_key :: nat
  dv_timer :: timer_list
  dv_sync :: bool
  dv_abs :: "nat \<Rightarrow> int"
  dv_rep :: "nat \<Rightarrow> int"
  dv_key :: "nat \<Rightarrow> bool"
  dv_led :: "nat \<Rightarrow> bool"
  dv_snd :: "nat \<Rightarrow> bool"
  dv_sw :: "nat \<Rightarrow> bool"
  dv_absfuzz :: "nat \<Rightarrow> int"
  dv_open :: addr
  dv_close :: addr
  dv_event :: addr
  dv_grab :: addr
  dv_users :: u32
  dv_h_list :: "addr list"

record input_handle =
  ih_private :: addr
  ih_open :: int
  ih_dev :: addr
  ih_handler :: addr

record input_device_id =
  id_flags :: u32
  id_bustype :: u16
  id_vendor :: u16
  id_product :: u16
  id_version :: u16
  id_evbit :: "nat \<Rightarrow> bool"
  id_keybit :: "nat \<Rightarrow> bool"
  id_relbit :: "nat \<Rightarrow> bool"
  id_absbit :: "nat \<Rightarrow> bool"
  id_mscbit :: "nat \<Rightarrow> bool"
  id_ledbit :: "nat \<Rightarrow> bool"
  id_sndbit :: "nat \<Rightarrow> bool"
  id_ffbit :: "nat \<Rightarrow> bool"
  id_swbit :: "nat \<Rightarrow> bool"
  id_driver_info :: u32

record input_handler =
  hd_event :: addr
  hd_connect :: addr
  hd_disconnect :: addr
  hd_start :: addr
  hd_fops :: addr
  hd_minor :: nat
  hd_id_table :: "input_device_id list"
  hd_blacklist :: "input_device_id list option"
  hd_h_list :: "addr list"

record 'k input_state = "'k sched_state" +
  input_devs :: "addr \<rightharpoonup> input_dev"
  input_handles :: "addr \<rightharpoonup> input_handle"
  input_handlers :: "addr \<rightharpoonup> input_handler"
  input_dev_list :: "addr list"
  input_handler_list :: "addr list"
  input_table :: "nat \<Rightarrow> addr"

type_synonym ('k, 'z) nstate = "('k, 'z) input_state_scheme"
type_synonym ('k, 'z) nkit = "('k, ('k, 'z) input_state_scheme) dde_kit"

record 's input_code =
  ic_dev_event :: "addr \<Rightarrow> addr \<Rightarrow> nat \<Rightarrow> nat \<Rightarrow> int \<Rightarrow> 's \<Rightarrow> 's option"
  ic_dev_open :: "addr \<Rightarrow> addr \<Rightarrow> 's \<Rightarrow> (int \<times> 's) option"
  ic_dev_close :: "addr \<Rightarrow> addr \<Rightarrow> 's \<Rightarrow> 's option"
  ic_event :: "addr \<Rightarrow> addr \<Rightarrow> nat \<Rightarrow> nat \<Rightarrow> int \<Rightarrow> 's \<Rightarrow> 's option"
  ic_connect :: "addr \<Rightarrow> addr \<Rightarrow> addr \<Rightarrow> 's \<Rightarrow> (addr \<times> 's) option"
  ic_disconnect :: "addr \<Rightarrow> addr \<Rightarrow> 's \<Rightarrow> 's option"
  ic_start :: "addr \<Rightarrow> addr \<Rightarrow> 's \<Rightarrow> 's option"

abbreviation (input) EV_SYN :: nat where "EV_SYN \<equiv> 0"
abbreviation (input) EV_KEY :: nat where "EV_KEY \<equiv> 1"
abbreviation (input) EV_REL :: nat where "EV_REL \<equiv> 2"
abbreviation (input) EV_ABS :: nat where "EV_ABS \<equiv> 3"
abbreviation (input) EV_MSC :: nat where "EV_MSC \<equiv> 4"
abbreviation (input) EV_SW :: nat where "EV_SW \<equiv> 5"
abbreviation (input) EV_LED :: nat where "EV_LED \<equiv> 0x11"
abbreviation (input) EV_SND :: nat where "EV_SND \<equiv> 0x12"
abbreviation (input) EV_REP :: nat where "EV_REP \<equiv> 0x14"
abbreviation (input) EV_FF :: nat where "EV_FF \<equiv> 0x15"
abbreviation (input) EV_MAX :: nat where "EV_MAX \<equiv> 0x1F"
abbreviation (input) KEY_MAX :: nat where "KEY_MAX \<equiv> 0x1FF"
abbreviation (input) REL_MAX :: nat where "REL_MAX \<equiv> 0xF"
abbreviation (input) ABS_MAX :: nat where "ABS_MAX \<equiv> 0x3F"
abbreviation (input) SW_MAX :: nat where "SW_MAX \<equiv> 0xF"
abbreviation (input) MSC_MAX :: nat where "MSC_MAX \<equiv> 7"
abbreviation (input) LED_MAX :: nat where "LED_MAX \<equiv> 0xF"
abbreviation (input) SND_MAX :: nat where "SND_MAX \<equiv> 7"
abbreviation (input) REP_MAX :: nat where "REP_MAX \<equiv> 1"
abbreviation (input) FF_MAX :: nat where "FF_MAX \<equiv> 0x7F"
abbreviation (input) SYN_REPORT :: nat where "SYN_REPORT \<equiv> 0"
abbreviation (input) SYN_CONFIG :: nat where "SYN_CONFIG \<equiv> 1"
abbreviation (input) REP_DELAY :: nat where "REP_DELAY \<equiv> 0"
abbreviation (input) REP_PERIOD :: nat where "REP_PERIOD \<equiv> 1"

section \<open>Filtering events\<close>

text \<open>\<open>msecs_to_jiffies\<close> of \<open>linux/jiffies.h\<close> for \<open>HZ = 100\<close>.\<close>

definition msecs_to_jiffies :: "u32 \<Rightarrow> u32" where
  "msecs_to_jiffies m = (if 10 * 0x7FFFFFFE < m then 0x7FFFFFFE else (m + 10 - 1) div 10)"

text \<open>The smoothing of absolute axes against the last reported value.\<close>

definition abs_defuzz :: "int \<Rightarrow> int \<Rightarrow> int \<Rightarrow> int option" where
  "abs_defuzz fuzz old value =
     (if fuzz \<noteq> 0 then
        if old - drop_bit 1 fuzz < value \<and> value < old + drop_bit 1 fuzz then None
        else let value = (if old - fuzz < value \<and> value < old + fuzz then drop_bit 2 (old * 3 + value) else value);
                 value = (if old - push_bit 1 fuzz < value \<and> value < old + push_bit 1 fuzz
                          then drop_bit 1 (old + value) else value)
             in Some value
      else Some value)"

text \<open>
  The \<open>switch\<close> of \<open>input_event\<close>: \<open>None\<close> is a \<open>return\<close> from the function; otherwise the updated device,
  the value to report, and whether the driver's \<open>event\<close> function is called and the repeat timer armed.
\<close>

definition input_switch ::
  "nat \<Rightarrow> nat \<Rightarrow> int \<Rightarrow> input_dev \<Rightarrow> (input_dev \<times> int \<times> bool \<times> bool) option" where
  "input_switch type code value dev =
     (if type = EV_SYN then
        if code = SYN_CONFIG then Some (dev, value, True, False)
        else if code = SYN_REPORT then
          if dv_sync dev then None else Some (dev\<lparr>dv_sync := True\<rparr>, value, False, False)
        else Some (dev, value, False, False)
      else if type = EV_KEY then
        if KEY_MAX < code \<or> \<not> dv_keybit dev code \<or> (if dv_key dev code then 1 else 0) = value then None
        else if value = 2 then Some (dev, value, False, False)
        else Some (dev\<lparr>dv_key := (dv_key dev)(code := \<not> dv_key dev code)\<rparr>, value, False,
               dv_evbit dev EV_REP \<and> dv_rep dev REP_PERIOD \<noteq> 0 \<and> dv_rep dev REP_DELAY \<noteq> 0 \<and>
               tl_data (dv_timer dev) \<noteq> 0 \<and> value \<noteq> 0)
      else if type = EV_SW then
        if SW_MAX < code \<or> \<not> dv_swbit dev code \<or> (if dv_sw dev code then 1 else 0) = value then None
        else Some (dev\<lparr>dv_sw := (dv_sw dev)(code := \<not> dv_sw dev code)\<rparr>, value, False, False)
      else if type = EV_ABS then
        if ABS_MAX < code \<or> \<not> dv_absbit dev code then None
        else (case abs_defuzz (dv_absfuzz dev code) (dv_abs dev code) value of
            None \<Rightarrow> None
          | Some value \<Rightarrow> if dv_abs dev code = value then None
              else Some (dev\<lparr>dv_abs := (dv_abs dev)(code := value)\<rparr>, value, False, False))
      else if type = EV_REL then
        if REL_MAX < code \<or> \<not> dv_relbit dev code \<or> value = 0 then None
        else Some (dev, value, False, False)
      else if type = EV_MSC then
        if MSC_MAX < code \<or> \<not> dv_mscbit dev code then None
        else Some (dev, value, True, False)
      else if type = EV_LED then
        if LED_MAX < code \<or> \<not> dv_ledbit dev code \<or> (if dv_led dev code then 1 else 0) = value then None
        else Some (dev\<lparr>dv_led := (dv_led dev)(code := \<not> dv_led dev code)\<rparr>, value, True, False)
      else if type = EV_SND then
        if SND_MAX < code \<or> \<not> dv_sndbit dev code then None
        else Some (dev\<lparr>dv_snd := (dv_snd dev)(code := (value \<noteq> 0))\<rparr>, value, True, False)
      else if type = EV_REP then
        if REP_MAX < code \<or> value < 0 \<or> dv_rep dev code = value then None
        else Some (dev\<lparr>dv_rep := (dv_rep dev)(code := value)\<rparr>, value, True, False)
      else if type = EV_FF then
        if value < 0 then None else Some (dev, value, True, False)
      else Some (dev, value, False, False))"

definition put_dev :: "addr \<Rightarrow> input_dev \<Rightarrow> ('k, 'z) nstate \<Rightarrow> ('k, 'z) nstate" where
  "put_dev d dev s = s\<lparr>input_devs := (input_devs s)(d \<mapsto> dev)\<rparr>"

text \<open>Arming the repeat timer of a device after \<open>msecs\<close>.\<close>

definition arm_repeat ::
  "('k, 'z) nkit \<Rightarrow> addr \<Rightarrow> int \<Rightarrow> ('k, 'z) nstate \<Rightarrow> ('k, 'z) nstate option" where
  "arm_repeat K d msecs s = do {
     dev \<leftarrow> input_devs s d;
     (r, t, s) \<leftarrow> mod_timer K (dv_timer dev) (jiffies K (kit s) + msecs_to_jiffies (of_int msecs)) s;
     Some (put_dev d (dev\<lparr>dv_timer := t\<rparr>) s) }"

fun deliver ::
  "('k, 'z) nstate input_code \<Rightarrow> addr list \<Rightarrow> nat \<Rightarrow> nat \<Rightarrow> int \<Rightarrow> ('k, 'z) nstate \<Rightarrow> ('k, 'z) nstate option" where
  "deliver C [] type code value s = Some s"
| "deliver C (h # hs) type code value s = do {
     handle \<leftarrow> input_handles s h;
     s \<leftarrow> (if ih_open handle \<noteq> 0 then do {
              handler \<leftarrow> input_handlers s (ih_handler handle);
              ic_event C (hd_event handler) h type code value s }
           else Some s);
     deliver C hs type code value s }"

definition input_event ::
  "('k, 'z) nkit \<Rightarrow> ('k, 'z) nstate input_code \<Rightarrow> addr \<Rightarrow> nat \<Rightarrow> nat \<Rightarrow> int \<Rightarrow> ('k, 'z) nstate
   \<Rightarrow> ('k, 'z) nstate option" where
  "input_event K C d type code value s = do {
     dev \<leftarrow> input_devs s d;
     if EV_MAX < type \<or> \<not> dv_evbit dev type then Some s
     else case input_switch type code value dev of
       None \<Rightarrow> Some s
     | Some (dev, value, drv, arm) \<Rightarrow> do {
         let dev = (if arm then dev\<lparr>dv_repeat_key := code\<rparr> else dev);
         let s = put_dev d dev s;
         s \<leftarrow> (if arm then arm_repeat K d (dv_rep dev REP_DELAY) s else Some s);
         s \<leftarrow> (if drv \<and> dv_event dev \<noteq> 0 then ic_dev_event C (dv_event dev) d type code value s else Some s);
         dev \<leftarrow> input_devs s d;
         let dev = (if type \<noteq> EV_SYN then dev\<lparr>dv_sync := False\<rparr> else dev);
         let s = put_dev d dev s;
         if dv_grab dev \<noteq> 0 then do {
           handle \<leftarrow> input_handles s (dv_grab dev);
           handler \<leftarrow> input_handlers s (ih_handler handle);
           ic_event C (hd_event handler) (dv_grab dev) type code value s }
         else deliver C (dv_h_list dev) type code value s } }"

definition input_sync ::
  "('k, 'z) nkit \<Rightarrow> ('k, 'z) nstate input_code \<Rightarrow> addr \<Rightarrow> ('k, 'z) nstate \<Rightarrow> ('k, 'z) nstate option" where
  "input_sync K C d s = input_event K C d EV_SYN SYN_REPORT 0 s"

definition input_report_key ::
  "('k, 'z) nkit \<Rightarrow> ('k, 'z) nstate input_code \<Rightarrow> addr \<Rightarrow> nat \<Rightarrow> int \<Rightarrow> ('k, 'z) nstate \<Rightarrow> ('k, 'z) nstate option" where
  "input_report_key K C d code value s = input_event K C d EV_KEY code (if value \<noteq> 0 then 1 else 0) s"

definition input_inject_event ::
  "('k, 'z) nkit \<Rightarrow> ('k, 'z) nstate input_code \<Rightarrow> addr \<Rightarrow> nat \<Rightarrow> nat \<Rightarrow> int \<Rightarrow> ('k, 'z) nstate
   \<Rightarrow> ('k, 'z) nstate option" where
  "input_inject_event K C h type code value s = do {
     handle \<leftarrow> input_handles s h;
     dev \<leftarrow> input_devs s (ih_dev handle);
     if dv_grab dev = 0 \<or> dv_grab dev = h then input_event K C (ih_dev handle) type code value s else Some s }"

definition input_repeat_key ::
  "('k, 'z) nkit \<Rightarrow> ('k, 'z) nstate input_code \<Rightarrow> addr \<Rightarrow> ('k, 'z) nstate \<Rightarrow> ('k, 'z) nstate option" where
  "input_repeat_key K C d s = do {
     dev \<leftarrow> input_devs s d;
     if \<not> dv_key dev (dv_repeat_key dev) then Some s
     else do {
       s \<leftarrow> input_event K C d EV_KEY (dv_repeat_key dev) 2 s;
       s \<leftarrow> input_sync K C d s;
       dev \<leftarrow> input_devs s d;
       if dv_rep dev REP_PERIOD \<noteq> 0 then arm_repeat K d (dv_rep dev REP_PERIOD) s else Some s } }"

section \<open>Opening, closing and grabbing\<close>

definition input_grab_device :: "addr \<Rightarrow> ('k, 'z) nstate \<Rightarrow> (int \<times> ('k, 'z) nstate) option" where
  "input_grab_device h s = do {
     handle \<leftarrow> input_handles s h;
     dev \<leftarrow> input_devs s (ih_dev handle);
     if dv_grab dev \<noteq> 0 then Some (- EBUSY, s)
     else Some (0, put_dev (ih_dev handle) (dev\<lparr>dv_grab := h\<rparr>) s) }"

fun start_all :: "('k, 'z) nstate input_code \<Rightarrow> addr list \<Rightarrow> ('k, 'z) nstate \<Rightarrow> ('k, 'z) nstate option" where
  "start_all C [] s = Some s"
| "start_all C (h # hs) s = do {
     handle \<leftarrow> input_handles s h;
     handler \<leftarrow> input_handlers s (ih_handler handle);
     s \<leftarrow> (if hd_start handler \<noteq> 0 then ic_start C (hd_start handler) h s else Some s);
     start_all C hs s }"

definition input_release_device ::
  "('k, 'z) nstate input_code \<Rightarrow> addr \<Rightarrow> ('k, 'z) nstate \<Rightarrow> ('k, 'z) nstate option" where
  "input_release_device C h s = do {
     handle \<leftarrow> input_handles s h;
     dev \<leftarrow> input_devs s (ih_dev handle);
     if dv_grab dev = h
     then start_all C (dv_h_list dev) (put_dev (ih_dev handle) (dev\<lparr>dv_grab := 0\<rparr>) s)
     else Some s }"

definition put_handle :: "addr \<Rightarrow> input_handle \<Rightarrow> ('k, 'z) nstate \<Rightarrow> ('k, 'z) nstate" where
  "put_handle h x s = s\<lparr>input_handles := (input_handles s)(h \<mapsto> x)\<rparr>"

definition input_open_device ::
  "('k, 'z) nstate input_code \<Rightarrow> addr \<Rightarrow> ('k, 'z) nstate \<Rightarrow> (int \<times> ('k, 'z) nstate) option" where
  "input_open_device C h s = do {
     handle \<leftarrow> input_handles s h;
     let d = ih_dev handle;
     dev \<leftarrow> input_devs s d;
     let s = put_handle h (handle\<lparr>ih_open := ih_open handle + 1\<rparr>) s;
     let s = put_dev d (dev\<lparr>dv_users := dv_users dev + 1\<rparr>) s;
     (err, s) \<leftarrow> (if dv_users dev = 0 \<and> dv_open dev \<noteq> 0 then ic_dev_open C (dv_open dev) d s else Some (0, s));
     if err \<noteq> 0 then do {
       handle \<leftarrow> input_handles s h;
       Some (err, put_handle h (handle\<lparr>ih_open := ih_open handle - 1\<rparr>) s) }
     else Some (0, s) }"

definition input_close_device ::
  "('k, 'z) nstate input_code \<Rightarrow> addr \<Rightarrow> ('k, 'z) nstate \<Rightarrow> ('k, 'z) nstate option" where
  "input_close_device C h s = do {
     handle \<leftarrow> input_handles s h;
     let d = ih_dev handle;
     s \<leftarrow> input_release_device C h s;
     dev \<leftarrow> input_devs s d;
     let dev = dev\<lparr>dv_users := dv_users dev - 1\<rparr>;
     let s = put_dev d dev s;
     s \<leftarrow> (if dv_users dev = 0 \<and> dv_close dev \<noteq> 0 then ic_dev_close C (dv_close dev) d s else Some s);
     handle \<leftarrow> input_handles s h;
     Some (put_handle h (handle\<lparr>ih_open := ih_open handle - 1\<rparr>) s) }"

section \<open>Matching and registration\<close>

definition input_link_handle :: "addr \<Rightarrow> ('k, 'z) nstate \<Rightarrow> ('k, 'z) nstate option" where
  "input_link_handle h s = do {
     handle \<leftarrow> input_handles s h;
     dev \<leftarrow> input_devs s (ih_dev handle);
     handler \<leftarrow> input_handlers s (ih_handler handle);
     let s = put_dev (ih_dev handle) (dev\<lparr>dv_h_list := dv_h_list dev @ [h]\<rparr>) s;
     Some (s\<lparr>input_handlers := (input_handlers s)(ih_handler handle \<mapsto> handler\<lparr>hd_h_list := hd_h_list handler @ [h]\<rparr>)\<rparr>) }"

text \<open>\<open>list_del_init\<close> of both nodes of a handle.\<close>

definition unlink_handle :: "addr \<Rightarrow> ('k, 'z) nstate \<Rightarrow> ('k, 'z) nstate option" where
  "unlink_handle h s = do {
     handle \<leftarrow> input_handles s h;
     dev \<leftarrow> input_devs s (ih_dev handle);
     handler \<leftarrow> input_handlers s (ih_handler handle);
     let s = put_dev (ih_dev handle) (dev\<lparr>dv_h_list := remove1 h (dv_h_list dev)\<rparr>) s;
     Some (s\<lparr>input_handlers := (input_handlers s)(ih_handler handle \<mapsto> handler\<lparr>hd_h_list := remove1 h (hd_h_list handler)\<rparr>)\<rparr>) }"

text \<open>\<open>MATCH_BIT\<close> compares \<open>NBITS(max)\<close> whole words.\<close>

definition match_bit :: "(nat \<Rightarrow> bool) \<Rightarrow> (nat \<Rightarrow> bool) \<Rightarrow> nat \<Rightarrow> bool" where
  "match_bit idb devb mx = list_all (\<lambda>b. idb b \<longrightarrow> devb b) [0..<32 * (mx div 32 + 1)]"

fun input_match_device :: "input_device_id list \<Rightarrow> input_dev \<Rightarrow> input_device_id option" where
  "input_match_device [] dev = None"
| "input_match_device (i # ids) dev =
     (if id_flags i = 0 \<and> id_driver_info i = 0 then None
      else if bit (id_flags i) 0 \<and> id_bustype i \<noteq> dv_bustype dev then input_match_device ids dev
      else if bit (id_flags i) 1 \<and> id_vendor i \<noteq> dv_vendor dev then input_match_device ids dev
      else if bit (id_flags i) 2 \<and> id_product i \<noteq> dv_product dev then input_match_device ids dev
      else if bit (id_flags i) 3 \<and> id_version i \<noteq> dv_version dev then input_match_device ids dev
      else if \<not> match_bit (id_evbit i) (dv_evbit dev) EV_MAX then input_match_device ids dev
      else if \<not> match_bit (id_keybit i) (dv_keybit dev) KEY_MAX then input_match_device ids dev
      else if \<not> match_bit (id_relbit i) (dv_relbit dev) REL_MAX then input_match_device ids dev
      else if \<not> match_bit (id_absbit i) (dv_absbit dev) ABS_MAX then input_match_device ids dev
      else if \<not> match_bit (id_mscbit i) (dv_mscbit dev) MSC_MAX then input_match_device ids dev
      else if \<not> match_bit (id_ledbit i) (dv_ledbit dev) LED_MAX then input_match_device ids dev
      else if \<not> match_bit (id_sndbit i) (dv_sndbit dev) SND_MAX then input_match_device ids dev
      else if \<not> match_bit (id_ffbit i) (dv_ffbit dev) FF_MAX then input_match_device ids dev
      else if \<not> match_bit (id_swbit i) (dv_swbit dev) SW_MAX then input_match_device ids dev
      else Some i)"

text \<open>The body both registration loops run for a handler and a device.\<close>

definition connect_pair ::
  "('k, 'z) nstate input_code \<Rightarrow> addr \<Rightarrow> addr \<Rightarrow> ('k, 'z) nstate \<Rightarrow> ('k, 'z) nstate option" where
  "connect_pair C hr d s = do {
     handler \<leftarrow> input_handlers s hr;
     dev \<leftarrow> input_devs s d;
     if (case hd_blacklist handler of None \<Rightarrow> True | Some bl \<Rightarrow> input_match_device bl dev = None) \<and>
        input_match_device (hd_id_table handler) dev \<noteq> None
     then do {
       (h, s) \<leftarrow> ic_connect C (hd_connect handler) hr d s;
       if h \<noteq> 0 then do {
         s \<leftarrow> input_link_handle h s;
         if hd_start handler \<noteq> 0 then ic_start C (hd_start handler) h s else Some s }
       else Some s }
     else Some s }"

fun connect_handlers ::
  "('k, 'z) nstate input_code \<Rightarrow> addr \<Rightarrow> addr list \<Rightarrow> ('k, 'z) nstate \<Rightarrow> ('k, 'z) nstate option" where
  "connect_handlers C d [] s = Some s"
| "connect_handlers C d (hr # hrs) s = do { s \<leftarrow> connect_pair C hr d s; connect_handlers C d hrs s }"

fun connect_devices ::
  "('k, 'z) nstate input_code \<Rightarrow> addr \<Rightarrow> addr list \<Rightarrow> ('k, 'z) nstate \<Rightarrow> ('k, 'z) nstate option" where
  "connect_devices C hr [] s = Some s"
| "connect_devices C hr (d # ds) s = do { s \<leftarrow> connect_pair C hr d s; connect_devices C hr ds s }"

text \<open>
  \<open>sysfs\<close> lists the results of \<open>class_device_add\<close> and of the three \<open>sysfs_create_group\<close> calls; the first
  one that is not \<open>0\<close> makes the function return it.
\<close>

definition input_register_device ::
  "('k, 'z) nkit \<Rightarrow> ('k, 'z) nstate input_code \<Rightarrow> int list \<Rightarrow> addr \<Rightarrow> ('k, 'z) nstate
   \<Rightarrow> (int \<times> ('k, 'z) nstate) option" where
  "input_register_device K C sysfs d s = do {
     dev \<leftarrow> input_devs s d;
     let dev = dev\<lparr>dv_evbit := (dv_evbit dev)(EV_SYN := True)\<rparr>;
     let dev = (if dv_rep dev REP_DELAY = 0 \<and> dv_rep dev REP_PERIOD = 0 then
         dev\<lparr>dv_timer := (dv_timer dev)\<lparr>tl_data := d, tl_function := symbol K ''input_repeat_key''\<rparr>,
             dv_rep := (dv_rep dev)(REP_DELAY := 250, REP_PERIOD := 33)\<rparr> else dev);
     let s = put_dev d dev s;
     let s = s\<lparr>input_dev_list := input_dev_list s @ [d]\<rparr>;
     case find (\<lambda>e. e \<noteq> 0) sysfs of
       Some e \<Rightarrow> Some (e, s)
     | None \<Rightarrow> do {
         s \<leftarrow> connect_handlers C d (input_handler_list s) s;
         Some (0, s) } }"

fun release_keys ::
  "('k, 'z) nkit \<Rightarrow> ('k, 'z) nstate input_code \<Rightarrow> addr \<Rightarrow> nat list \<Rightarrow> ('k, 'z) nstate \<Rightarrow> ('k, 'z) nstate option" where
  "release_keys K C d [] s = Some s"
| "release_keys K C d (code # codes) s = do {
     dev \<leftarrow> input_devs s d;
     s \<leftarrow> (if dv_key dev code then input_report_key K C d code 0 s else Some s);
     release_keys K C d codes s }"

fun disconnect_all ::
  "('k, 'z) nstate input_code \<Rightarrow> addr list \<Rightarrow> ('k, 'z) nstate \<Rightarrow> ('k, 'z) nstate option" where
  "disconnect_all C [] s = Some s"
| "disconnect_all C (h # hs) s = do {
     handle \<leftarrow> input_handles s h;
     handler \<leftarrow> input_handlers s (ih_handler handle);
     s \<leftarrow> unlink_handle h s;
     s \<leftarrow> ic_disconnect C (hd_disconnect handler) h s;
     disconnect_all C hs s }"

definition input_unregister_device ::
  "('k, 'z) nkit \<Rightarrow> ('k, 'z) nstate input_code \<Rightarrow> addr \<Rightarrow> ('k, 'z) nstate \<Rightarrow> ('k, 'z) nstate option" where
  "input_unregister_device K C d s = do {
     s \<leftarrow> release_keys K C d [0..<KEY_MAX + 1] s;
     s \<leftarrow> input_sync K C d s;
     dev \<leftarrow> input_devs s d;
     (r, t, s) \<leftarrow> del_timer_sync K (dv_timer dev) s;
     let s = put_dev d (dev\<lparr>dv_timer := t\<rparr>) s;
     s \<leftarrow> disconnect_all C (dv_h_list dev) s;
     Some (s\<lparr>input_dev_list := remove1 d (input_dev_list s)\<rparr>) }"

definition input_register_handler ::
  "('k, 'z) nstate input_code \<Rightarrow> addr \<Rightarrow> ('k, 'z) nstate \<Rightarrow> (int \<times> ('k, 'z) nstate) option" where
  "input_register_handler C hr s = do {
     handler \<leftarrow> input_handlers s hr;
     let s = s\<lparr>input_handlers := (input_handlers s)(hr \<mapsto> handler\<lparr>hd_h_list := []\<rparr>)\<rparr>;
     if hd_fops handler \<noteq> 0 \<and> input_table s (drop_bit 5 (hd_minor handler)) \<noteq> 0 then Some (- EBUSY, s)
     else do {
       let s = (if hd_fops handler \<noteq> 0
                then s\<lparr>input_table := (input_table s)(drop_bit 5 (hd_minor handler) := hr)\<rparr> else s);
       let s = s\<lparr>input_handler_list := input_handler_list s @ [hr]\<rparr>;
       s \<leftarrow> connect_devices C hr (input_dev_list s) s;
       Some (0, s) } }"

definition input_unregister_handler ::
  "('k, 'z) nstate input_code \<Rightarrow> addr \<Rightarrow> ('k, 'z) nstate \<Rightarrow> ('k, 'z) nstate option" where
  "input_unregister_handler C hr s = do {
     handler \<leftarrow> input_handlers s hr;
     s \<leftarrow> disconnect_all C (hd_h_list handler) s;
     let s = s\<lparr>input_handler_list := remove1 hr (input_handler_list s)\<rparr>;
     Some (if hd_fops handler \<noteq> 0
           then s\<lparr>input_table := (input_table s)(drop_bit 5 (hd_minor handler) := 0)\<rparr> else s) }"

section \<open>Facts about the filter\<close>

lemma put_dev_simps [simp]:
  "input_devs (put_dev d dev s) = (input_devs s)(d \<mapsto> dev)" "input_handles (put_dev d dev s) = input_handles s"
  "input_handlers (put_dev d dev s) = input_handlers s" "timer_initialized (put_dev d dev s) = timer_initialized s"
  "input_dev_list (put_dev d dev s) = input_dev_list s" "input_handler_list (put_dev d dev s) = input_handler_list s"
  "input_table (put_dev d dev s) = input_table s" "kit (put_dev d dev s) = kit s"
  "input_state.more (put_dev d dev s) = input_state.more s"
  by (simp_all add: put_dev_def)

lemma put_handle_simps [simp]:
  "input_devs (put_handle h x s) = input_devs s" "input_handles (put_handle h x s) = (input_handles s)(h \<mapsto> x)"
  "input_handlers (put_handle h x s) = input_handlers s" "timer_initialized (put_handle h x s) = timer_initialized s"
  "input_dev_list (put_handle h x s) = input_dev_list s" "input_handler_list (put_handle h x s) = input_handler_list s"
  "input_table (put_handle h x s) = input_table s" "kit (put_handle h x s) = kit s"
  "input_state.more (put_handle h x s) = input_state.more s"
  by (simp_all add: put_handle_def)

text \<open>What the core never changes of a device while it filters an event.\<close>

definition same_setup :: "input_dev \<Rightarrow> input_dev \<Rightarrow> bool" where
  "same_setup a b \<longleftrightarrow> dv_evbit b = dv_evbit a \<and> dv_keybit b = dv_keybit a \<and> dv_grab b = dv_grab a \<and>
     dv_h_list b = dv_h_list a \<and> dv_users b = dv_users a \<and> dv_event b = dv_event a"

lemma same_setup_trans: "same_setup a b \<Longrightarrow> same_setup b c \<Longrightarrow> same_setup a c"
  by (simp add: same_setup_def)

lemma input_switch_setup:
  "input_switch t c v dev = Some (dev', v', drv, arm) \<Longrightarrow> same_setup dev dev'"
  by (auto simp: input_switch_def same_setup_def split: if_splits option.splits)

lemma input_switch_key:
  "input_switch t c v dev = Some (dev', v', drv, arm) \<Longrightarrow>
     dv_key dev' = (if t = EV_KEY \<and> v \<noteq> 2 then (dv_key dev)(c := \<not> dv_key dev c) else dv_key dev)"
  by (auto simp: input_switch_def split: if_splits option.splits)

lemma input_switch_EV_KEY:
  "input_switch EV_KEY c v dev = Some (dev', v', drv, arm) \<Longrightarrow>
     v' = v \<and> c \<le> KEY_MAX \<and> dv_keybit dev c \<and> v \<noteq> (if dv_key dev c then 1 else 0)"
  by (auto simp: input_switch_def split: if_splits)

lemma abs_defuzz_between:
  assumes "0 \<le> fuzz" "abs_defuzz fuzz old v = Some v'"
  shows "min old v \<le> v' \<and> v' \<le> max old v"
proof -
  have q: "min old x \<le> drop_bit 2 (old * 3 + x) \<and> drop_bit 2 (old * 3 + x) \<le> max old x"
    and h: "min old x \<le> drop_bit 1 (old + x) \<and> drop_bit 1 (old + x) \<le> max old x" for x :: int
    by (auto simp: drop_bit_eq_div min_def max_def)
  show ?thesis
    using assms(2) q [of v] h [of v] h [of "drop_bit 2 (old * 3 + v)"]
    unfolding abs_defuzz_def Let_def by (auto split: if_splits)
qed

lemma kit_update_const: "kit_update f s = s\<lparr>kit := f (kit s)\<rparr>"
  by (cases s) simp

lemma del_timer_total:
  assumes "timer_initialized s"
  obtains r t' k where "del_timer K t s = Some (r, t', s\<lparr>kit := k\<rparr>)"
proof (cases "tl_dde_kit_timer t = 0")
  case True
  then show ?thesis using assms that [of 0 t "kit s"] by (simp add: del_timer_def check_initvar_def)
next
  case False
  then show ?thesis
    using assms that [of _ _ "timer_del K (tl_dde_kit_timer t) (kit s)"]
    by (simp add: del_timer_def check_initvar_def kit_update_const [of "timer_del K (tl_dde_kit_timer t)"])
qed

lemma mod_timer_total:
  assumes "timer_initialized s"
  obtains r t' k where "mod_timer K t x s = Some (r, t', s\<lparr>kit := k\<rparr>)"
proof -
  obtain r t' k where "del_timer K t s = Some (r, t', s\<lparr>kit := k\<rparr>)"
    by (rule del_timer_total [OF assms])
  then show ?thesis
    using assms that by (simp add: mod_timer_def mod_timer_internal_def add_timer_def check_initvar_def kcall_def)
qed

text \<open>A driver whose \<open>event\<close> function drives its hardware only.\<close>

definition driver_ok :: "('k, 'z) nstate input_code \<Rightarrow> bool" where
  "driver_ok C \<longleftrightarrow> (\<forall>a d t c v s. \<exists>k. ic_dev_event C a d t c v s = Some (s\<lparr>kit := k\<rparr>))"

text \<open>
  Everything \<open>input_event\<close> does before it hands the event on: it drops it, or it reaches a state that
  differs in the device and the kit only.
\<close>

lemma input_event_cases:
  assumes dev: "input_devs s d = Some dev" and ti: "timer_initialized s" and ok: "driver_ok C"
  obtains "input_event K C d t c v s = Some s" "EV_MAX < t \<or> \<not> dv_evbit dev t \<or> input_switch t c v dev = None"
  | dev1 v' drv arm dev2 k where "t \<le> EV_MAX" "dv_evbit dev t" "input_switch t c v dev = Some (dev1, v', drv, arm)"
      "same_setup dev1 dev2" "dv_key dev2 = dv_key dev1"
      "input_event K C d t c v s =
         (let s' = put_dev d dev2 (s\<lparr>kit := k\<rparr>) in
          if dv_grab dev \<noteq> 0 then do {
            handle \<leftarrow> input_handles s (dv_grab dev);
            handler \<leftarrow> input_handlers s (ih_handler handle);
            ic_event C (hd_event handler) (dv_grab dev) t c v' s' }
          else deliver C (dv_h_list dev) t c v' s')"
proof (cases "EV_MAX < t \<or> \<not> dv_evbit dev t \<or> input_switch t c v dev = None")
  case True
  then show ?thesis using dev by (intro that(1)) (auto simp: input_event_def)
next
  case False
  then obtain dev1 v' drv arm where sw: "input_switch t c v dev = Some (dev1, v', drv, arm)"
    by (metis prod_cases4 not_None_eq)
  have su: "same_setup dev dev1" by (rule input_switch_setup [OF sw])
  define devr where "devr = (if arm then dev1\<lparr>dv_repeat_key := c\<rparr> else dev1)"
  obtain dev2 k2 where t: "(if arm then arm_repeat K d (dv_rep devr REP_DELAY) (put_dev d devr s) else Some (put_dev d devr s)) =
      Some (put_dev d dev2 (s\<lparr>kit := k2\<rparr>))" and d2: "same_setup dev1 dev2" "dv_key dev2 = dv_key dev1"
  proof (cases arm)
    case True
    obtain r t' k where "mod_timer K (dv_timer devr)
        (jiffies K (kit (put_dev d devr s)) + msecs_to_jiffies (of_int (dv_rep devr REP_DELAY))) (put_dev d devr s) =
        Some (r, t', (put_dev d devr s)\<lparr>kit := k\<rparr>)"
      by (rule mod_timer_total [of "put_dev d devr s"]) (use ti in auto)
    then show ?thesis using True
      by (intro that [of "devr\<lparr>dv_timer := t'\<rparr>" k]; cases s)
        (auto simp: arm_repeat_def put_dev_def devr_def same_setup_def)
  next
    case False
    then show ?thesis
      by (intro that [of devr "kit s"]) (auto simp: devr_def same_setup_def put_dev_def)
  qed
  obtain k3 where e: "(if drv \<and> dv_event devr \<noteq> 0 then ic_dev_event C (dv_event devr) d t c v' (put_dev d dev2 (s\<lparr>kit := k2\<rparr>))
      else Some (put_dev d dev2 (s\<lparr>kit := k2\<rparr>))) = Some (put_dev d dev2 (s\<lparr>kit := k3\<rparr>))"
  proof (cases "drv \<and> dv_event devr \<noteq> 0")
    case True
    obtain k where "ic_dev_event C (dv_event devr) d t c v' (put_dev d dev2 (s\<lparr>kit := k2\<rparr>)) =
        Some ((put_dev d dev2 (s\<lparr>kit := k2\<rparr>))\<lparr>kit := k\<rparr>)"
      using ok unfolding driver_ok_def by blast
    then show ?thesis using True that [of k] by (simp add: put_dev_def)
  next
    case False
    then show ?thesis using that by auto
  qed
  define dev3 where "dev3 = (if t \<noteq> EV_SYN then dev2\<lparr>dv_sync := False\<rparr> else dev2)"
  have p: "put_dev d dev3 (put_dev d dev2 (s\<lparr>kit := k3\<rparr>)) = put_dev d dev3 (s\<lparr>kit := k3\<rparr>)"
    by (simp add: put_dev_def)
  show ?thesis
  proof (rule that(2) [OF _ _ sw, of dev3 k3])
    show "same_setup dev1 dev3" "dv_key dev3 = dv_key dev1"
      using d2 by (simp_all add: dev3_def same_setup_def)
    have "dv_grab dev3 = dv_grab dev" "dv_h_list dev3 = dv_h_list dev"
      using d2 su by (simp_all add: dev3_def same_setup_def)
    then show "input_event K C d t c v s =
         (let s' = put_dev d dev3 (s\<lparr>kit := k3\<rparr>) in
          if dv_grab dev \<noteq> 0 then do {
            handle \<leftarrow> input_handles s (dv_grab dev);
            handler \<leftarrow> input_handlers s (ih_handler handle);
            ic_event C (hd_event handler) (dv_grab dev) t c v' s' }
          else deliver C (dv_h_list dev) t c v' s')"
      using dev False sw t [unfolded devr_def] e [unfolded devr_def] p
      by (cases "t = EV_SYN"; cases arm; cases drv; cases "dv_event dev1 = 0")
        (simp_all add: input_event_def Let_def dev3_def)
  qed (use False in auto)
qed

end
