(* ===== verification/Evdev.thy ===== *)
theory Evdev
  imports Input
begin

text \<open>
  The event device that hands input events to the host, \<open>arch/dde_kit/evdev.c\<close>: a table of 16
  devices, each with the handle the input core knows it by, and the translation of events into
  calls of the host's callback.  \<open>input_code\<close> of the core is completed by the handler's own functions.
\<close>

section \<open>Data\<close>

datatype dde_linux26_input_event =
  EVENT_TYPE_PRESS | EVENT_TYPE_RELEASE | EVENT_TYPE_MOTION | EVENT_TYPE_WHEEL

type_synonym host_event = "dde_linux26_input_event \<times> nat \<times> int \<times> int \<times> int \<times> int"

record evdev =
  ev_exists :: int
  ev_isopen :: int
  ev_devn :: nat
  ev_name :: string

record 'k evdev_state = "'k input_state" +
  evdev_devices :: "addr \<Rightarrow> evdev"
  callback :: addr

type_synonym ('k, 'z) estate = "('k, 'z) evdev_state_scheme"
type_synonym ('k, 'z) ekit = "('k, ('k, 'z) evdev_state_scheme) dde_kit"
type_synonym ('k, 'z) ecb = "addr \<Rightarrow> host_event \<Rightarrow> ('k, 'z) estate \<Rightarrow> ('k, 'z) estate option"

abbreviation (input) EVDEV_DEVICES :: nat where "EVDEV_DEVICES \<equiv> 16"
abbreviation (input) KEY_UNKNOWN :: nat where "KEY_UNKNOWN \<equiv> 240"
abbreviation (input) ABS_X :: nat where "ABS_X \<equiv> 0"
abbreviation (input) ABS_Y :: nat where "ABS_Y \<equiv> 1"
abbreviation (input) ABS_WHEEL :: nat where "ABS_WHEEL \<equiv> 8"
abbreviation (input) REL_X :: nat where "REL_X \<equiv> 0"
abbreviation (input) REL_Y :: nat where "REL_Y \<equiv> 1"
abbreviation (input) REL_HWHEEL :: nat where "REL_HWHEEL \<equiv> 6"
abbreviation (input) REL_WHEEL :: nat where "REL_WHEEL \<equiv> 8"

text \<open>
  \<open>struct evdev\<close> takes 64 bytes on the 32-bit target: three \<open>int\<close>s, the name, and at offset 28 the
  handle with its five words and two list nodes.
\<close>

definition evdev_slot :: "('k, 's) dde_kit \<Rightarrow> nat \<Rightarrow> addr" where
  "evdev_slot K n = symbol K ''evdev_devices'' + of_nat n * 64"

definition evdev_handle :: "addr \<Rightarrow> addr" where
  "evdev_handle e = e + 28"

text \<open>\<open>memset(evdev, 0, sizeof (struct evdev))\<close>.\<close>

definition evdev_clear :: "addr \<Rightarrow> ('k, 'z) estate \<Rightarrow> ('k, 'z) estate" where
  "evdev_clear e s = put_handle (evdev_handle e) \<lparr>ih_private = 0, ih_open = 0, ih_dev = 0, ih_handler = 0\<rparr>
     (s\<lparr>evdev_devices := (evdev_devices s)(e := \<lparr>ev_exists = 0, ev_isopen = 0, ev_devn = 0, ev_name = []\<rparr>)\<rparr>)"

section \<open>Operations\<close>

definition evdev_translate :: "nat \<Rightarrow> nat \<Rightarrow> int \<Rightarrow> host_event option" where
  "evdev_translate type code value =
     (if type = EV_KEY then
        if value = 0 then Some (EVENT_TYPE_RELEASE, code, 0, 0, 0, 0)
        else if value = 1 then Some (EVENT_TYPE_PRESS, code, 0, 0, 0, 0)
        else None
      else if type = EV_ABS then
        if code = ABS_X then Some (EVENT_TYPE_MOTION, KEY_UNKNOWN, value, 0, 0, 0)
        else if code = ABS_Y then Some (EVENT_TYPE_MOTION, KEY_UNKNOWN, 0, value, 0, 0)
        else if code = ABS_WHEEL then Some (EVENT_TYPE_WHEEL, KEY_UNKNOWN, 0, 0, 0, value)
        else None
      else if type = EV_REL then
        if code = REL_X then Some (EVENT_TYPE_MOTION, KEY_UNKNOWN, 0, 0, value, 0)
        else if code = REL_Y then Some (EVENT_TYPE_MOTION, KEY_UNKNOWN, 0, 0, 0, value)
        else if code = REL_HWHEEL then Some (EVENT_TYPE_WHEEL, KEY_UNKNOWN, 0, 0, value, 0)
        else if code = REL_WHEEL then Some (EVENT_TYPE_WHEEL, KEY_UNKNOWN, 0, 0, 0, value)
        else None
      else None)"

definition evdev_event_cb ::
  "('k, 'z) ecb \<Rightarrow> addr \<Rightarrow> nat \<Rightarrow> nat \<Rightarrow> int \<Rightarrow> ('k, 'z) estate \<Rightarrow> ('k, 'z) estate option" where
  "evdev_event_cb H h type code value s = do {
     handle \<leftarrow> input_handles s h;
     dev \<leftarrow> input_devs s (ih_dev handle);
     if dv_evbit dev EV_SND then Some s
     else if type = EV_KEY \<and> value = 2 then Some s
     else if type = EV_SYN then Some s
     else case evdev_translate type code value of
       None \<Rightarrow> Some s
     | Some e \<Rightarrow> if callback s \<noteq> 0 then H (callback s) e s else Some s }"

definition decimal :: "nat \<Rightarrow> string" where
  "decimal n = (if n < 10 then [char_of (48 + n)] else [char_of (48 + n div 10), char_of (48 + n mod 10)])"

definition evdev_connect ::
  "('k, 'z) ekit \<Rightarrow> ('k, 'z) estate input_code \<Rightarrow> addr \<Rightarrow> addr \<Rightarrow> ('k, 'z) estate
   \<Rightarrow> (addr \<times> ('k, 'z) estate) option" where
  "evdev_connect K C handler d s =
     (case find (\<lambda>n. ev_exists (evdev_devices s (evdev_slot K n)) = 0) [0..<EVDEV_DEVICES] of
        None \<Rightarrow> Some (0, s)
      | Some devn \<Rightarrow> do {
          let e = evdev_slot K devn;
          let s = evdev_clear e s;
          let s = s\<lparr>evdev_devices := (evdev_devices s)
                (e := \<lparr>ev_exists = 1, ev_isopen = 0, ev_devn = devn, ev_name = ''event'' @ decimal devn\<rparr>)\<rparr>;
          let s = put_handle (evdev_handle e) \<lparr>ih_private = e, ih_open = 0, ih_dev = d, ih_handler = handler\<rparr> s;
          (r, s) \<leftarrow> input_open_device C (evdev_handle e) s;
          Some (evdev_handle e, s) })"

definition evdev_disconnect ::
  "('k, 'z) ekit \<Rightarrow> ('k, 'z) estate input_code \<Rightarrow> addr \<Rightarrow> ('k, 'z) estate \<Rightarrow> ('k, 'z) estate option" where
  "evdev_disconnect K C h s = do {
     handle \<leftarrow> input_handles s h;
     let e = ih_private handle;
     let s = s\<lparr>evdev_devices := (evdev_devices s)(e := (evdev_devices s e)\<lparr>ev_exists := 0\<rparr>)\<rparr>;
     if ev_isopen (evdev_devices s e) \<noteq> 0 then input_close_device C h s
     else Some (evdev_clear (evdev_slot K (ev_devn (evdev_devices s e))) s) }"

definition evdev_ids :: "input_device_id list" where
  "evdev_ids =
    [\<lparr>id_flags = 0, id_bustype = 0, id_vendor = 0, id_product = 0, id_version = 0,
      id_evbit = \<lambda>_. False, id_keybit = \<lambda>_. False, id_relbit = \<lambda>_. False, id_absbit = \<lambda>_. False,
      id_mscbit = \<lambda>_. False, id_ledbit = \<lambda>_. False, id_sndbit = \<lambda>_. False, id_ffbit = \<lambda>_. False,
      id_swbit = \<lambda>_. False, id_driver_info = 1\<rparr>]"

definition evdev_handler :: "('k, 's) dde_kit \<Rightarrow> input_handler" where
  "evdev_handler K =
     \<lparr>hd_event = symbol K ''evdev_event_cb'', hd_connect = symbol K ''evdev_connect'',
      hd_disconnect = symbol K ''evdev_disconnect'', hd_start = 0, hd_fops = 0, hd_minor = 0,
      hd_id_table = evdev_ids, hd_blacklist = None, hd_h_list = []\<rparr>"

text \<open>The code of the drivers, \<open>C\<close>, linked with the functions of this handler.\<close>

definition evdev_code ::
  "('k, 'z) ekit \<Rightarrow> ('k, 'z) ecb \<Rightarrow> ('k, 'z) estate input_code \<Rightarrow> ('k, 'z) estate input_code" where
  "evdev_code K H C = C\<lparr>
     ic_event := (\<lambda>f h. if f = symbol K ''evdev_event_cb'' then evdev_event_cb H h else ic_event C f h),
     ic_connect := (\<lambda>f hr d. if f = symbol K ''evdev_connect'' then evdev_connect K C hr d else ic_connect C f hr d),
     ic_disconnect := (\<lambda>f h. if f = symbol K ''evdev_disconnect'' then evdev_disconnect K C h
                             else ic_disconnect C f h)\<rparr>"

definition dde_linux26_input_init ::
  "('k, 'z) ekit \<Rightarrow> ('k, 'z) ecb \<Rightarrow> ('k, 'z) estate input_code \<Rightarrow> addr \<Rightarrow> ('k, 'z) estate
   \<Rightarrow> (int \<times> ('k, 'z) estate) option" where
  "dde_linux26_input_init K H C cb s =
     (if cb = 0 then Some (- EINVAL, s)
      else do {
        let s = s\<lparr>callback := cb\<rparr>;
        (r, s) \<leftarrow> input_register_handler (evdev_code K H C) (symbol K ''evdev_handler'') s;
        Some (0, s) })"

definition dde_linux26_input_exit ::
  "('k, 'z) ekit \<Rightarrow> ('k, 'z) ecb \<Rightarrow> ('k, 'z) estate input_code \<Rightarrow> ('k, 'z) estate \<Rightarrow> ('k, 'z) estate option" where
  "dde_linux26_input_exit K H C s = input_unregister_handler (evdev_code K H C) (symbol K ''evdev_handler'') s"

definition register_chrdev :: "nat \<Rightarrow> string \<Rightarrow> addr \<Rightarrow> int" where
  "register_chrdev i n fops = 0"

section \<open>From raw events to host events\<close>

text \<open>A host callback that records what it is told in its own part of the state.\<close>

definition host_log :: "(host_event \<Rightarrow> 'z \<Rightarrow> 'z) \<Rightarrow> ('k, 'z) ecb" where
  "host_log f a e s = Some (evdev_state.more_update (f e) s)"

text \<open>A device with one opened evdev handle and no exclusive owner.\<close>

definition evdev_wired :: "('k, 'z) ekit \<Rightarrow> addr \<Rightarrow> addr \<Rightarrow> input_dev \<Rightarrow> ('k, 'z) estate \<Rightarrow> bool" where
  "evdev_wired K d h dev s \<longleftrightarrow>
     input_devs s d = Some dev \<and> timer_initialized s \<and> callback s \<noteq> 0 \<and> dv_grab dev = 0 \<and> dv_h_list dev = [h] \<and>
     \<not> dv_evbit dev EV_SND \<and>
     (case input_handles s h of None \<Rightarrow> False | Some handle \<Rightarrow>
        ih_open handle \<noteq> 0 \<and> ih_dev handle = d \<and>
        (case input_handlers s (ih_handler handle) of None \<Rightarrow> False | Some handler \<Rightarrow>
           hd_event handler = symbol K ''evdev_event_cb''))"

definition opt_list :: "'a option \<Rightarrow> 'a list" where
  "opt_list x = (case x of None \<Rightarrow> [] | Some y \<Rightarrow> [y])"

text \<open>The part of the state that delivering events leaves alone.\<close>

definition same_links :: "('k, 'z) estate \<Rightarrow> ('k, 'z) estate \<Rightarrow> bool" where
  "same_links s s' \<longleftrightarrow> input_handles s' = input_handles s \<and> input_handlers s' = input_handlers s \<and>
     input_dev_list s' = input_dev_list s \<and> evdev_devices s' = evdev_devices s \<and> callback s' = callback s"

lemma same_links_trans: "same_links a b \<Longrightarrow> same_links b c \<Longrightarrow> same_links a c"
  by (simp add: same_links_def)

lemma evdev_event_cb_log:
  assumes "evdev_wired K d h dev s"
  shows "evdev_event_cb (host_log f) h t c v s =
    Some (evdev_state.more_update (fold f (opt_list (evdev_translate t c v))) s)"
proof -
  have none: "evdev_translate EV_KEY c 2 = None" "evdev_translate EV_SYN c v = None"
    by (simp_all add: evdev_translate_def)
  obtain handle where h: "input_handles s h = Some handle" "input_devs s (ih_dev handle) = Some dev"
      "\<not> dv_evbit dev EV_SND" "callback s \<noteq> 0"
    using assms by (auto simp: evdev_wired_def split: option.splits)
  show ?thesis
  proof (cases "t = EV_KEY \<and> v = 2 \<or> t = EV_SYN")
    case True
    then show ?thesis using h none by (auto simp: evdev_event_cb_def opt_list_def)
  next
    case False
    then show ?thesis
      using h by (cases "evdev_translate t c v") (auto simp: evdev_event_cb_def host_log_def opt_list_def)
  qed
qed

lemma deliver_wired:
  assumes "evdev_wired K d h dev s"
  shows "deliver (evdev_code K (host_log f) C) [h] t c v s =
    Some (evdev_state.more_update (fold f (opt_list (evdev_translate t c v))) s)"
  using assms evdev_event_cb_log [OF assms]
  by (auto simp: evdev_wired_def evdev_code_def split: option.splits)

lemma driver_ok_evdev_code [simp]: "driver_ok (evdev_code K H C) = driver_ok C"
  by (simp add: driver_ok_def evdev_code_def)

lemma evdev_wired_put_dev:
  assumes "evdev_wired K d h dev s" "same_setup dev dev'"
  shows "evdev_wired K d h dev' (put_dev d dev' (s\<lparr>kit := k\<rparr>))"
  using assms by (auto simp: evdev_wired_def same_setup_def put_dev_def split: option.splits)

lemma evdev_event_step:
  assumes w: "evdev_wired K d h dev s" and ok: "driver_ok C"
  obtains s' dev' out where
    "input_event K (evdev_code K (host_log f) C) d t c v s = Some s'"
    "evdev_wired K d h dev' s'" "same_setup dev dev'" "same_links s s'"
    "evdev_state.more s' = fold f out (evdev_state.more s)"
    "(dev' = dev \<and> out = [] \<and> (EV_MAX < t \<or> \<not> dv_evbit dev t \<or> input_switch t c v dev = None)) \<or>
     (\<exists>dev1 v' drv arm. input_switch t c v dev = Some (dev1, v', drv, arm) \<and> dv_key dev' = dv_key dev1 \<and>
        out = opt_list (evdev_translate t c v'))"
proof -
  let ?C = "evdev_code K (host_log f) C"
  have dev: "input_devs s d = Some dev" and ti: "timer_initialized s"
    using w by (auto simp: evdev_wired_def)
  have ok': "driver_ok ?C" using ok by simp
  show thesis
  proof (cases rule: input_event_cases [OF dev ti ok', of K t c v])
    case 1
    then show ?thesis using w by (intro that [of s dev "[]"]) (auto simp: same_setup_def same_links_def)
  next
    case (2 dev1 v' drv arm dev2 k)
    have su: "same_setup dev dev2"
      using input_switch_setup [OF 2(3)] 2(4) by (rule same_setup_trans)
    have w2: "evdev_wired K d h dev2 (put_dev d dev2 (s\<lparr>kit := k\<rparr>))" (is "evdev_wired _ _ _ _ ?s")
      using w su by (rule evdev_wired_put_dev)
    let ?o = "opt_list (evdev_translate t c v')"
    have g: "dv_grab dev = 0" "dv_h_list dev = [h]"
      using w by (auto simp: evdev_wired_def)
    have "input_event K ?C d t c v s = deliver ?C [h] t c v' ?s"
      by (subst 2(6)) (simp add: g Let_def)
    then have ev: "input_event K ?C d t c v s = Some (evdev_state.more_update (fold f ?o) ?s)"
      using deliver_wired [OF w2] by simp
    show ?thesis
    proof (rule that [OF ev _ su])
      show "evdev_wired K d h dev2 (evdev_state.more_update (fold f ?o) ?s)"
        using w2 by (auto simp: evdev_wired_def split: option.splits)
    qed (use 2 in \<open>auto simp: same_links_def put_dev_def\<close>)
  qed
qed

section \<open>Key edges alternate\<close>

text \<open>The edges of key \<open>k\<close> the host is told of: \<open>True\<close> is a press.\<close>

definition key_edge :: "nat \<Rightarrow> host_event \<Rightarrow> bool option" where
  "key_edge k e = (case e of (ty, code, _) \<Rightarrow>
     if code = k \<and> ty = EVENT_TYPE_PRESS then Some True
     else if code = k \<and> ty = EVENT_TYPE_RELEASE then Some False else None)"

definition key_edges :: "nat \<Rightarrow> host_event list \<Rightarrow> bool list" where
  "key_edges k tr = List.map_filter (key_edge k) tr"

fun alternates :: "bool \<Rightarrow> bool list \<Rightarrow> bool" where
  "alternates b [] = True"
| "alternates b (x # xs) = (x \<noteq> b \<and> alternates x xs)"

definition last_edge :: "bool \<Rightarrow> bool list \<Rightarrow> bool" where
  "last_edge b xs = (if xs = [] then b else last xs)"

fun feed ::
  "('k, 'z) nkit \<Rightarrow> ('k, 'z) nstate input_code \<Rightarrow> addr \<Rightarrow> (nat \<times> nat \<times> int) list \<Rightarrow> ('k, 'z) nstate
   \<Rightarrow> ('k, 'z) nstate option" where
  "feed K C d [] s = Some s"
| "feed K C d ((t, c, v) # es) s = do { s \<leftarrow> input_event K C d t c v s; feed K C d es s }"

lemma key_edges_simps [simp]:
  "key_edges k [] = []" "key_edges k (xs @ ys) = key_edges k xs @ key_edges k ys"
  by (simp_all add: key_edges_def List.map_filter_def)

lemma alternates_append: "alternates b (xs @ ys) \<longleftrightarrow> alternates b xs \<and> alternates (last_edge b xs) ys"
  by (induction xs arbitrary: b) (auto simp: last_edge_def)

lemma last_edge_append: "last_edge b (xs @ ys) = last_edge (last_edge b xs) ys"
  by (simp add: last_edge_def)

lemma key_edges_translate:
  "key_edges k (opt_list (evdev_translate t c v)) =
     (if t = EV_KEY \<and> c = k \<and> v = 0 then [False] else if t = EV_KEY \<and> c = k \<and> v = 1 then [True] else [])"
proof -
  have nokey: "evdev_translate t c v = Some e \<Longrightarrow> t \<noteq> EV_KEY \<Longrightarrow> key_edge k e = None" for e
    by (simp add: evdev_translate_def split: if_splits) (auto simp: key_edge_def)
  show ?thesis
  proof (cases "t = EV_KEY")
    case True
    then show ?thesis
      by (auto simp: evdev_translate_def opt_list_def key_edges_def key_edge_def List.map_filter_def)
  next
    case False
    then show ?thesis
      using nokey by (cases "evdev_translate t c v") (simp_all add: opt_list_def key_edges_def List.map_filter_def)
  qed
qed

lemma evdev_step_edges:
  assumes "input_switch t c v dev = Some (dev1, v', drv, arm)" "t = EV_KEY \<longrightarrow> v \<in> {0, 1, 2}"
  shows "alternates (dv_key dev k) (key_edges k (opt_list (evdev_translate t c v'))) \<and>
    dv_key dev1 k = last_edge (dv_key dev k) (key_edges k (opt_list (evdev_translate t c v')))"
proof (cases "t = EV_KEY")
  case True
  then show ?thesis
    using assms input_switch_key [OF assms(1)] input_switch_EV_KEY [of c v dev dev1 v' drv arm]
    by (auto simp: key_edges_translate last_edge_def split: if_splits)
next
  case False
  then show ?thesis
    using input_switch_key [OF assms(1)] by (simp add: key_edges_translate last_edge_def)
qed

lemma feed_edges:
  assumes "evdev_wired K d h dev s" "driver_ok C" "\<forall>(t, c, v) \<in> set evs. t = EV_KEY \<longrightarrow> v \<in> {0, 1, 2}"
  shows "\<exists>s' dev' out. feed K (evdev_code K (host_log f) C) d evs s = Some s' \<and> evdev_wired K d h dev' s' \<and>
    evdev_state.more s' = fold f out (evdev_state.more s) \<and>
    (\<forall>k. alternates (dv_key dev k) (key_edges k out) \<and> dv_key dev' k = last_edge (dv_key dev k) (key_edges k out))"
  using assms
proof (induction evs arbitrary: s dev)
  case Nil
  then show ?case by (auto simp: last_edge_def intro!: exI [of _ s] exI [of _ dev] exI [of _ "[]"])
next
  case (Cons e es)
  obtain t c v where e: "e = (t, c, v)" by (cases e) auto
  obtain s1 dev1 out1 where 1: "input_event K (evdev_code K (host_log f) C) d t c v s = Some s1"
    "evdev_wired K d h dev1 s1" "evdev_state.more s1 = fold f out1 (evdev_state.more s)"
    and o1: "(dev1 = dev \<and> out1 = []) \<or>
     (\<exists>dev2 v' drv arm. input_switch t c v dev = Some (dev2, v', drv, arm) \<and> dv_key dev1 = dv_key dev2 \<and>
        out1 = opt_list (evdev_translate t c v'))"
    by (rule evdev_event_step [OF Cons.prems(1,2), of f t c v]) blast
  have k1: "alternates (dv_key dev k) (key_edges k out1) \<and> dv_key dev1 k = last_edge (dv_key dev k) (key_edges k out1)" for k
    using o1 evdev_step_edges [of t c v dev _ _ _ _ k] Cons.prems(3) e by (auto simp: last_edge_def)
  have "\<exists>s' dev' out. feed K (evdev_code K (host_log f) C) d es s1 = Some s' \<and> evdev_wired K d h dev' s' \<and>
    evdev_state.more s' = fold f out (evdev_state.more s1) \<and>
    (\<forall>k. alternates (dv_key dev1 k) (key_edges k out) \<and> dv_key dev' k = last_edge (dv_key dev1 k) (key_edges k out))"
    by (rule Cons.IH) (use 1(2) Cons.prems in auto)
  then obtain s' dev' out where "feed K (evdev_code K (host_log f) C) d es s1 = Some s'" "evdev_wired K d h dev' s'"
    "evdev_state.more s' = fold f out (evdev_state.more s1)"
    "\<And>k. alternates (dv_key dev1 k) (key_edges k out) \<and> dv_key dev' k = last_edge (dv_key dev1 k) (key_edges k out)"
    by blast
  then show ?case
    using 1 k1 e
    by (intro exI [of _ s'] exI [of _ dev'] exI [of _ "out1 @ out"]) (simp add: alternates_append last_edge_append)
qed

section \<open>Removing a device\<close>

text \<open>The evdev entry behind a handle.\<close>

definition evdev_entry :: "('k, 'z) ekit \<Rightarrow> addr \<Rightarrow> nat \<Rightarrow> ('k, 'z) estate \<Rightarrow> bool" where
  "evdev_entry K h n s \<longleftrightarrow> h = evdev_handle (evdev_slot K n) \<and>
     ev_devn (evdev_devices s (evdev_slot K n)) = n \<and> ev_isopen (evdev_devices s (evdev_slot K n)) = 0 \<and>
     (case input_handles s h of None \<Rightarrow> False | Some handle \<Rightarrow> ih_private handle = evdev_slot K n \<and>
        (case input_handlers s (ih_handler handle) of None \<Rightarrow> False | Some handler \<Rightarrow>
           hd_disconnect handler = symbol K ''evdev_disconnect''))"

text \<open>A key is only down when the device has it.\<close>

definition keys_ok :: "input_dev \<Rightarrow> bool" where
  "keys_ok dev \<longleftrightarrow> dv_evbit dev EV_KEY \<and> list_all (\<lambda>k. dv_key dev k \<longrightarrow> dv_keybit dev k) [0..<KEY_MAX + 1]"

abbreviation released :: "nat \<Rightarrow> host_event" where
  "released k \<equiv> (EVENT_TYPE_RELEASE, k, 0, 0, 0, 0)"

lemma release_one:
  assumes w: "evdev_wired K d h dev s" and ok: "driver_ok C" and k: "keys_ok dev" "dv_key dev c" "c \<le> KEY_MAX"
  obtains s' dev' where "input_report_key K (evdev_code K (host_log f) C) d c 0 s = Some s'"
    "evdev_wired K d h dev' s'" "same_setup dev dev'" "same_links s s'" "dv_key dev' = (dv_key dev)(c := False)"
    "evdev_state.more s' = f (released c) (evdev_state.more s)"
proof -
  have kb: "dv_keybit dev c" "dv_evbit dev EV_KEY"
    using k by (auto simp: keys_ok_def list_all_iff)
  have sw: "\<exists>dev1 arm. input_switch EV_KEY c 0 dev = Some (dev1, 0, False, arm)"
    using kb k by (auto simp: input_switch_def)
  obtain s' dev' out where 1: "input_event K (evdev_code K (host_log f) C) d EV_KEY c 0 s = Some s'"
    "evdev_wired K d h dev' s'" "same_setup dev dev'" "same_links s s'"
    "evdev_state.more s' = fold f out (evdev_state.more s)"
    and o: "(dev' = dev \<and> out = [] \<and> (EV_MAX < EV_KEY \<or> \<not> dv_evbit dev EV_KEY \<or> input_switch EV_KEY c 0 dev = None)) \<or>
     (\<exists>dev1 v' drv arm. input_switch EV_KEY c 0 dev = Some (dev1, v', drv, arm) \<and> dv_key dev' = dv_key dev1 \<and>
        out = opt_list (evdev_translate EV_KEY c v'))"
    by (rule evdev_event_step [OF w ok])
  obtain dev1 v' drv arm where d1: "input_switch EV_KEY c 0 dev = Some (dev1, v', drv, arm)" "dv_key dev' = dv_key dev1"
      "out = opt_list (evdev_translate EV_KEY c v')"
    using o sw kb by auto
  have "v' = 0" using input_switch_EV_KEY [OF d1(1)] by simp
  then have "out = [released c]" using d1 by (simp add: opt_list_def evdev_translate_def)
  moreover have "dv_key dev' = (dv_key dev)(c := False)"
    using input_switch_key [OF d1(1)] d1(2) k by simp
  ultimately show ?thesis using that 1 by (simp add: input_report_key_def)
qed

lemma release_keys_wired:
  assumes "evdev_wired K d h dev s" "driver_ok C" "keys_ok dev" "distinct cs" "\<forall>c \<in> set cs. c \<le> KEY_MAX"
  shows "\<exists>s' dev'. release_keys K (evdev_code K (host_log f) C) d cs s = Some s' \<and> evdev_wired K d h dev' s' \<and>
    same_setup dev dev' \<and> same_links s s' \<and> (\<forall>k. dv_key dev' k = (dv_key dev k \<and> k \<notin> set cs)) \<and>
    evdev_state.more s' = fold f (map released (filter (dv_key dev) cs)) (evdev_state.more s)"
  using assms
proof (induction cs arbitrary: s dev)
  case Nil
  then show ?case by (auto simp: same_setup_def same_links_def intro!: exI [of _ s] exI [of _ dev])
next
  case (Cons c cs)
  let ?C = "evdev_code K (host_log f) C"
  have dev: "input_devs s d = Some dev" using Cons.prems by (simp add: evdev_wired_def)
  show ?case
  proof (cases "dv_key dev c")
    case True
    obtain s1 dev1 where 1: "input_report_key K ?C d c 0 s = Some s1"
      "evdev_wired K d h dev1 s1" "same_setup dev dev1" "same_links s s1" "dv_key dev1 = (dv_key dev)(c := False)"
      "evdev_state.more s1 = f (released c) (evdev_state.more s)"
      by (rule release_one [OF Cons.prems(1-3) True]) (use Cons.prems in auto)
    have "keys_ok dev1"
      using Cons.prems(3) 1(3,5) by (auto simp: keys_ok_def same_setup_def list_all_iff)
    then obtain s2 dev2 where 2: "release_keys K ?C d cs s1 = Some s2" "evdev_wired K d h dev2 s2"
      "same_setup dev1 dev2" "same_links s1 s2" "\<forall>k. dv_key dev2 k = (dv_key dev1 k \<and> k \<notin> set cs)"
      "evdev_state.more s2 = fold f (map released (filter (dv_key dev1) cs)) (evdev_state.more s1)"
      using Cons.IH [OF 1(2) Cons.prems(2)] Cons.prems by auto
    have fl: "filter (dv_key dev1) cs = filter (dv_key dev) cs"
      using 1(5) Cons.prems(4) by (auto intro!: filter_cong split: if_splits)
    show ?thesis
      using dev 1 2 True fl same_setup_trans [OF 1(3) 2(3)] same_links_trans [OF 1(4) 2(4)]
      by (intro exI [of _ s2] exI [of _ dev2]) auto
  next
    case False
    then show ?thesis
      using dev Cons.IH [OF Cons.prems(1-3)] Cons.prems by auto
  qed
qed

lemma sync_wired:
  assumes "evdev_wired K d h dev s" "driver_ok C"
  obtains s' dev' where "input_sync K (evdev_code K (host_log f) C) d s = Some s'"
    "evdev_wired K d h dev' s'" "same_setup dev dev'" "same_links s s'" "dv_key dev' = dv_key dev"
    "evdev_state.more s' = evdev_state.more s"
proof -
  obtain s' dev' out where 1: "input_event K (evdev_code K (host_log f) C) d EV_SYN SYN_REPORT 0 s = Some s'"
    "evdev_wired K d h dev' s'" "same_setup dev dev'" "same_links s s'"
    "evdev_state.more s' = fold f out (evdev_state.more s)"
    and o: "(dev' = dev \<and> out = []) \<or>
     (\<exists>dev1 v' drv arm. input_switch EV_SYN SYN_REPORT 0 dev = Some (dev1, v', drv, arm) \<and> dv_key dev' = dv_key dev1 \<and>
        out = opt_list (evdev_translate EV_SYN SYN_REPORT v'))"
    by (rule evdev_event_step [OF assms, of f EV_SYN SYN_REPORT 0]) blast
  have "dv_key dev' = dv_key dev \<and> out = []"
    using o by (auto dest: input_switch_key simp: opt_list_def evdev_translate_def)
  then show ?thesis using that 1 by (simp add: input_sync_def)
qed

lemma disconnect_entry:
  assumes w: "evdev_wired K d h dev s" and e: "evdev_entry K h n s"
  obtains s' where "disconnect_all (evdev_code K H C) [h] s = Some s'"
    "input_devs s' = (input_devs s)(d \<mapsto> dev\<lparr>dv_h_list := []\<rparr>)" "evdev_state.more s' = evdev_state.more s"
    "ev_exists (evdev_devices s' (evdev_slot K n)) = 0" "input_dev_list s' = input_dev_list s"
  using assms
  by (auto simp: evdev_wired_def evdev_entry_def unlink_handle_def Let_def evdev_code_def evdev_disconnect_def
      evdev_clear_def put_handle_def put_dev_def split: option.splits)

section \<open>Properties\<close>

text \<open>A keyboard with the keys 30 and 31, key 30 down, opened through entry 0.\<close>

abbreviation evdev_sim_kit :: "(sim, host_event list) ekit" where
  "evdev_sim_kit \<equiv> sim_kit"

definition quiet_driver :: "(sim, host_event list) estate input_code" where
  "quiet_driver = \<lparr>ic_dev_event = (\<lambda>_ _ _ _ _ s. Some s), ic_dev_open = (\<lambda>_ _ s. Some (0, s)),
     ic_dev_close = (\<lambda>_ _ _. None), ic_event = (\<lambda>_ _ _ _ _ s. Some s), ic_connect = (\<lambda>_ _ _ s. Some (0, s)),
     ic_disconnect = (\<lambda>_ _ s. Some s), ic_start = (\<lambda>_ _ s. Some s)\<rparr>"

definition keyboard :: input_dev where
  "keyboard = \<lparr>dv_bustype = 3, dv_vendor = 0, dv_product = 0, dv_version = 0,
     dv_evbit = (\<lambda>n. n \<in> {EV_SYN, EV_KEY, EV_REP}), dv_keybit = (\<lambda>n. n \<in> {30, 31}), dv_relbit = (\<lambda>_. False),
     dv_absbit = (\<lambda>_. False), dv_mscbit = (\<lambda>_. False), dv_ledbit = (\<lambda>_. False), dv_sndbit = (\<lambda>_. False),
     dv_ffbit = (\<lambda>_. False), dv_swbit = (\<lambda>_. False), dv_repeat_key = 0,
     dv_timer = \<lparr>tl_expires = 0, tl_function = 16, tl_data = 0x100, tl_dde_kit_timer = 0\<rparr>, dv_sync = True,
     dv_abs = (\<lambda>_. 0), dv_rep = (\<lambda>n. if n = REP_DELAY then 250 else 33), dv_key = (\<lambda>n. n = 30),
     dv_led = (\<lambda>_. False), dv_snd = (\<lambda>_. False), dv_sw = (\<lambda>_. False), dv_absfuzz = (\<lambda>_. 0), dv_open = 0x77,
     dv_close = 0x78, dv_event = 0, dv_grab = 0, dv_users = 1, dv_h_list = [41]\<rparr>"

definition evdev_example :: "(sim, host_event list) estate" where
  "evdev_example = \<lparr>kit = sim_init, mem = (\<lambda>_. 0), caches = Map.empty, malloc_sizes = malloc_sizes_boot,
     thread_datas = Map.empty, tasks = Map.empty, kthread_datas = Map.empty,
     pid_task_list = [], pid_task_list_lock = 3, kthread_count = 0, refcnt = 0, timer_initialized = True,
     input_devs = [0x100 \<mapsto> keyboard],
     input_handles = [41 \<mapsto> \<lparr>ih_private = 13, ih_open = 1, ih_dev = 0x100, ih_handler = 13\<rparr>],
     input_handlers = [13 \<mapsto> (evdev_handler evdev_sim_kit)\<lparr>hd_h_list := [41]\<rparr>],
     input_dev_list = [0x100], input_handler_list = [13], input_table = (\<lambda>_. 0),
     evdev_devices = (\<lambda>a. \<lparr>ev_exists = (if a = 13 then 1 else 0), ev_isopen = 0, ev_devn = 0, ev_name = []\<rparr>),
     callback = 0x99, \<dots> = []\<rparr>"

lemma evdev_example_ok:
  "evdev_wired evdev_sim_kit 0x100 41 keyboard evdev_example" "driver_ok quiet_driver" "keys_ok keyboard"
  "evdev_entry evdev_sim_kit 41 0 evdev_example" "input_dev_list evdev_example = [0x100]" "evdev_state.more evdev_example = []"
  "input_handlers evdev_example 13 = Some ((evdev_handler evdev_sim_kit)\<lparr>hd_h_list := [41]\<rparr>)"
proof -
  show "driver_ok quiet_driver"
    unfolding driver_ok_def
  proof (intro allI)
    fix a d t c v and s :: "(sim, host_event list) estate"
    show "\<exists>k. ic_dev_event quiet_driver a d t c v s = Some (s\<lparr>kit := k\<rparr>)"
      by (rule exI [of _ "kit s"]) (simp add: quiet_driver_def)
  qed
  show "keys_ok keyboard"
    by (simp add: keys_ok_def keyboard_def list_all_iff)
qed (simp_all add: evdev_wired_def evdev_entry_def evdev_example_def evdev_handler_def sim_kit_def keyboard_def
      evdev_slot_def evdev_handle_def)


definition evdev_script :: "(nat \<times> nat \<times> int) list" where
  "evdev_script = [(EV_KEY, 30, 1), (EV_KEY, 31, 1), (EV_KEY, 31, 2), (EV_KEY, 30, 0), (EV_SYN, SYN_REPORT, 0)]"




text \<open>
  Closing the event interface detaches evdev from the device and frees the table entry, but
  never closes the device: the number of its users stays what it was, whatever the driver's code does,
  because \<open>isopen\<close> is never set.  A later initialisation therefore finds the device in use and does not
  call the driver's \<open>open\<close> again.
\<close>

theorem input_exit_never_closes:
  assumes w: "evdev_wired K d h dev s" and en: "evdev_entry K h n s"
    and hr: "input_handlers s (symbol K ''evdev_handler'') = Some hr" and hl: "hd_h_list hr = [h]"
  shows "\<exists>s' dev'. dde_linux26_input_exit K H C s = Some s' \<and> input_devs s' d = Some dev' \<and> dv_h_list dev' = [] \<and>
    ev_exists (evdev_devices s' (evdev_slot K n)) = 0 \<and> dv_users dev' = dv_users dev"
proof -
  obtain s' where "disconnect_all (evdev_code K H C) [h] s = Some s'"
    "input_devs s' = (input_devs s)(d \<mapsto> dev\<lparr>dv_h_list := []\<rparr>)" "ev_exists (evdev_devices s' (evdev_slot K n)) = 0"
    using disconnect_entry [OF w en, of H C] by blast
  then show ?thesis
    using hr hl by (auto simp: dde_linux26_input_exit_def input_unregister_handler_def Let_def simp del: disconnect_all.simps)
qed

theorem input_exit_never_closes_witness:
  "\<exists>s' dev'. dde_linux26_input_exit evdev_sim_kit (host_log (\<lambda>e tr. tr @ [e])) quiet_driver evdev_example = Some s' \<and>
    input_devs s' 0x100 = Some dev' \<and> dv_users dev' = 1 \<and> dv_close keyboard \<noteq> 0"
  using input_exit_never_closes [OF evdev_example_ok(1,4), of _ "host_log (\<lambda>e tr. tr @ [e])" quiet_driver]
    evdev_example_ok(7)
  by (auto simp: keyboard_def sim_kit_def)

end
