(* ===== verification/Skb.thy ===== *)
theory Skb
  imports DDE_Prelude
begin

text \<open>
  Socket buffers, \<open>linux/skbuff.h\<close> and \<open>net/core/skbuff.c\<close>: the operations on the linear part and the
  transfer of bytes out of and into a buffer that is spread over its linear part, page fragments and
  a list of further buffers.  \<open>sk_buf\<close> holds the bytes between \<open>head\<close> and \<open>end\<close>, a fragment is the list of
  its bytes; \<open>None\<close> stands for \<open>BUG()\<close>, a panic, or an access outside the memory of the buffer.
\<close>

section \<open>Data\<close>

record skb_hdr =
  sk_len :: u32
  sk_data_len :: u32
  sk_head :: addr
  sk_data :: addr
  sk_tail :: addr
  sk_end :: addr
  sk_buf :: "u8 list"
  sk_frags :: "u8 list list"
  sk_nh :: addr
  sk_mac :: addr
  sk_protocol :: u16
  sk_pkt_type :: u8
  sk_dev :: addr

datatype sk_buff = Skb (skb: skb_hdr) (frag_list: "sk_buff list")

section \<open>The linear part\<close>

definition skb_is_nonlinear :: "skb_hdr \<Rightarrow> bool" where
  "skb_is_nonlinear h = (sk_data_len h \<noteq> 0)"

definition skb_headlen :: "skb_hdr \<Rightarrow> u32" where
  "skb_headlen h = sk_len h - sk_data_len h"

definition skb_pagelen :: "skb_hdr \<Rightarrow> u32" where
  "skb_pagelen h = fold (\<lambda>f n. n + of_nat (length f)) (rev (sk_frags h)) 0 + skb_headlen h"

text \<open>The operations return the pointer the C function returns and the changed header.\<close>

definition skb_put_unchecked :: "skb_hdr \<Rightarrow> u32 \<Rightarrow> (addr \<times> skb_hdr) option" where
  "skb_put_unchecked h len =
     (if skb_is_nonlinear h then None
      else Some (sk_tail h, h\<lparr>sk_tail := sk_tail h + len, sk_len := sk_len h + len\<rparr>))"

definition skb_put :: "skb_hdr \<Rightarrow> u32 \<Rightarrow> (addr \<times> skb_hdr) option" where
  "skb_put h len =
     (if skb_is_nonlinear h then None
      else let tmp = sk_tail h; h = h\<lparr>sk_tail := sk_tail h + len, sk_len := sk_len h + len\<rparr>
           in if sk_end h < sk_tail h then None else Some (tmp, h))"

definition skb_push_unchecked :: "skb_hdr \<Rightarrow> u32 \<Rightarrow> addr \<times> skb_hdr" where
  "skb_push_unchecked h len = (sk_data h - len, h\<lparr>sk_data := sk_data h - len, sk_len := sk_len h + len\<rparr>)"

definition skb_push :: "skb_hdr \<Rightarrow> u32 \<Rightarrow> (addr \<times> skb_hdr) option" where
  "skb_push h len =
     (let h = h\<lparr>sk_data := sk_data h - len, sk_len := sk_len h + len\<rparr>
      in if sk_data h < sk_head h then None else Some (sk_data h, h))"

definition skb_pull_unchecked :: "skb_hdr \<Rightarrow> u32 \<Rightarrow> (addr \<times> skb_hdr) option" where
  "skb_pull_unchecked h len =
     (let h = h\<lparr>sk_len := sk_len h - len\<rparr>
      in if sk_len h < sk_data_len h then None
         else Some (sk_data h + len, h\<lparr>sk_data := sk_data h + len\<rparr>))"

definition skb_pull :: "skb_hdr \<Rightarrow> u32 \<Rightarrow> (addr \<times> skb_hdr) option" where
  "skb_pull h len = (if sk_len h < len then Some (0, h) else skb_pull_unchecked h len)"

definition skb_headroom :: "skb_hdr \<Rightarrow> int" where
  "skb_headroom h = sint (sk_data h - sk_head h)"

definition skb_tailroom :: "skb_hdr \<Rightarrow> int" where
  "skb_tailroom h = (if skb_is_nonlinear h then 0 else sint (sk_end h - sk_tail h))"

definition skb_reserve :: "skb_hdr \<Rightarrow> u32 \<Rightarrow> skb_hdr" where
  "skb_reserve h len = h\<lparr>sk_data := sk_data h + len, sk_tail := sk_tail h + len\<rparr>"

definition skb_trim_unchecked :: "skb_hdr \<Rightarrow> u32 \<Rightarrow> skb_hdr" where
  "skb_trim_unchecked h len =
     (if sk_data_len h \<noteq> 0 then h else h\<lparr>sk_len := len, sk_tail := sk_data h + len\<rparr>)"

definition skb_trim :: "skb_hdr \<Rightarrow> u32 \<Rightarrow> skb_hdr" where
  "skb_trim h len = (if len < sk_len h then skb_trim_unchecked h len else h)"

section \<open>Copying out of a buffer\<close>

text \<open>\<open>memcpy\<close> from and to a block of memory; \<open>None\<close> when it leaves the block.\<close>

definition slice :: "u8 list \<Rightarrow> int \<Rightarrow> int \<Rightarrow> u8 list option" where
  "slice bs pos n =
     (if 0 \<le> pos \<and> 0 \<le> n \<and> pos + n \<le> int (length bs) then Some (take (nat n) (drop (nat pos) bs)) else None)"

definition splice :: "u8 list \<Rightarrow> int \<Rightarrow> u8 list \<Rightarrow> u8 list option" where
  "splice bs pos new =
     (if 0 \<le> pos \<and> pos + int (length new) \<le> int (length bs)
      then Some (take (nat pos) bs @ new @ drop (nat pos + length new) bs) else None)"

text \<open>The offset of \<open>skb->data + offset\<close> in the block.\<close>

definition lin_pos :: "skb_hdr \<Rightarrow> int \<Rightarrow> int" where
  "lin_pos h offset = uint (sk_data h + of_int offset - sk_head h)"

text \<open>
  The loops keep the start of the current segment, the offset and length still to do and the bytes
  copied so far; \<open>Inl\<close> is a \<open>return 0\<close> from within the loop.
\<close>

primrec copy_frags ::
  "u8 list list \<Rightarrow> int \<Rightarrow> int \<Rightarrow> int \<Rightarrow> u8 list \<Rightarrow> (u8 list + int \<times> int \<times> int \<times> u8 list) option" where
  "copy_frags [] start offset len acc = Some (Inr (start, offset, len, acc))"
| "copy_frags (f # fs) start offset len acc =
     (let end = start + int (length f); copy = end - offset
      in if 0 < copy then do {
           let copy = (if len < copy then len else copy);
           bs \<leftarrow> slice f (offset - start) copy;
           if len - copy = 0 then Some (Inl (acc @ bs))
           else copy_frags fs end (offset + copy) (len - copy) (acc @ bs) }
         else copy_frags fs end offset len acc)"

primrec skb_copy_bits :: "sk_buff \<Rightarrow> int \<Rightarrow> int \<Rightarrow> (int + u8 list) option"
  and copy_list :: "sk_buff list \<Rightarrow> int \<Rightarrow> int \<Rightarrow> int \<Rightarrow> u8 list \<Rightarrow> (int + u8 list) option" where
  "skb_copy_bits (Skb h fl) offset len =
     (let start = sint (skb_headlen h)
      in if sint (sk_len h) - len < offset then Some (Inl (- EFAULT))
         else do {
           let copy = start - offset;
           r \<leftarrow> (if 0 < copy then do {
                   let copy = (if len < copy then len else copy);
                   bs \<leftarrow> slice (sk_buf h) (lin_pos h offset) copy;
                   if len - copy = 0 then Some (Inl bs)
                   else copy_frags (sk_frags h) start (offset + copy) (len - copy) bs }
                 else copy_frags (sk_frags h) start offset len []);
           case r of Inl bs \<Rightarrow> Some (Inr bs)
           | Inr (start, offset, len, acc) \<Rightarrow> copy_list fl start offset len acc })"
| "copy_list [] start offset len acc = Some (if len = 0 then Inr acc else Inl (- EFAULT))"
| "copy_list (x # xs) start offset len acc =
     (let end = start + sint (sk_len (skb x)); copy = end - offset
      in if 0 < copy then do {
           let copy = (if len < copy then len else copy);
           r \<leftarrow> skb_copy_bits x (offset - start) copy;
           case r of Inl e \<Rightarrow> Some (Inl (- EFAULT))
           | Inr bs \<Rightarrow> if len - copy = 0 then Some (Inr (acc @ bs))
                       else copy_list xs end (offset + copy) (len - copy) (acc @ bs) }
         else copy_list xs end offset len acc)"

section \<open>Storing into a buffer\<close>

primrec store_frags ::
  "u8 list list \<Rightarrow> int \<Rightarrow> int \<Rightarrow> u8 list \<Rightarrow> u8 list list
   \<Rightarrow> (u8 list list + int \<times> int \<times> u8 list \<times> u8 list list) option" where
  "store_frags [] start offset new done_fs = Some (Inr (start, offset, new, done_fs))"
| "store_frags (f # fs) start offset new done_fs =
     (let end = start + int (length f); copy = end - offset; len = int (length new)
      in if 0 < copy then do {
           let copy = (if len < copy then len else copy);
           f' \<leftarrow> splice f (offset - start) (take (nat copy) new);
           if len - copy = 0 then Some (Inl (done_fs @ f' # fs))
           else store_frags fs end (offset + copy) (drop (nat copy) new) (done_fs @ [f']) }
         else store_frags fs end offset new (done_fs @ [f]))"

primrec skb_store_bits :: "sk_buff \<Rightarrow> int \<Rightarrow> u8 list \<Rightarrow> (int \<times> sk_buff) option"
  and store_list :: "sk_buff list \<Rightarrow> int \<Rightarrow> int \<Rightarrow> u8 list \<Rightarrow> (int \<times> sk_buff list) option" where
  "skb_store_bits (Skb h fl) offset from =
     (let start = sint (skb_headlen h); len = int (length from)
      in if sint (sk_len h) - len < offset then Some (- EFAULT, Skb h fl)
         else do {
           let copy = start - offset;
           (h, r) \<leftarrow> (if 0 < copy then do {
                   let copy = (if len < copy then len else copy);
                   buf \<leftarrow> splice (sk_buf h) (lin_pos h offset) (take (nat copy) from);
                   let h = h\<lparr>sk_buf := buf\<rparr>;
                   if len - copy = 0 then Some (h, Inl (sk_frags h))
                   else do { r \<leftarrow> store_frags (sk_frags h) start (offset + copy) (drop (nat copy) from) []; Some (h, r) } }
                 else do { r \<leftarrow> store_frags (sk_frags h) start offset from []; Some (h, r) });
           case r of Inl fs \<Rightarrow> Some (0, Skb (h\<lparr>sk_frags := fs\<rparr>) fl)
           | Inr (start, offset, from, fs) \<Rightarrow> do {
               (e, fl) \<leftarrow> store_list fl start offset from;
               Some (e, Skb (h\<lparr>sk_frags := fs\<rparr>) fl) } })"
| "store_list [] start offset from = Some (if from = [] then 0 else - EFAULT, [])"
| "store_list (x # xs) start offset from =
     (let end = start + sint (sk_len (skb x)); copy = end - offset; len = int (length from)
      in if 0 < copy then do {
           let copy = (if len < copy then len else copy);
           (e, x) \<leftarrow> skb_store_bits x (offset - start) (take (nat copy) from);
           if e \<noteq> 0 then Some (- EFAULT, x # xs)
           else if len - copy = 0 then Some (0, x # xs)
           else do {
             (e, xs) \<leftarrow> store_list xs end (offset + copy) (drop (nat copy) from);
             Some (e, x # xs) } }
         else do { (e, xs) \<leftarrow> store_list xs end offset from; Some (e, x # xs) })"

section \<open>The bytes of a buffer\<close>

fun skb_bytes :: "sk_buff \<Rightarrow> u8 list" where
  "skb_bytes (Skb h fl) =
     take (unat (sk_tail h - sk_data h)) (drop (unat (sk_data h - sk_head h)) (sk_buf h)) @
     concat (sk_frags h) @ concat (map skb_bytes fl)"

definition lin_wf :: "skb_hdr \<Rightarrow> bool" where
  "lin_wf h \<longleftrightarrow> sk_head h \<le> sk_data h \<and> sk_data h \<le> sk_tail h \<and> sk_tail h \<le> sk_end h \<and>
     length (sk_buf h) = unat (sk_end h - sk_head h) \<and> sk_data_len h \<le> sk_len h \<and>
     sk_tail h = sk_data h + skb_headlen h \<and> unat (sk_len h) < 2 ^ 31"

fun skb_wf :: "sk_buff \<Rightarrow> bool" where
  "skb_wf (Skb h fl) \<longleftrightarrow> lin_wf h \<and> list_all skb_wf fl \<and>
     unat (sk_data_len h) = length (concat (sk_frags h)) + sum_list (map (\<lambda>x. unat (sk_len (skb x))) fl)"

section \<open>Copying agrees with the bytes\<close>

lemma lin_wf_parts:
  assumes "lin_wf h"
  shows "unat (sk_tail h - sk_data h) = unat (skb_headlen h)"
    "unat (sk_data h - sk_head h) + unat (skb_headlen h) \<le> length (sk_buf h)"
    "sint (skb_headlen h) = int (unat (skb_headlen h))" "sint (sk_len h) = int (unat (sk_len h))"
    "unat (skb_headlen h) + unat (sk_data_len h) = unat (sk_len h)"
proof -
  note w = assms [unfolded lin_wf_def]
  show t: "unat (sk_tail h - sk_data h) = unat (skb_headlen h)" using w by simp
  have "unat (sk_tail h) = unat (sk_data h) + unat (skb_headlen h)"
    using w t unat_sub [of "sk_data h" "sk_tail h"] by (auto simp: word_le_nat_alt)
  moreover have "unat (sk_head h) \<le> unat (sk_data h)" "unat (sk_tail h) \<le> unat (sk_end h)" "sk_head h \<le> sk_end h"
    using w by (auto simp: word_le_nat_alt)
  ultimately show "unat (sk_data h - sk_head h) + unat (skb_headlen h) \<le> length (sk_buf h)"
    using w by (simp add: unat_sub)
  show l: "unat (skb_headlen h) + unat (sk_data_len h) = unat (sk_len h)"
    using w by (simp add: skb_headlen_def unat_sub word_le_nat_alt)
  show "sint (sk_len h) = int (unat (sk_len h))"
    by (rule sint_small) (use w in simp)
  show "sint (skb_headlen h) = int (unat (skb_headlen h))"
    by (rule sint_small) (use w l in simp)
qed

lemma slice_lin:
  assumes "lin_wf h" "0 \<le> off" "0 \<le> n" "off + n \<le> int (unat (skb_headlen h))"
  shows "slice (sk_buf h) (lin_pos h off) n =
    Some (take (nat n) (drop (nat off) (take (unat (skb_headlen h)) (drop (unat (sk_data h - sk_head h)) (sk_buf h)))))"
    "lin_pos h off = int (unat (sk_data h - sk_head h)) + off"
proof -
  note p = lin_wf_parts [OF assms(1)]
  have lb: "length (sk_buf h) < 2 ^ 32"
    using assms(1) unsigned_less [of "sk_end h - sk_head h", where 'a = nat] by (simp add: lin_wf_def)
  obtain m where m: "off = int m" using assms(2) zero_le_imp_eq_int by blast
  have mh: "m \<le> unat (skb_headlen h)" using assms(3,4) m by linarith
  have um: "unat (of_nat m :: addr) = m"
    using mh p(2) lb by (simp add: unat_of_nat take_bit_nat_eq_self)
  have "sk_data h + of_int off - sk_head h = (sk_data h - sk_head h) + of_nat m"
    by (simp add: m)
  also have "unat \<dots> = unat (sk_data h - sk_head h) + m"
    using p(2) lb mh um by (subst unat_add_lem [THEN iffD1]) auto
  finally have "int (unat (sk_data h + of_int off - sk_head h)) = int (unat (sk_data h - sk_head h)) + off"
    by (simp only: m of_nat_add)
  then show l: "lin_pos h off = int (unat (sk_data h - sk_head h)) + off"
    unfolding lin_pos_def by (simp only: uint_nat)
  show "slice (sk_buf h) (lin_pos h off) n =
    Some (take (nat n) (drop (nat off) (take (unat (skb_headlen h)) (drop (unat (sk_data h - sk_head h)) (sk_buf h)))))"
  proof -
    obtain k where k: "n = int k" using assms(3) zero_le_imp_eq_int by blast
    define D H where "D = unat (sk_data h - sk_head h)" and "H = unat (skb_headlen h)"
    have "D + H \<le> length (sk_buf h)" "m + k \<le> H"
      using p(2) assms(4) unfolding D_def H_def m k by linarith+
    moreover have "lin_pos h (int m) = int D + int m" using l by (simp only: m D_def)
    ultimately show ?thesis
      unfolding slice_def D_def [symmetric] H_def [symmetric] m k
      by (auto simp: nat_add_distrib take_drop add.commute min_def intro!: arg_cong [where f = "drop _"])
  qed
qed

lemma copy_frags_spec:
  assumes "start \<le> off" "0 < len"
  shows "copy_frags fs start off len acc =
    (let fin = start + int (length (concat fs))
     in if off + len \<le> fin then Some (Inl (acc @ take (nat len) (drop (nat (off - start)) (concat fs))))
        else Some (Inr (fin, max off fin, off + len - max off fin, acc @ drop (nat (off - start)) (concat fs))))"
  using assms
proof (induction fs arbitrary: start off len acc)
  case Nil
  then show ?case by (simp add: Let_def)
next
  case (Cons f fs)
  let ?hi = "start + int (length f)"
  consider "?hi \<le> off" | "off < ?hi" "off + len \<le> ?hi" | "off < ?hi" "?hi < off + len" by linarith
  then show ?case
  proof cases
    case 1
    then have "nat (off - start) = length f + nat (off - ?hi)" using Cons.prems by linarith
    then show ?thesis using 1 Cons.IH [OF 1 Cons.prems(2)] by (simp add: Let_def algebra_simps)
  next
    case 2
    then have "nat (off - start) + nat len \<le> length f" using Cons.prems by linarith
    then show ?thesis using 2 Cons.prems by (auto simp: Let_def slice_def algebra_simps)
  next
    case 3
    have s: "slice f (off - start) (?hi - off) = Some (drop (nat (off - start)) f)"
      using 3 Cons.prems by (simp add: slice_def nat_diff_distrib')
    have n: "nat len = (length f - nat (off - start)) + nat (len - (?hi - off))" "nat (off - start) \<le> length f"
      using 3 Cons.prems by linarith+
    have "length f - nat (off - start) \<le> nat len" using n by linarith
    then have "take (nat len) (drop (nat (off - start)) f) = drop (nat (off - start)) f" by simp
    then show ?thesis
      using 3 Cons.prems Cons.IH [of ?hi ?hi "len - (?hi - off)"] s n
      by (auto simp: Let_def algebra_simps take_add max_def)
  qed
qed

lemma length_skb_bytes: "skb_wf s \<Longrightarrow> length (skb_bytes s) = unat (sk_len (skb s))"
proof (induction s)
  case (Skb h fl)
  have "map (\<lambda>x. length (skb_bytes x)) fl = map (\<lambda>x. unat (sk_len (skb x))) fl"
    using Skb by (auto simp: list_all_iff)
  then have "(\<Sum>x\<leftarrow>fl. length (skb_bytes x)) = (\<Sum>x\<leftarrow>fl. unat (sk_len (skb x)))" by (rule arg_cong)
  then show ?case
    using Skb.prems lin_wf_parts [of h] by (auto simp: length_concat comp_def)
qed

definition copy_ok :: "sk_buff \<Rightarrow> bool" where
  "copy_ok s \<longleftrightarrow> (\<forall>off len. 0 \<le> off \<longrightarrow> 0 < len \<longrightarrow> skb_copy_bits s off len =
     Some (if off + len \<le> int (length (skb_bytes s)) then Inr (take (nat len) (drop (nat off) (skb_bytes s)))
           else Inl (- EFAULT)))"

lemma copy_list_spec:
  assumes "\<forall>x \<in> set fl. skb_wf x \<and> copy_ok x" "start \<le> off" "0 < len"
  shows "copy_list fl start off len acc =
    Some (if off + len \<le> start + int (length (concat (map skb_bytes fl)))
          then Inr (acc @ take (nat len) (drop (nat (off - start)) (concat (map skb_bytes fl)))) else Inl (- EFAULT))"
  using assms
proof (induction fl arbitrary: start off len acc)
  case Nil
  then show ?case by simp
next
  case (Cons x xs)
  let ?b = "skb_bytes x" and ?hi = "start + int (length (skb_bytes x))"
  have x: "skb_wf x" "copy_ok x" using Cons.prems by auto
  have sl: "sint (sk_len (skb x)) = int (length ?b)"
    using x(1) lin_wf_parts(4) [of "skb x"] length_skb_bytes [OF x(1)] by (cases x) auto
  have c: "skb_copy_bits x (off - start) n = Some (Inr (take (nat n) (drop (nat (off - start)) ?b)))"
    if "0 < n" "off + n \<le> ?hi" for n
    using x(2) that Cons.prems(2) unfolding copy_ok_def by auto
  consider "?hi \<le> off" | "off < ?hi" "off + len \<le> ?hi" | "off < ?hi" "?hi < off + len" by linarith
  then show ?case
  proof cases
    case 1
    then have "nat (off - start) = length ?b + nat (off - ?hi)" using Cons.prems by linarith
    then show ?thesis using 1 Cons.IH [OF _ 1 Cons.prems(3)] Cons.prems(1) sl by (simp add: Let_def algebra_simps)
  next
    case 2
    then have "nat (off - start) + nat len \<le> length ?b" using Cons.prems by linarith
    moreover have "(if len < ?hi - off then len else ?hi - off) = len" using 2 by simp
    ultimately show ?thesis using 2 Cons.prems c [of len] sl by (simp add: Let_def)
  next
    case 3
    have n: "nat len = (length ?b - nat (off - start)) + nat (len - (?hi - off))" "nat (off - start) \<le> length ?b"
      using 3 Cons.prems by linarith+
    have "length ?b - nat (off - start) \<le> nat len" "nat (?hi - off) = length ?b - nat (off - start)"
      using n 3 Cons.prems by linarith+
    then have "take (nat len) (drop (nat (off - start)) ?b) = drop (nat (off - start)) ?b"
      "take (nat (?hi - off)) (drop (nat (off - start)) ?b) = drop (nat (off - start)) ?b" by simp_all
    then show ?thesis
      using 3 Cons.prems Cons.IH [of ?hi ?hi "len - (?hi - off)"] c [of "?hi - off"] n sl
      by (auto simp: Let_def algebra_simps take_add)
  qed
qed

lemma skb_copy_bits_ok: "skb_wf s \<Longrightarrow> copy_ok s"
proof (induction s)
  case (Skb h fl)
  define L where "L = take (unat (skb_headlen h)) (drop (unat (sk_data h - sk_head h)) (sk_buf h))"
  let ?F = "concat (sk_frags h)" and ?G = "concat (map skb_bytes fl)"
  have wf: "lin_wf h" and fl: "\<forall>x \<in> set fl. skb_wf x \<and> copy_ok x"
    using Skb by (auto simp: list_all_iff)
  note p = lin_wf_parts [OF wf]
  define H where "H = unat (skb_headlen h)"
  have L: "length L = H" "sint (skb_headlen h) = int H" using p by (auto simp: H_def L_def)
  have B: "skb_bytes (Skb h fl) = L @ ?F @ ?G" using p(1) by (simp add: L_def)
  have len: "sint (sk_len h) = int (length (L @ ?F @ ?G))"
    using length_skb_bytes [OF Skb.prems] p(4) unfolding B by simp
  have tail: "do { r \<leftarrow> copy_frags (sk_frags h) (int H) off n acc;
      case r of Inl bs \<Rightarrow> Some (Inr bs) | Inr (start, off, n, acc) \<Rightarrow> copy_list fl start off n acc } =
      Some (Inr (acc @ take (nat n) (drop (nat (off - int H)) (?F @ ?G))))"
    if t: "int H \<le> off" "0 < n" "off + n \<le> int (length (L @ ?F @ ?G))" for off n acc
  proof -
    let ?fin = "int H + int (length ?F)"
    consider "off + n \<le> ?fin" | "?fin < off + n" "off \<le> ?fin" | "?fin < off" by linarith
    then show ?thesis
    proof cases
      case 1
      then have "nat (off - int H) + nat n \<le> length ?F" using t by linarith
      then show ?thesis using 1 t by (simp add: copy_frags_spec Let_def)
    next
      case 2
      have n: "nat n = (length ?F - nat (off - int H)) + nat (off + n - ?fin)" "nat (off - int H) \<le> length ?F"
        using 2 t by linarith+
      have "length ?F - nat (off - int H) \<le> nat n" using n by linarith
      then have "take (nat n) (drop (nat (off - int H)) ?F) = drop (nat (off - int H)) ?F" by simp
      then show ?thesis
        using 2 t n fl L(1) by (simp add: copy_frags_spec copy_list_spec Let_def max_def take_add)
    next
      case 3
      then have "nat (off - int H) = length ?F + nat (off - ?fin)" using t by linarith
      then show ?thesis
        using 3 t fl L(1) by (simp add: copy_frags_spec copy_list_spec Let_def max_def)
    qed
  qed
  show ?case unfolding copy_ok_def
  proof (intro allI impI)
    fix off n :: int assume o: "0 \<le> off" "0 < n"
    show "skb_copy_bits (Skb h fl) off n = Some (if off + n \<le> int (length (skb_bytes (Skb h fl)))
       then Inr (take (nat n) (drop (nat off) (skb_bytes (Skb h fl)))) else Inl (- EFAULT))"
    proof (cases "off + n \<le> int (length (L @ ?F @ ?G))")
      case False
      then show ?thesis unfolding B using len by simp
    next
      case True
      consider "off + n \<le> int H" | "int H < off + n" "off < int H" | "int H \<le> off" by linarith
      then show ?thesis
      proof cases
        case 1
        have "nat off + nat n \<le> H" using 1 o by linarith
        moreover have "(if n < int H - off then n else int H - off) = n" using 1 by simp
        ultimately show ?thesis
          using 1 True o len L slice_lin(1) [OF wf, of off n, folded L_def H_def] unfolding B by (simp add: Let_def)
      next
        case 2
        have n: "nat n = (H - nat off) + nat (n - (int H - off))" "nat off \<le> H" using 2 o by linarith+
        have "H - nat off \<le> nat n" "nat (int H - off) = H - nat off" using n 2 o by linarith+
        then have "take (nat n) (drop (nat off) L) = drop (nat off) L"
          "take (nat (int H - off)) (drop (nat off) L) = drop (nat off) L" using L by simp_all
        then show ?thesis
          using 2 True o len L slice_lin(1) [OF wf, of off "int H - off", folded L_def H_def] tail [of "int H" "n - (int H - off)"] n
          unfolding B by (simp add: Let_def)
      next
        case 3
        then have "nat off = H + nat (off - int H)" by linarith
        then show ?thesis
          using 3 True o len L tail [of off n "[]"] unfolding B by (simp add: Let_def)
      qed
    qed
  qed
qed

section \<open>Storing agrees with the bytes\<close>

definition upd :: "nat \<Rightarrow> 'a list \<Rightarrow> 'a list \<Rightarrow> 'a list" where
  "upd pos new bs = take pos bs @ new @ drop (pos + length new) bs"

lemma length_upd [simp]: "pos + length new \<le> length bs \<Longrightarrow> length (upd pos new bs) = length bs"
  by (simp add: upd_def)

lemma upd_left: "pos + length new \<le> length xs \<Longrightarrow> upd pos new (xs @ ys) = upd pos new xs @ ys"
  by (simp add: upd_def)

lemma upd_right: "length xs \<le> pos \<Longrightarrow> upd pos new (xs @ ys) = xs @ upd (pos - length xs) new ys"
  by (simp add: upd_def)

lemma upd_both:
  assumes "pos \<le> length xs" "length xs \<le> pos + length new"
  shows "upd pos new (xs @ ys) = take pos xs @ take (length xs - pos) new @ upd 0 (drop (length xs - pos) new) ys"
proof -
  have "take (length xs - pos) new @ drop (length xs - pos) new @ zs = new @ zs" for zs
    by (metis append.assoc append_take_drop_id)
  then show ?thesis using assms by (simp add: upd_def add.commute)
qed

lemma splice_upd: "0 \<le> pos \<Longrightarrow> pos + int (length new) \<le> int (length bs) \<Longrightarrow> splice bs pos new = Some (upd (nat pos) new bs)"
  by (simp add: splice_def upd_def)

lemma store_frags_spec:
  assumes "start \<le> off" "new \<noteq> []"
  shows "\<exists>fs'. map length fs' = map length fs \<and>
    (let fin = start + int (length (concat fs))
     in if off + int (length new) \<le> fin
        then store_frags fs start off new acc = Some (Inl (acc @ fs')) \<and>
             concat fs' = upd (nat (off - start)) new (concat fs)
        else store_frags fs start off new acc = Some (Inr (fin, max off fin, drop (nat (fin - off)) new, acc @ fs')) \<and>
             concat fs' = take (nat (off - start)) (concat fs) @ take (nat (fin - off)) new)"
  using assms
proof (induction fs arbitrary: start off new acc)
  case Nil
  then show ?case by (cases new) (auto simp: Let_def)
next
  case (Cons f fs)
  let ?hi = "start + int (length f)" and ?n = "int (length new)"
  consider "?hi \<le> off" | "off < ?hi" "off + ?n \<le> ?hi" | "off < ?hi" "?hi < off + ?n" by linarith
  then show ?case
  proof cases
    case 1
    have o: "nat (off - start) = length f + nat (off - ?hi)" using 1 Cons.prems by linarith
    obtain fs' where fs': "map length fs' = map length fs"
      "let fin = ?hi + int (length (concat fs))
     in if off + ?n \<le> fin
        then store_frags fs ?hi off new (acc @ [f]) = Some (Inl ((acc @ [f]) @ fs')) \<and>
             concat fs' = upd (nat (off - ?hi)) new (concat fs)
        else store_frags fs ?hi off new (acc @ [f]) =
               Some (Inr (fin, max off fin, drop (nat (fin - off)) new, (acc @ [f]) @ fs')) \<and>
             concat fs' = take (nat (off - ?hi)) (concat fs) @ take (nat (fin - off)) new"
      using Cons.IH [OF 1 Cons.prems(2), of "acc @ [f]"] by blast
    show ?thesis
      using 1 o fs' by (intro exI [of _ "f # fs'"]) (simp add: Let_def upd_right add.assoc)
  next
    case 2
    then have "nat (off - start) + length new \<le> length f" using Cons.prems by linarith
    moreover have "(if ?n < ?hi - off then ?n else ?hi - off) = ?n" using 2 by simp
    ultimately show ?thesis
      using 2 Cons.prems splice_upd [of "off - start" new f]
      by (intro exI [of _ "upd (nat (off - start)) new f # fs"]) (simp add: Let_def upd_left)
  next
    case 3
    let ?c = "length f - nat (off - start)"
    have c: "nat (?hi - off) = ?c" "?c < length new" "nat (off - start) \<le> length f" "int ?c = ?hi - off"
      "\<not> ?n < ?hi - off" "?n - (?hi - off) \<noteq> 0"
      using 3 Cons.prems by linarith+
    have sp: "splice f (off - start) (take ?c new) = Some (take (nat (off - start)) f @ take ?c new)"
      using c Cons.prems(1) by (subst splice_upd) (auto simp: upd_def)
    let ?f = "take (nat (off - start)) f @ take ?c new"
    have ne: "drop ?c new \<noteq> []" using c by simp
    obtain fs' where fs': "map length fs' = map length fs"
      "let fin = ?hi + int (length (concat fs))
     in if ?hi + int (length (drop ?c new)) \<le> fin
        then store_frags fs ?hi ?hi (drop ?c new) (acc @ [?f]) = Some (Inl ((acc @ [?f]) @ fs')) \<and>
             concat fs' = upd 0 (drop ?c new) (concat fs)
        else store_frags fs ?hi ?hi (drop ?c new) (acc @ [?f]) =
               Some (Inr (fin, max ?hi fin, drop (nat (fin - ?hi)) (drop ?c new), (acc @ [?f]) @ fs')) \<and>
             concat fs' = take 0 (concat fs) @ take (nat (fin - ?hi)) (drop ?c new)"
      using Cons.IH [OF order_refl ne, of ?hi "acc @ [?f]"] unfolding diff_self nat_0 by blast
    have lf: "length ?f = length f" using c by simp
    have c6: "?n \<noteq> ?hi - off" using c(6) by simp
    have ld: "int (length (drop ?c new)) = ?n - int ?c" using c(2) by (simp add: of_nat_diff)
    show ?thesis
    proof (cases "off + ?n \<le> ?hi + int (length (concat fs))")
      case True
      have k: "?hi + int (length (drop ?c new)) \<le> ?hi + int (length (concat fs))" using c ld True by linarith
      have "store_frags fs ?hi ?hi (drop ?c new) (acc @ [?f]) = Some (Inl ((acc @ [?f]) @ fs'))"
        "concat fs' = upd 0 (drop ?c new) (concat fs)"
        using fs'(2) k by (auto simp only: Let_def if_True)
      then show ?thesis
        using fs'(1) c(2,3) sp lf True
        by (intro exI [of _ "?f # fs'"]) (simp add: Let_def upd_both 3 c(1,5) c6 add.assoc)
    next
      case False
      have k: "\<not> ?hi + int (length (drop ?c new)) \<le> ?hi + int (length (concat fs))" using c ld False by linarith
      let ?fin = "?hi + int (length (concat fs))"
      have d: "nat (?fin - off) = length (concat fs) + ?c" "max off ?fin = ?fin" "max ?hi ?fin = ?fin"
          "nat (?fin - ?hi) = length (concat fs)"
        using c 3 by linarith+
      have "store_frags fs ?hi ?hi (drop ?c new) (acc @ [?f]) =
          Some (Inr (?fin, ?fin, drop (length (concat fs) + ?c) new, (acc @ [?f]) @ fs'))"
        "concat fs' = take (length (concat fs)) (drop ?c new)"
        using fs'(2) k by (simp_all only: Let_def if_False d drop_drop take_0 append_Nil)
      moreover have "take (nat (off - start)) (concat (f # fs)) @ take (nat (?fin - off)) new =
          ?f @ take (length (concat fs)) (drop ?c new)"
        unfolding d(1) add.commute [of _ ?c] take_add using c by simp
      moreover have "drop (nat (?fin - off)) new = drop (length (concat fs) + ?c) new" by (simp only: d(1))
      ultimately show ?thesis
        using fs'(1) c(3) sp lf False d(2)
        by (intro exI [of _ "?f # fs'"]) (simp add: Let_def 3 c(1,5) c6 add.assoc)
    qed
  qed
qed

definition store_ok :: "sk_buff \<Rightarrow> bool" where
  "store_ok s \<longleftrightarrow> (\<forall>off new. 0 \<le> off \<longrightarrow> new \<noteq> [] \<longrightarrow> off + int (length new) \<le> int (length (skb_bytes s)) \<longrightarrow>
     (\<exists>s'. skb_store_bits s off new = Some (0, s') \<and> skb_wf s' \<and> sk_len (skb s') = sk_len (skb s) \<and>
           skb_bytes s' = upd (nat off) new (skb_bytes s)))"

lemma store_list_spec:
  assumes "\<forall>x \<in> set fl. skb_wf x \<and> store_ok x" "start \<le> off" "new \<noteq> []"
    "off + int (length new) \<le> start + int (length (concat (map skb_bytes fl)))"
  shows "\<exists>fl'. store_list fl start off new = Some (0, fl') \<and> list_all skb_wf fl' \<and>
    map (\<lambda>x. sk_len (skb x)) fl' = map (\<lambda>x. sk_len (skb x)) fl \<and>
    concat (map skb_bytes fl') = upd (nat (off - start)) new (concat (map skb_bytes fl))"
  using assms
proof (induction fl arbitrary: start off new)
  case Nil
  then show ?case by (cases new) auto
next
  case (Cons x xs)
  let ?b = "skb_bytes x" and ?hi = "start + int (length (skb_bytes x))" and ?n = "int (length new)"
  have x: "skb_wf x" "store_ok x" and xs: "\<forall>x \<in> set xs. skb_wf x \<and> store_ok x" "list_all skb_wf xs"
    using Cons.prems by (auto simp: list_all_iff)
  have sl: "sint (sk_len (skb x)) = int (length ?b)"
    using x(1) lin_wf_parts(4) [of "skb x"] length_skb_bytes [OF x(1)] by (cases x) auto
  consider "?hi \<le> off" | "off < ?hi" "off + ?n \<le> ?hi" | "off < ?hi" "?hi < off + ?n" by linarith
  then show ?case
  proof cases
    case 1
    have o: "nat (off - start) = length ?b + nat (off - ?hi)" using 1 Cons.prems by linarith
    obtain xs' where "store_list xs ?hi off new = Some (0, xs')" "list_all skb_wf xs'"
      "map (\<lambda>x. sk_len (skb x)) xs' = map (\<lambda>x. sk_len (skb x)) xs"
      "concat (map skb_bytes xs') = upd (nat (off - ?hi)) new (concat (map skb_bytes xs))"
      using Cons.IH [OF xs(1) 1 Cons.prems(3)] Cons.prems(4) by auto
    then show ?thesis
      using 1 o x sl by (intro exI [of _ "x # xs'"]) (simp add: Let_def upd_right)
  next
    case 2
    obtain x' where "skb_store_bits x (off - start) new = Some (0, x')" "skb_wf x'"
      "sk_len (skb x') = sk_len (skb x)" "skb_bytes x' = upd (nat (off - start)) new ?b"
      by (rule exE [OF x(2) [unfolded store_ok_def, rule_format, of "off - start" new]]) (use 2 Cons.prems in auto)
    moreover have "nat (off - start) + length new \<le> length ?b" using 2 Cons.prems by linarith
    moreover have "(if ?n < ?hi - off then ?n else ?hi - off) = ?n" using 2 by simp
    ultimately show ?thesis
      using 2 x xs sl by (intro exI [of _ "x' # xs"]) (simp add: Let_def upd_left)
  next
    case 3
    let ?c = "length ?b - nat (off - start)"
    have c: "nat (?hi - off) = ?c" "?c < length new" "0 < ?c" "nat (off - start) \<le> length ?b" "int ?c = ?hi - off"
      "\<not> ?n < ?hi - off" "?n \<noteq> ?hi - off" "0 \<le> off - start"
      using 3 Cons.prems by linarith+
    have "take ?c new \<noteq> []" "off - start + int (length (take ?c new)) \<le> int (length ?b)" using c by auto
    then obtain x' where x': "skb_store_bits x (off - start) (take ?c new) = Some (0, x')" "skb_wf x'"
      "sk_len (skb x') = sk_len (skb x)" "skb_bytes x' = upd (nat (off - start)) (take ?c new) ?b"
      using x(2) c(8) unfolding store_ok_def by blast
    have b: "upd (nat (off - start)) (take ?c new) ?b = take (nat (off - start)) ?b @ take ?c new"
      using c by (simp add: upd_def)
    have "drop ?c new \<noteq> []" "?hi + int (length (drop ?c new)) \<le> ?hi + int (length (concat (map skb_bytes xs)))"
      using c Cons.prems(4) by auto
    then obtain xs' where "store_list xs ?hi ?hi (drop ?c new) = Some (0, xs')" "list_all skb_wf xs'"
      "map (\<lambda>x. sk_len (skb x)) xs' = map (\<lambda>x. sk_len (skb x)) xs"
      "concat (map skb_bytes xs') = upd 0 (drop ?c new) (concat (map skb_bytes xs))"
      using Cons.IH [OF xs(1) order_refl, of "drop ?c new" ?hi] by auto
    then show ?thesis
      using c(2,4) x' b sl by (intro exI [of _ "x' # xs'"]) (simp add: Let_def upd_both 3 c(1,6,7))
  qed
qed

lemma skb_store_wf:
  assumes "skb_wf (Skb h fl)" "length buf = length (sk_buf h)" "map length fs = map length (sk_frags h)"
    "list_all skb_wf fl'" "map (\<lambda>x. sk_len (skb x)) fl' = map (\<lambda>x. sk_len (skb x)) fl"
  shows "skb_wf (Skb (h\<lparr>sk_buf := buf, sk_frags := fs\<rparr>) fl')"
proof -
  have "map (\<lambda>x. unat (sk_len (skb x))) fl' = map (\<lambda>x. unat (sk_len (skb x))) fl"
    using arg_cong [OF assms(5), of "map unat"] by (simp add: comp_def)
  then show ?thesis
    using assms by (auto simp: lin_wf_def skb_headlen_def length_concat)
qed

lemma splice_lin:
  assumes "lin_wf h" "0 \<le> off" "off + int (length new) \<le> int (unat (skb_headlen h))"
  obtains buf where "splice (sk_buf h) (lin_pos h off) new = Some buf" "length buf = length (sk_buf h)"
    "take (unat (skb_headlen h)) (drop (unat (sk_data h - sk_head h)) buf) =
     upd (nat off) new (take (unat (skb_headlen h)) (drop (unat (sk_data h - sk_head h)) (sk_buf h)))"
proof -
  define D H where "D = unat (sk_data h - sk_head h)" and "H = unat (skb_headlen h)"
  obtain m where m: "off = int m" using assms(2) zero_le_imp_eq_int by blast
  have b: "D + H \<le> length (sk_buf h)" "m + length new \<le> H"
    using lin_wf_parts(2) [OF assms(1)] assms(3) unfolding D_def H_def m by linarith+
  have l: "lin_pos h off = int (D + m)"
    using slice_lin(2) [OF assms(1,2), of "int (length new)"] assms(3) by (simp only: m D_def of_nat_add)
  have "splice (sk_buf h) (lin_pos h off) new = Some (upd (D + m) new (sk_buf h))"
    using splice_upd [of "int (D + m)" new "sk_buf h"] b unfolding l nat_int by linarith
  moreover have "take H (drop D (upd (D + m) new (sk_buf h))) = upd m new (take H (drop D (sk_buf h)))"
    using b by (auto simp: upd_def drop_take add.commute add.left_commute)
  ultimately show ?thesis
    using b by (intro that [of "upd (D + m) new (sk_buf h)"]) (simp_all add: m D_def [symmetric] H_def [symmetric])
qed

lemma skb_store_bits_ok: "skb_wf s \<Longrightarrow> store_ok s"
proof (induction s)
  case (Skb h fl)
  define L where "L = take (unat (skb_headlen h)) (drop (unat (sk_data h - sk_head h)) (sk_buf h))"
  let ?F = "concat (sk_frags h)" and ?G = "concat (map skb_bytes fl)"
  have wf: "lin_wf h" and fl: "\<forall>x \<in> set fl. skb_wf x \<and> store_ok x" "list_all skb_wf fl"
    using Skb by (auto simp: list_all_iff)
  note p = lin_wf_parts [OF wf]
  define H where "H = unat (skb_headlen h)"
  have L: "length L = H" "sint (skb_headlen h) = int H" using p by (auto simp: H_def L_def)
  have B: "skb_bytes (Skb h fl) = L @ ?F @ ?G" using p(1) by (simp add: L_def)
  have len: "sint (sk_len h) = int (length (L @ ?F @ ?G))"
    using length_skb_bytes [OF Skb.prems] p(4) unfolding B by simp
  have tail: "\<exists>fs fl'. do { r \<leftarrow> store_frags (sk_frags h) (int H) off new [];
      case r of Inl fs \<Rightarrow> Some (0, Skb (h\<lparr>sk_buf := buf, sk_frags := fs\<rparr>) fl)
      | Inr (start, off, new, fs) \<Rightarrow> do { (e, fl') \<leftarrow> store_list fl start off new;
          Some (e, Skb (h\<lparr>sk_buf := buf, sk_frags := fs\<rparr>) fl') } } = Some (0, Skb (h\<lparr>sk_buf := buf, sk_frags := fs\<rparr>) fl') \<and>
      map length fs = map length (sk_frags h) \<and> list_all skb_wf fl' \<and>
      map (\<lambda>x. sk_len (skb x)) fl' = map (\<lambda>x. sk_len (skb x)) fl \<and>
      concat fs @ concat (map skb_bytes fl') = upd (nat (off - int H)) new (?F @ ?G)"
    if t: "int H \<le> off" "new \<noteq> []" "off + int (length new) \<le> int (length (L @ ?F @ ?G))" for off new buf
  proof -
    let ?fin = "int H + int (length ?F)" and ?n = "int (length new)"
    obtain fs where fs: "map length fs = map length (sk_frags h)"
      "let fin = ?fin
       in if off + ?n \<le> fin
          then store_frags (sk_frags h) (int H) off new [] = Some (Inl ([] @ fs)) \<and> concat fs = upd (nat (off - int H)) new ?F
          else store_frags (sk_frags h) (int H) off new [] =
                 Some (Inr (fin, max off fin, drop (nat (fin - off)) new, [] @ fs)) \<and>
               concat fs = take (nat (off - int H)) ?F @ take (nat (fin - off)) new"
      using store_frags_spec [OF t(1,2), of "sk_frags h" "[]"] by blast
    show ?thesis
    proof (cases "off + ?n \<le> ?fin")
      case True
      then have "nat (off - int H) + length new \<le> length ?F" using t by linarith
      then show ?thesis using True fs fl by (intro exI [of _ fs] exI [of _ fl]) (simp add: upd_left)
    next
      case False
      let ?o = "max off ?fin" and ?r = "drop (nat (?fin - off)) new"
      have "0 < ?n" using t(2) by simp
      then have lt: "nat (?fin - off) < length new" using False by linarith
      have "length ?r = length new - nat (?fin - off)" by simp
      then have r: "int (length ?r) = off + ?n - ?o" using False lt by linarith
      have "?r \<noteq> []" using lt by simp
      moreover have "?o + int (length ?r) \<le> ?fin + int (length ?G)" using r t(3) L(1) by simp
      ultimately obtain fl' where fl': "store_list fl ?fin ?o ?r = Some (0, fl')" "list_all skb_wf fl'"
        "map (\<lambda>x. sk_len (skb x)) fl' = map (\<lambda>x. sk_len (skb x)) fl"
        "concat (map skb_bytes fl') = upd (nat (?o - ?fin)) ?r ?G"
        using store_list_spec [OF fl(1), of ?fin ?o ?r] by auto
      have "(take (nat (off - int H)) ?F @ take (nat (?fin - off)) new) @ upd (nat (?o - ?fin)) ?r ?G =
          upd (nat (off - int H)) new (?F @ ?G)"
      proof (cases "off \<le> ?fin")
        case True
        then have "nat (?fin - off) = length ?F - nat (off - int H)" "nat (off - int H) \<le> length ?F"
          "length ?F \<le> nat (off - int H) + length new" "nat (?o - ?fin) = 0" using t False by linarith+
        then show ?thesis by (simp add: upd_both)
      next
        case False
        then have "nat (?fin - off) = 0" "length ?F \<le> nat (off - int H)"
          "nat (?o - ?fin) = nat (off - int H) - length ?F" using t by linarith+
        then show ?thesis by (simp add: upd_right)
      qed
      then show ?thesis
        using False fs fl' by (intro exI [of _ fs] exI [of _ fl']) (simp add: Let_def)
    qed
  qed
  show ?case unfolding store_ok_def
  proof (intro allI impI)
    fix off :: int and new :: "u8 list"
    assume o: "0 \<le> off" "new \<noteq> []" "off + int (length new) \<le> int (length (skb_bytes (Skb h fl)))"
    note o' = o(3) [unfolded B]
    let ?n = "int (length new)"
    have res: "\<exists>s'. skb_store_bits (Skb h fl) off new = Some (0, s') \<and> skb_wf s' \<and>
        sk_len (skb s') = sk_len (skb (Skb h fl)) \<and> skb_bytes s' = upd (nat off) new (skb_bytes (Skb h fl))"
      if "skb_store_bits (Skb h fl) off new = Some (0, Skb (h\<lparr>sk_buf := buf, sk_frags := fs\<rparr>) fl')"
        "length buf = length (sk_buf h)" "map length fs = map length (sk_frags h)" "list_all skb_wf fl'"
        "map (\<lambda>x. sk_len (skb x)) fl' = map (\<lambda>x. sk_len (skb x)) fl"
        "take H (drop (unat (sk_data h - sk_head h)) buf) @ concat fs @ concat (map skb_bytes fl') =
         upd (nat off) new (L @ ?F @ ?G)" for buf fs fl'
      using that skb_store_wf [OF Skb.prems that(2-5)] p(1) unfolding B by (auto simp: H_def)
    consider "off + ?n \<le> int H" | "int H < off + ?n" "off < int H" | "int H \<le> off" by linarith
    then show "\<exists>s'. skb_store_bits (Skb h fl) off new = Some (0, s') \<and> skb_wf s' \<and>
        sk_len (skb s') = sk_len (skb (Skb h fl)) \<and> skb_bytes s' = upd (nat off) new (skb_bytes (Skb h fl))"
    proof cases
      case 1
      obtain buf where buf: "splice (sk_buf h) (lin_pos h off) new = Some buf" "length buf = length (sk_buf h)"
        "take H (drop (unat (sk_data h - sk_head h)) buf) = upd (nat off) new L"
        using splice_lin [OF wf o(1), of new, folded L_def H_def] 1 by metis
      have "nat off + length new \<le> length L" using 1 o L by linarith
      moreover have "(if ?n < int H - off then ?n else int H - off) = ?n" "0 < int H - off"
        using 1 o(2) by (simp, cases new) auto
      ultimately show ?thesis
        using buf o' len L fl(2) by (intro res [where buf = buf and fs = "sk_frags h" and fl' = fl]) (simp_all add: Let_def upd_left)
    next
      case 2
      let ?c = "H - nat off"
      have c: "nat (int H - off) = ?c" "?c < length new" "nat off \<le> H" "int ?c = int H - off"
        "\<not> ?n < int H - off" "?n \<noteq> int H - off" using 2 o(1) by linarith+
      have "off + int (length (take ?c new)) \<le> int H" using c by simp
      then obtain buf where buf: "splice (sk_buf h) (lin_pos h off) (take ?c new) = Some buf" "length buf = length (sk_buf h)"
        "take H (drop (unat (sk_data h - sk_head h)) buf) = upd (nat off) (take ?c new) L"
        using splice_lin [OF wf o(1), of "take ?c new", folded L_def H_def] by metis
      have "drop ?c new \<noteq> []" "int H + int (length (drop ?c new)) \<le> int (length (L @ ?F @ ?G))"
        using c o' by auto
      then obtain fs fl' where "do { r \<leftarrow> store_frags (sk_frags h) (int H) (int H) (drop ?c new) [];
      case r of Inl fs \<Rightarrow> Some (0, Skb (h\<lparr>sk_buf := buf, sk_frags := fs\<rparr>) fl)
      | Inr (start, off, new, fs) \<Rightarrow> do { (e, fl') \<leftarrow> store_list fl start off new;
          Some (e, Skb (h\<lparr>sk_buf := buf, sk_frags := fs\<rparr>) fl') } } = Some (0, Skb (h\<lparr>sk_buf := buf, sk_frags := fs\<rparr>) fl')"
        "map length fs = map length (sk_frags h)" "list_all skb_wf fl'"
        "map (\<lambda>x. sk_len (skb x)) fl' = map (\<lambda>x. sk_len (skb x)) fl"
        "concat fs @ concat (map skb_bytes fl') = upd 0 (drop ?c new) (?F @ ?G)"
        using tail [where off = "int H" and new = "drop ?c new" and buf = buf, OF order_refl] unfolding diff_self nat_0 by blast
      then show ?thesis
        using buf o' len L c(2,3)
        by (intro res [where buf = buf and fs = fs and fl' = fl']) (simp_all add: Let_def 2 c(1,5,6) upd_both upd_def [of _ "take ?c new"])
    next
      case 3
      have hb: "h\<lparr>sk_buf := sk_buf h, sk_frags := fs\<rparr> = h\<lparr>sk_frags := fs\<rparr>" for fs by simp
      obtain fs fl' where "do { r \<leftarrow> store_frags (sk_frags h) (int H) off new [];
      case r of Inl fs \<Rightarrow> Some (0, Skb (h\<lparr>sk_frags := fs\<rparr>) fl)
      | Inr (start, off, new, fs) \<Rightarrow> do { (e, fl') \<leftarrow> store_list fl start off new;
          Some (e, Skb (h\<lparr>sk_frags := fs\<rparr>) fl') } } = Some (0, Skb (h\<lparr>sk_frags := fs\<rparr>) fl')"
        "map length fs = map length (sk_frags h)" "list_all skb_wf fl'"
        "map (\<lambda>x. sk_len (skb x)) fl' = map (\<lambda>x. sk_len (skb x)) fl"
        "concat fs @ concat (map skb_bytes fl') = upd (nat (off - int H)) new (?F @ ?G)"
        using tail [where buf = "sk_buf h", OF 3 o(2) o'] unfolding hb by blast
      moreover have "nat (off - int H) = nat off - length L" "length L \<le> nat off" using 3 L by linarith+
      ultimately show ?thesis
        using o' len L 3 by (intro res [where buf = "sk_buf h" and fs = fs and fl' = fl']) (simp_all add: Let_def upd_right L_def [symmetric] H_def)
    qed
  qed
qed

section \<open>Operations on the linear part keep a buffer well formed\<close>

lemma skb_put_wf:
  assumes "lin_wf h" "\<not> skb_is_nonlinear h" "unat len \<le> unat (sk_end h - sk_tail h)" "unat (sk_len h) + unat len < 2 ^ 31"
  obtains h' where "skb_put h len = Some (sk_tail h, h')" "lin_wf h'" "sk_data h' = sk_data h" "sk_len h' = sk_len h + len"
proof -
  have w: "sk_head h \<le> sk_data h" "sk_data h \<le> sk_tail h" "sk_tail h \<le> sk_end h" "sk_tail h = sk_data h + sk_len h"
      "sk_data_len h = 0" "length (sk_buf h) = unat (sk_end h - sk_head h)"
    using assms(1,2) by (auto simp: lin_wf_def skb_headlen_def skb_is_nonlinear_def)
  have e: "unat (sk_end h) = unat (sk_tail h) + unat (sk_end h - sk_tail h)"
    using w(3) unat_sub [OF w(3)] by (simp add: word_le_nat_alt)
  have "unat (sk_tail h) + unat len < 2 ^ 32"
    using assms(3) e unsigned_less [of "sk_end h", where 'a = nat] by simp
  then have t: "unat (sk_tail h + len) = unat (sk_tail h) + unat len"
    by (subst unat_add_lem [THEN iffD1]) auto
  have l: "unat (sk_len h + len) = unat (sk_len h) + unat len"
    using assms(4) by (subst unat_add_lem [THEN iffD1]) auto
  have "sk_tail h + len \<le> sk_end h" "sk_data h \<le> sk_tail h + len"
    using t e assms(3) w(2) by (simp_all add: word_le_nat_alt)
  then show ?thesis
    using w assms(2,4) l
    by (intro that [of "h\<lparr>sk_tail := sk_tail h + len, sk_len := sk_len h + len\<rparr>"])
      (auto simp: skb_put_def Let_def not_less lin_wf_def skb_headlen_def)
qed

lemma skb_pull_push:
  assumes "lin_wf h" "unat len \<le> unat (skb_headlen h)"
  obtains h' where "skb_pull h len = Some (sk_data h + len, h')" "skb_push h' len = Some (sk_data h, h)"
proof -
  note w = assms(1) [unfolded lin_wf_def] and p = lin_wf_parts [OF assms(1)]
  have "\<not> sk_len h < len" using p(5) assms(2) by (simp add: word_less_nat_alt)
  moreover have "\<not> sk_len h - len < sk_data_len h"
  proof -
    have "unat (sk_len h - len) = unat (sk_len h) - unat len"
      using p(5) assms(2) by (intro unat_sub) (simp add: word_le_nat_alt)
    then show ?thesis using p(5) assms(2) by (simp add: word_less_nat_alt)
  qed
  ultimately show ?thesis
    using w by (intro that [of "h\<lparr>sk_len := sk_len h - len, sk_data := sk_data h + len\<rparr>"])
      (auto simp: skb_pull_def skb_pull_unchecked_def skb_push_def Let_def not_less)
qed

section \<open>Properties\<close>

text \<open>
  Five bytes in the linear part, behind two bytes of headroom, three in a page fragment and two in a
  second buffer.
\<close>

definition skb_example :: sk_buff where
  "skb_example = Skb \<lparr>sk_len = 10, sk_data_len = 5, sk_head = 0x100, sk_data = 0x102, sk_tail = 0x107, sk_end = 0x110,
       sk_buf = [0, 0, 1, 2, 3, 4, 5, 0, 0, 0, 0, 0, 0, 0, 0, 0], sk_frags = [[6, 7, 8]], sk_nh = 0x102, sk_mac = 0x100,
       sk_protocol = 8, sk_pkt_type = 0, sk_dev = 0x900\<rparr>
     [Skb \<lparr>sk_len = 2, sk_data_len = 0, sk_head = 0x200, sk_data = 0x200, sk_tail = 0x202, sk_end = 0x202,
       sk_buf = [9, 10], sk_frags = [], sk_nh = 0x200, sk_mac = 0x200, sk_protocol = 8, sk_pkt_type = 0, sk_dev = 0\<rparr> []]"

lemma skb_example_wf: "skb_wf skb_example" "skb_bytes skb_example = [1, 2, 3, 4, 5, 6, 7, 8, 9, 10]"
  by (simp_all add: skb_example_def lin_wf_def skb_headlen_def)

text \<open>
  Property C11. Copying bits out of a well-formed buffer never leaves its memory and yields exactly the
  requested stretch of the buffer's bytes, wherever the stretch begins and ends: in the linear part, in
  page fragments, in the buffers of the fragment list, or across them.  A stretch that reaches past
  the end of the buffer is refused with \<open>-EFAULT\<close>.
\<close>

theorem skb_copy_bits_flat:
  assumes "skb_wf s" "0 \<le> off" "0 < len"
  shows "skb_copy_bits s off len =
    Some (if off + len \<le> int (unat (sk_len (skb s))) then Inr (take (nat len) (drop (nat off) (skb_bytes s)))
          else Inl (- EFAULT))"
  using skb_copy_bits_ok [OF assms(1)] assms(2,3) length_skb_bytes [OF assms(1)] unfolding copy_ok_def by auto

theorem skb_copy_bits_flat_witness:
  "skb_copy_bits skb_example 3 6 = Some (Inr [4, 5, 6, 7, 8, 9]) \<and> skb_copy_bits skb_example 8 3 = Some (Inl (- EFAULT))"
  using skb_copy_bits_flat [OF skb_example_wf(1), of 3 6] skb_copy_bits_flat [OF skb_example_wf(1), of 8 3]
  unfolding skb_example_wf(2) by (simp add: skb_example_def)

text \<open>
  Property C10. Bytes stored into a well-formed buffer are the bytes copied out of it again, every byte
  outside the stored stretch keeps its value, and the buffer stays well formed.
\<close>

theorem skb_store_copy_bits:
  assumes "skb_wf s" "0 \<le> off" "new \<noteq> []" "off + int (length new) \<le> int (unat (sk_len (skb s)))"
  shows "\<exists>s'. skb_store_bits s off new = Some (0, s') \<and> skb_wf s' \<and>
    skb_copy_bits s' off (int (length new)) = Some (Inr new) \<and>
    take (nat off) (skb_bytes s') = take (nat off) (skb_bytes s) \<and>
    drop (nat off + length new) (skb_bytes s') = drop (nat off + length new) (skb_bytes s)"
proof -
  have l: "off + int (length new) \<le> int (length (skb_bytes s))"
    using assms(4) length_skb_bytes [OF assms(1)] by simp
  obtain s' where s': "skb_store_bits s off new = Some (0, s')" "skb_wf s'" "skb_bytes s' = upd (nat off) new (skb_bytes s)"
    using skb_store_bits_ok [OF assms(1), unfolded store_ok_def, rule_format, OF assms(2,3) l] by blast
  have b: "nat off + length new \<le> length (skb_bytes s)" using l assms(2) by linarith
  have "off + int (length new) \<le> int (length (skb_bytes s'))" using s'(3) b assms(2) by simp
  moreover have "0 < int (length new)" using assms(3) by simp
  ultimately have "skb_copy_bits s' off (int (length new)) = Some (Inr (take (length new) (drop (nat off) (skb_bytes s'))))"
    using skb_copy_bits_ok [OF s'(2), unfolded copy_ok_def, rule_format, OF assms(2)] by simp
  then show ?thesis using s' b by (auto simp: upd_def)
qed

theorem skb_store_copy_bits_witness:
  "\<exists>s'. skb_store_bits skb_example 4 [20, 21, 22, 23, 24] = Some (0, s') \<and>
    skb_copy_bits s' 4 5 = Some (Inr [20, 21, 22, 23, 24])"
proof -
  have "4 + int (length [20, 21, 22, 23, 24 :: u8]) \<le> int (unat (sk_len (skb skb_example)))"
    by (simp add: skb_example_def)
  from skb_store_copy_bits [OF skb_example_wf(1) _ _ this] show ?thesis by auto
qed

end
