(* ===== verification/Sk_Filter.thy ===== *)
theory Sk_Filter
  imports Skb
begin

text \<open>
  The socket filter machine, \<open>net/core/filter.c\<close>: \<open>sk_chk_filter\<close> accepts a program of the Berkeley packet
  filter and \<open>sk_run_filter\<close> interprets it on a packet.  \<open>None\<close> stands for an access outside the program,
  the scratch memory or the packet, for a division trap, a \<open>NULL\<close> device, or an endless run.  The scratch
  memory is an automatic array that the source does not initialise: its contents are a parameter.
\<close>

section \<open>Data\<close>

record sock_filter =
  sf_code :: u16
  sf_jt :: u8
  sf_jf :: u8
  sf_k :: u32

record bpf =
  bpf_pc :: int
  bpf_A :: u32
  bpf_X :: u32
  bpf_mem :: "nat \<Rightarrow> u32"

abbreviation (input) BPF_MEMWORDS :: nat where "BPF_MEMWORDS \<equiv> 16"
abbreviation (input) BPF_MAXINSNS :: nat where "BPF_MAXINSNS \<equiv> 4096"
abbreviation (input) SKF_AD_OFF :: int where "SKF_AD_OFF \<equiv> - 0x1000"
abbreviation (input) SKF_NET_OFF :: int where "SKF_NET_OFF \<equiv> - 0x100000"
abbreviation (input) SKF_LL_OFF :: int where "SKF_LL_OFF \<equiv> - 0x200000"

text \<open>The opcodes: class, operation or mode, and operand combined, \<open>BPF_ALU|BPF_ADD|BPF_K\<close> and so on.\<close>

abbreviation (input) BPF_ALU_ADD_K :: u16 where "BPF_ALU_ADD_K \<equiv> 0x04"
abbreviation (input) BPF_ALU_ADD_X :: u16 where "BPF_ALU_ADD_X \<equiv> 0x0C"
abbreviation (input) BPF_ALU_SUB_K :: u16 where "BPF_ALU_SUB_K \<equiv> 0x14"
abbreviation (input) BPF_ALU_SUB_X :: u16 where "BPF_ALU_SUB_X \<equiv> 0x1C"
abbreviation (input) BPF_ALU_MUL_K :: u16 where "BPF_ALU_MUL_K \<equiv> 0x24"
abbreviation (input) BPF_ALU_MUL_X :: u16 where "BPF_ALU_MUL_X \<equiv> 0x2C"
abbreviation (input) BPF_ALU_DIV_K :: u16 where "BPF_ALU_DIV_K \<equiv> 0x34"
abbreviation (input) BPF_ALU_DIV_X :: u16 where "BPF_ALU_DIV_X \<equiv> 0x3C"
abbreviation (input) BPF_ALU_OR_K :: u16 where "BPF_ALU_OR_K \<equiv> 0x44"
abbreviation (input) BPF_ALU_OR_X :: u16 where "BPF_ALU_OR_X \<equiv> 0x4C"
abbreviation (input) BPF_ALU_AND_K :: u16 where "BPF_ALU_AND_K \<equiv> 0x54"
abbreviation (input) BPF_ALU_AND_X :: u16 where "BPF_ALU_AND_X \<equiv> 0x5C"
abbreviation (input) BPF_ALU_LSH_K :: u16 where "BPF_ALU_LSH_K \<equiv> 0x64"
abbreviation (input) BPF_ALU_LSH_X :: u16 where "BPF_ALU_LSH_X \<equiv> 0x6C"
abbreviation (input) BPF_ALU_RSH_K :: u16 where "BPF_ALU_RSH_K \<equiv> 0x74"
abbreviation (input) BPF_ALU_RSH_X :: u16 where "BPF_ALU_RSH_X \<equiv> 0x7C"
abbreviation (input) BPF_ALU_NEG :: u16 where "BPF_ALU_NEG \<equiv> 0x84"
abbreviation (input) BPF_JMP_JA :: u16 where "BPF_JMP_JA \<equiv> 0x05"
abbreviation (input) BPF_JMP_JEQ_K :: u16 where "BPF_JMP_JEQ_K \<equiv> 0x15"
abbreviation (input) BPF_JMP_JEQ_X :: u16 where "BPF_JMP_JEQ_X \<equiv> 0x1D"
abbreviation (input) BPF_JMP_JGT_K :: u16 where "BPF_JMP_JGT_K \<equiv> 0x25"
abbreviation (input) BPF_JMP_JGT_X :: u16 where "BPF_JMP_JGT_X \<equiv> 0x2D"
abbreviation (input) BPF_JMP_JGE_K :: u16 where "BPF_JMP_JGE_K \<equiv> 0x35"
abbreviation (input) BPF_JMP_JGE_X :: u16 where "BPF_JMP_JGE_X \<equiv> 0x3D"
abbreviation (input) BPF_JMP_JSET_K :: u16 where "BPF_JMP_JSET_K \<equiv> 0x45"
abbreviation (input) BPF_JMP_JSET_X :: u16 where "BPF_JMP_JSET_X \<equiv> 0x4D"
abbreviation (input) BPF_LD_W_ABS :: u16 where "BPF_LD_W_ABS \<equiv> 0x20"
abbreviation (input) BPF_LD_H_ABS :: u16 where "BPF_LD_H_ABS \<equiv> 0x28"
abbreviation (input) BPF_LD_B_ABS :: u16 where "BPF_LD_B_ABS \<equiv> 0x30"
abbreviation (input) BPF_LD_W_LEN :: u16 where "BPF_LD_W_LEN \<equiv> 0x80"
abbreviation (input) BPF_LDX_W_LEN :: u16 where "BPF_LDX_W_LEN \<equiv> 0x81"
abbreviation (input) BPF_LD_W_IND :: u16 where "BPF_LD_W_IND \<equiv> 0x40"
abbreviation (input) BPF_LD_H_IND :: u16 where "BPF_LD_H_IND \<equiv> 0x48"
abbreviation (input) BPF_LD_B_IND :: u16 where "BPF_LD_B_IND \<equiv> 0x50"
abbreviation (input) BPF_LDX_B_MSH :: u16 where "BPF_LDX_B_MSH \<equiv> 0xB1"
abbreviation (input) BPF_LD_IMM :: u16 where "BPF_LD_IMM \<equiv> 0x00"
abbreviation (input) BPF_LDX_IMM :: u16 where "BPF_LDX_IMM \<equiv> 0x01"
abbreviation (input) BPF_LD_MEM :: u16 where "BPF_LD_MEM \<equiv> 0x60"
abbreviation (input) BPF_LDX_MEM :: u16 where "BPF_LDX_MEM \<equiv> 0x61"
abbreviation (input) BPF_MISC_TAX :: u16 where "BPF_MISC_TAX \<equiv> 0x07"
abbreviation (input) BPF_MISC_TXA :: u16 where "BPF_MISC_TXA \<equiv> 0x87"
abbreviation (input) BPF_RET_K :: u16 where "BPF_RET_K \<equiv> 0x06"
abbreviation (input) BPF_RET_A :: u16 where "BPF_RET_A \<equiv> 0x16"
abbreviation (input) BPF_ST :: u16 where "BPF_ST \<equiv> 0x02"
abbreviation (input) BPF_STX :: u16 where "BPF_STX \<equiv> 0x03"

section \<open>Loading from the packet\<close>

definition load_pointer_neg :: "skb_hdr \<Rightarrow> int \<Rightarrow> addr" where
  "load_pointer_neg h k =
     (let ptr = (if SKF_NET_OFF \<le> k then sk_nh h + of_int k - of_int SKF_NET_OFF
                 else if SKF_LL_OFF \<le> k then sk_mac h + of_int k - of_int SKF_LL_OFF else 0)
      in if sk_head h \<le> ptr \<and> ptr < sk_tail h then ptr else 0)"

text \<open>
  \<open>skb_header_pointer\<close> and \<open>load_pointer\<close> return a pointer that is read at once; the model returns the
  bytes that are read, \<open>Some None\<close> for \<open>NULL\<close>.
\<close>

definition skb_header_pointer :: "sk_buff \<Rightarrow> int \<Rightarrow> int \<Rightarrow> u8 list option option" where
  "skb_header_pointer s offset len =
     (let hlen = sint (skb_headlen (skb s))
      in if len \<le> hlen - offset then do { bs \<leftarrow> slice (sk_buf (skb s)) (lin_pos (skb s) offset) len; Some (Some bs) }
         else do { r \<leftarrow> skb_copy_bits s offset len;
                   Some (case r of Inl e \<Rightarrow> None | Inr bs \<Rightarrow> Some bs) })"

definition load_pointer :: "sk_buff \<Rightarrow> int \<Rightarrow> int \<Rightarrow> u8 list option option" where
  "load_pointer s k len =
     (if 0 \<le> k then skb_header_pointer s k len
      else if SKF_AD_OFF \<le> k then Some None
      else let ptr = load_pointer_neg (skb s) k
           in if ptr = 0 then Some None
              else do { bs \<leftarrow> slice (sk_buf (skb s)) (uint (ptr - sk_head (skb s))) len; Some (Some bs) })"

section \<open>Running a program\<close>

text \<open>
  The labels \<open>load_w\<close>, \<open>load_h\<close> and \<open>load_b\<close>, with the ancillary data behind the first \<open>switch\<close>.  \<open>ifx\<close> gives
  the \<open>ifindex\<close> of a device.
\<close>

definition bpf_load ::
  "(addr \<rightharpoonup> u32) \<Rightarrow> sk_buff \<Rightarrow> int \<Rightarrow> int \<Rightarrow> bpf \<Rightarrow> (bpf + u32) option" where
  "bpf_load ifx s k len st = do {
     r \<leftarrow> load_pointer s k len;
     case r of Some bs \<Rightarrow> Some (Inl (st\<lparr>bpf_A := be_value bs\<rparr>))
     | None \<Rightarrow>
         if k - SKF_AD_OFF = 0 then
           Some (Inl (st\<lparr>bpf_A := be_value [ucast (sk_protocol (skb s)), ucast (drop_bit 8 (sk_protocol (skb s)))]\<rparr>))
         else if k - SKF_AD_OFF = 4 then Some (Inl (st\<lparr>bpf_A := ucast (sk_pkt_type (skb s))\<rparr>))
         else if k - SKF_AD_OFF = 8 then do { i \<leftarrow> ifx (sk_dev (skb s)); Some (Inl (st\<lparr>bpf_A := i\<rparr>)) }
         else Some (Inr 0) }"

text \<open>
  One instruction: \<open>Inl\<close> continues the loop, \<open>Inr\<close> returns.  Shift counts are taken modulo 32, as the
  processor does.
\<close>

definition bpf_step ::
  "(addr \<rightharpoonup> u32) \<Rightarrow> sk_buff \<Rightarrow> sock_filter \<Rightarrow> bpf \<Rightarrow> (bpf + u32) option" where
  "bpf_step ifx s f st =
     (let code = sf_code f; k = sf_k f; A = bpf_A st; X = bpf_X st;
          setA = (\<lambda>v. Some (Inl (st\<lparr>bpf_A := v\<rparr>))); setX = (\<lambda>v. Some (Inl (st\<lparr>bpf_X := v\<rparr>)));
          jump = (\<lambda>b. Some (Inl (st\<lparr>bpf_pc := bpf_pc st + uint (if b then sf_jt f else sf_jf f)\<rparr>)))
      in if code = BPF_ALU_ADD_X then setA (A + X)
         else if code = BPF_ALU_ADD_K then setA (A + k)
         else if code = BPF_ALU_SUB_X then setA (A - X)
         else if code = BPF_ALU_SUB_K then setA (A - k)
         else if code = BPF_ALU_MUL_X then setA (A * X)
         else if code = BPF_ALU_MUL_K then setA (A * k)
         else if code = BPF_ALU_DIV_X then if X = 0 then Some (Inr 0) else setA (A div X)
         else if code = BPF_ALU_DIV_K then if k = 0 then None else setA (A div k)
         else if code = BPF_ALU_AND_X then setA (A AND X)
         else if code = BPF_ALU_AND_K then setA (A AND k)
         else if code = BPF_ALU_OR_X then setA (A OR X)
         else if code = BPF_ALU_OR_K then setA (A OR k)
         else if code = BPF_ALU_LSH_X then setA (push_bit (unat X mod 32) A)
         else if code = BPF_ALU_LSH_K then setA (push_bit (unat k mod 32) A)
         else if code = BPF_ALU_RSH_X then setA (drop_bit (unat X mod 32) A)
         else if code = BPF_ALU_RSH_K then setA (drop_bit (unat k mod 32) A)
         else if code = BPF_ALU_NEG then setA (- A)
         else if code = BPF_JMP_JA then Some (Inl (st\<lparr>bpf_pc := sint (of_int (bpf_pc st) + k)\<rparr>))
         else if code = BPF_JMP_JGT_K then jump (k < A)
         else if code = BPF_JMP_JGE_K then jump (k \<le> A)
         else if code = BPF_JMP_JEQ_K then jump (A = k)
         else if code = BPF_JMP_JSET_K then jump (A AND k \<noteq> 0)
         else if code = BPF_JMP_JGT_X then jump (X < A)
         else if code = BPF_JMP_JGE_X then jump (X \<le> A)
         else if code = BPF_JMP_JEQ_X then jump (A = X)
         else if code = BPF_JMP_JSET_X then jump (A AND X \<noteq> 0)
         else if code = BPF_LD_W_ABS then bpf_load ifx s (sint k) 4 st
         else if code = BPF_LD_H_ABS then bpf_load ifx s (sint k) 2 st
         else if code = BPF_LD_B_ABS then bpf_load ifx s (sint k) 1 st
         else if code = BPF_LD_W_LEN then setA (sk_len (skb s))
         else if code = BPF_LDX_W_LEN then setX (sk_len (skb s))
         else if code = BPF_LD_W_IND then bpf_load ifx s (sint (X + k)) 4 st
         else if code = BPF_LD_H_IND then bpf_load ifx s (sint (X + k)) 2 st
         else if code = BPF_LD_B_IND then bpf_load ifx s (sint (X + k)) 1 st
         else if code = BPF_LDX_B_MSH then do {
           r \<leftarrow> load_pointer s (sint k) 1;
           case r of Some bs \<Rightarrow> setX (push_bit 2 (be_value bs AND 0xF)) | None \<Rightarrow> Some (Inr 0) }
         else if code = BPF_LD_IMM then setA k
         else if code = BPF_LDX_IMM then setX k
         else if code = BPF_LD_MEM then if unat k < BPF_MEMWORDS then setA (bpf_mem st (unat k)) else None
         else if code = BPF_LDX_MEM then if unat k < BPF_MEMWORDS then setX (bpf_mem st (unat k)) else None
         else if code = BPF_MISC_TAX then setX A
         else if code = BPF_MISC_TXA then setA X
         else if code = BPF_RET_K then Some (Inr k)
         else if code = BPF_RET_A then Some (Inr A)
         else if code = BPF_ST then
           if unat k < BPF_MEMWORDS then Some (Inl (st\<lparr>bpf_mem := (bpf_mem st)(unat k := A)\<rparr>)) else None
         else if code = BPF_STX then
           if unat k < BPF_MEMWORDS then Some (Inl (st\<lparr>bpf_mem := (bpf_mem st)(unat k := X)\<rparr>)) else None
         else Some (Inr 0))"

definition fetch :: "sock_filter list \<Rightarrow> int \<Rightarrow> sock_filter option" where
  "fetch prog pc = (if 0 \<le> pc \<and> pc < int (length prog) then Some (prog ! nat pc) else None)"

partial_function (option) bpf_loop ::
  "(addr \<rightharpoonup> u32) \<Rightarrow> sk_buff \<Rightarrow> sock_filter list \<Rightarrow> bpf \<Rightarrow> u32 option" where
  "bpf_loop ifx s prog st =
     (if bpf_pc st < int (length prog) then do {
        f \<leftarrow> fetch prog (bpf_pc st);
        r \<leftarrow> bpf_step ifx s f st;
        case r of Inl st \<Rightarrow> bpf_loop ifx s prog (st\<lparr>bpf_pc := bpf_pc st + 1\<rparr>) | Inr v \<Rightarrow> Some v }
      else Some 0)"

definition sk_run_filter ::
  "(addr \<rightharpoonup> u32) \<Rightarrow> (nat \<Rightarrow> u32) \<Rightarrow> sk_buff \<Rightarrow> sock_filter list \<Rightarrow> u32 option" where
  "sk_run_filter ifx stack s prog =
     bpf_loop ifx s prog \<lparr>bpf_pc = 0, bpf_A = 0, bpf_X = 0, bpf_mem = stack\<rparr>"

section \<open>Checking a program\<close>

definition chk_insn :: "nat \<Rightarrow> nat \<Rightarrow> sock_filter \<Rightarrow> bool" where
  "chk_insn flen pc f =
     (let code = sf_code f
      in if code \<in> {BPF_ALU_ADD_K, BPF_ALU_ADD_X, BPF_ALU_SUB_K, BPF_ALU_SUB_X, BPF_ALU_MUL_K, BPF_ALU_MUL_X,
           BPF_ALU_DIV_X, BPF_ALU_AND_K, BPF_ALU_AND_X, BPF_ALU_OR_K, BPF_ALU_OR_X, BPF_ALU_LSH_K, BPF_ALU_LSH_X,
           BPF_ALU_RSH_K, BPF_ALU_RSH_X, BPF_ALU_NEG, BPF_LD_W_ABS, BPF_LD_H_ABS, BPF_LD_B_ABS, BPF_LD_W_LEN,
           BPF_LD_W_IND, BPF_LD_H_IND, BPF_LD_B_IND, BPF_LD_IMM, BPF_LDX_W_LEN, BPF_LDX_B_MSH, BPF_LDX_IMM,
           BPF_MISC_TAX, BPF_MISC_TXA, BPF_RET_K, BPF_RET_A} then True
         else if code = BPF_ALU_DIV_K then sf_k f \<noteq> 0
         else if code \<in> {BPF_LD_MEM, BPF_LDX_MEM, BPF_ST, BPF_STX} then \<not> of_nat BPF_MEMWORDS \<le> sf_k f
         else if code = BPF_JMP_JA then \<not> of_int (int flen - int pc - 1) \<le> sf_k f
         else if code \<in> {BPF_JMP_JEQ_K, BPF_JMP_JEQ_X, BPF_JMP_JGE_K, BPF_JMP_JGE_X, BPF_JMP_JGT_K, BPF_JMP_JGT_X,
           BPF_JMP_JSET_K, BPF_JMP_JSET_X} then
           \<not> (flen \<le> pc + unat (sf_jt f) + 1 \<or> flen \<le> pc + unat (sf_jf f) + 1)
         else False)"

fun chk_loop :: "nat \<Rightarrow> nat \<Rightarrow> sock_filter list \<Rightarrow> bool" where
  "chk_loop flen pc [] = True"
| "chk_loop flen pc (f # fs) = (if chk_insn flen pc f then chk_loop flen (pc + 1) fs else False)"

definition sk_chk_filter :: "sock_filter list \<Rightarrow> int" where
  "sk_chk_filter prog =
     (if length prog = 0 \<or> BPF_MAXINSNS < length prog then - EINVAL
      else if \<not> chk_loop (length prog) 0 prog then - EINVAL
      else if sf_code (last prog) AND 7 = 6 then 0 else - EINVAL)"

section \<open>Accepted programs are safe\<close>

text \<open>
  A packet the filter may be run on: well formed, of a known device, and with three bytes of room behind
  the data, because loads relative to a header check the first byte only.
\<close>

definition filter_env :: "(addr \<rightharpoonup> u32) \<Rightarrow> sk_buff \<Rightarrow> bool" where
  "filter_env ifx s \<longleftrightarrow> skb_wf s \<and> ifx (sk_dev (skb s)) \<noteq> None \<and> 3 \<le> unat (sk_end (skb s) - sk_tail (skb s))"

lemma load_pointer_total:
  assumes "skb_wf s" "3 \<le> unat (sk_end (skb s) - sk_tail (skb s))" "0 < len" "len \<le> 4"
  shows "\<exists>r. load_pointer s k len = Some r"
proof -
  obtain h fl where s: "s = Skb h fl" by (cases s)
  have wf: "lin_wf h" using assms(1) s by simp
  note p = lin_wf_parts [OF wf]
  consider "0 \<le> k" "len \<le> sint (skb_headlen h) - k" | "0 \<le> k" "\<not> len \<le> sint (skb_headlen h) - k" | "k < 0" by linarith
  then show ?thesis
  proof cases
    case 1
    then have "slice (sk_buf h) (lin_pos h k) len \<noteq> None"
      using slice_lin(1) [OF wf 1(1), of len] assms(3) unfolding p(3) by simp
    then show ?thesis using 1 by (auto simp: load_pointer_def skb_header_pointer_def s Let_def)
  next
    case 2
    then have "\<exists>r. skb_copy_bits s k len = Some r"
      using skb_copy_bits_ok [OF assms(1)] assms(3) unfolding copy_ok_def by blast
    then show ?thesis using 2 by (auto simp: load_pointer_def skb_header_pointer_def s Let_def)
  next
    case 3
    define ptr where "ptr = load_pointer_neg h k"
    have "slice (sk_buf h) (uint (ptr - sk_head h)) len \<noteq> None" if "ptr \<noteq> 0"
    proof -
      have b: "sk_head h \<le> ptr" "ptr < sk_tail h"
        using that unfolding ptr_def load_pointer_neg_def Let_def by (auto split: if_splits)
      have w: "sk_tail h \<le> sk_end h" "sk_head h \<le> sk_end h" "length (sk_buf h) = unat (sk_end h - sk_head h)"
        using wf by (auto simp: lin_wf_def)
      have "unat (ptr - sk_head h) + nat len \<le> length (sk_buf h)"
        using b w assms(2-4) s unat_sub [OF b(1)] unat_sub [OF w(1)] unat_sub [OF w(2)]
        by (simp add: word_le_nat_alt word_less_nat_alt)
      then have "int (unat (ptr - sk_head h)) + len \<le> int (length (sk_buf h))" using assms(3) by linarith
      then show ?thesis using assms(3) by (simp add: slice_def)
    qed
    then show ?thesis using 3 by (auto simp: load_pointer_def s Let_def ptr_def)
  qed
qed

text \<open>One accepted instruction: it does not fault and the program counter moves forward, inside the program.\<close>

definition step_ok :: "nat \<Rightarrow> bpf \<Rightarrow> (bpf + u32) option \<Rightarrow> bool" where
  "step_ok flen st r \<longleftrightarrow> (case r of None \<Rightarrow> False | Some (Inr v) \<Rightarrow> True
     | Some (Inl st') \<Rightarrow> bpf_pc st \<le> bpf_pc st' \<and> bpf_pc st' < int flen)"

lemma step_ok_simps [simp]:
  "\<not> step_ok flen st None" "step_ok flen st (Some (Inr v))"
  "step_ok flen st (Some (Inl st')) \<longleftrightarrow> bpf_pc st \<le> bpf_pc st' \<and> bpf_pc st' < int flen"
  by (simp_all add: step_ok_def)

lemma step_ok_load:
  assumes "filter_env ifx s" "0 < len" "len \<le> 4" "bpf_pc st < int flen"
  shows "step_ok flen st (bpf_load ifx s k len st)"
proof -
  obtain r where "load_pointer s k len = Some r"
    using load_pointer_total assms by (meson filter_env_def)
  moreover obtain i where "ifx (sk_dev (skb s)) = Some i" using assms(1) by (auto simp: filter_env_def)
  ultimately show ?thesis
    using assms(4) by (cases r) (auto simp: bpf_load_def)
qed

lemma step_ok_ja:
  fixes k :: u32
  assumes "bpf_pc st = int pc" "pc < flen" "flen \<le> BPF_MAXINSNS" "\<not> of_int (int flen - int pc - 1) \<le> k"
  shows "int pc \<le> sint (of_int (bpf_pc st) + k) \<and> sint (of_int (bpf_pc st) + k) < int flen"
proof -
  have e: "of_int (int flen - int pc - 1) = (of_nat (flen - pc - 1) :: u32)"
    using assms(2) by (simp add: of_nat_diff)
  have "flen - pc - 1 < 2 ^ 32" using assms(3) by simp
  then have "unat (of_nat (flen - pc - 1) :: u32) = flen - pc - 1"
    unfolding unat_of_nat by simp
  then have k: "unat k < flen - pc - 1"
    using assms(4) unfolding e by (simp only: word_le_nat_alt not_le)
  have "unat (of_nat pc + k) = pc + unat k"
    using k assms(2,3) by (subst unat_add_lem [THEN iffD1]) (auto simp: unat_of_nat take_bit_nat_eq_self)
  then have "sint (of_nat pc + k) = int (pc + unat k)"
    using k assms(3) by (subst sint_small) auto
  then show ?thesis using k by (simp add: assms(1) del: of_nat_add)
qed

lemma step_ok_msh:
  assumes "filter_env ifx s" "bpf_pc st < int flen"
  shows "step_ok flen st (do { r \<leftarrow> load_pointer s k 1;
    case r of Some bs \<Rightarrow> Some (Inl (st\<lparr>bpf_X := f bs\<rparr>)) | None \<Rightarrow> Some (Inr 0) })"
proof -
  obtain r where "load_pointer s k 1 = Some r"
    using load_pointer_total [of s 1 k] assms(1) by (auto simp: filter_env_def)
  then show ?thesis using assms(2) by (cases r) auto
qed

text \<open>What acceptance says about the instructions that need it.\<close>

lemma chk_insn_special:
  assumes "chk_insn flen pc f"
  shows "sf_code f = BPF_ALU_DIV_K \<Longrightarrow> sf_k f \<noteq> 0"
    "sf_code f = BPF_LD_MEM \<Longrightarrow> unat (sf_k f) < BPF_MEMWORDS" "sf_code f = BPF_LDX_MEM \<Longrightarrow> unat (sf_k f) < BPF_MEMWORDS"
    "sf_code f = BPF_ST \<Longrightarrow> unat (sf_k f) < BPF_MEMWORDS" "sf_code f = BPF_STX \<Longrightarrow> unat (sf_k f) < BPF_MEMWORDS"
    "sf_code f = BPF_JMP_JA \<Longrightarrow> \<not> of_int (int flen - int pc - 1) \<le> sf_k f"
    "sf_code f \<in> {BPF_JMP_JEQ_K, BPF_JMP_JEQ_X, BPF_JMP_JGE_K, BPF_JMP_JGE_X, BPF_JMP_JGT_K, BPF_JMP_JGT_X,
       BPF_JMP_JSET_K, BPF_JMP_JSET_X} \<Longrightarrow> pc + unat (if b then sf_jt f else sf_jf f) + 1 < flen"
  using assms by (auto simp: chk_insn_def Let_def not_le word_less_nat_alt)

lemma step_ok_if: "(c \<Longrightarrow> step_ok n st x) \<Longrightarrow> step_ok n st y \<Longrightarrow> step_ok n st (if c then x else y)"
  by simp

lemma step_ok_check: "c \<Longrightarrow> step_ok n st x \<Longrightarrow> step_ok n st (if c then x else y)"
  by simp

lemma bpf_step_ok:
  assumes "filter_env ifx s" "chk_insn flen pc f" "bpf_pc st = int pc" "pc < flen" "flen \<le> BPF_MAXINSNS"
  shows "step_ok flen st (bpf_step ifx s f st)"
proof -
  have pc: "bpf_pc st < int flen" using assms(3,4) by simp
  note sp = chk_insn_special [OF assms(2)]
  have jmp: "step_ok flen st (Some (Inl (st\<lparr>bpf_pc := bpf_pc st + uint (if b then sf_jt f else sf_jf f)\<rparr>)))"
    if "sf_code f \<in> {BPF_JMP_JEQ_K, BPF_JMP_JEQ_X, BPF_JMP_JGE_K, BPF_JMP_JGE_X, BPF_JMP_JGT_K, BPF_JMP_JGT_X,
       BPF_JMP_JSET_K, BPF_JMP_JSET_X}" for b
  proof -
    define j where "j = (if b then sf_jt f else sf_jf f)"
    have "pc + unat j + 1 < flen" using sp(7) [OF that, of b] by (simp add: j_def)
    then have "int pc + int (unat j) < int flen" by linarith
    then show ?thesis unfolding j_def [symmetric] using assms(3) by simp
  qed
  have div: "sf_code f = BPF_ALU_DIV_K \<Longrightarrow> step_ok flen st (if sf_k f = 0 then None else Some (Inl (st\<lparr>bpf_A := v\<rparr>)))" for v
    using sp(1) pc by simp
  have ja: "sf_code f = BPF_JMP_JA \<Longrightarrow> step_ok flen st (Some (Inl (st\<lparr>bpf_pc := sint (of_int (bpf_pc st) + sf_k f)\<rparr>)))"
    using step_ok_ja [OF assms(3-5)] sp(6) assms(3) by simp
  show ?thesis
    unfolding bpf_step_def Let_def
    by ((rule div ja, assumption) | (rule step_ok_check, erule sp(2-5)) | rule step_ok_if | (rule jmp, simp)
        | rule step_ok_load [OF assms(1) _ _ pc] step_ok_msh [OF assms(1) pc] | simp add: pc)+
qed

lemma chk_loop_nth: "chk_loop flen pc fs \<Longrightarrow> i < length fs \<Longrightarrow> chk_insn flen (pc + i) (fs ! i)"
proof (induction fs arbitrary: pc i)
  case (Cons f fs)
  then show ?case using Cons.IH [of "pc + 1" "i - 1"] by (cases i) (auto split: if_splits)
qed simp

lemma bpf_loop_returns:
  assumes "filter_env ifx s" "chk_loop (length prog) 0 prog" "length prog \<le> BPF_MAXINSNS" "0 \<le> bpf_pc st"
  shows "\<exists>v. bpf_loop ifx s prog st = Some v"
  using assms(4)
proof (induction "nat (int (length prog) - bpf_pc st)" arbitrary: st rule: less_induct)
  case less
  show ?case
  proof (cases "bpf_pc st < int (length prog)")
    case False
    then show ?thesis by (simp add: bpf_loop.simps)
  next
    case True
    define pc where "pc = nat (bpf_pc st)"
    have pc: "bpf_pc st = int pc" "pc < length prog" using True less.prems by (auto simp: pc_def)
    have "step_ok (length prog) st (bpf_step ifx s (prog ! pc) st)"
      using bpf_step_ok [OF assms(1) _ pc assms(3)] chk_loop_nth [OF assms(2) pc(2)] by simp
    then consider st' where "bpf_step ifx s (prog ! pc) st = Some (Inl st')" "bpf_pc st \<le> bpf_pc st'"
        "bpf_pc st' < int (length prog)"
      | v where "bpf_step ifx s (prog ! pc) st = Some (Inr v)"
      by (auto simp: step_ok_def split: option.splits sum.splits)
    then show ?thesis
    proof cases
      case 1
      have "\<exists>v. bpf_loop ifx s prog (st'\<lparr>bpf_pc := bpf_pc st' + 1\<rparr>) = Some v"
        by (rule less.hyps) (use 1 less.prems True in auto)
      then show ?thesis using 1 pc True by (subst bpf_loop.simps) (auto simp: fetch_def)
    next
      case 2
      then show ?thesis using pc True by (subst bpf_loop.simps) (auto simp: fetch_def)
    qed
  qed
qed

section \<open>Properties\<close>

text \<open>A packet of ten bytes, and a program that loads, jumps, stores and computes.\<close>

definition filter_packet :: sk_buff where
  "filter_packet = skb_example"

definition filter_program :: "sock_filter list" where
  "filter_program =
     [\<lparr>sf_code = BPF_LD_H_ABS, sf_jt = 0, sf_jf = 0, sf_k = 4\<rparr>,
      \<lparr>sf_code = BPF_JMP_JEQ_K, sf_jt = 0, sf_jf = 3, sf_k = 0x506\<rparr>,
      \<lparr>sf_code = BPF_ST, sf_jt = 0, sf_jf = 0, sf_k = 15\<rparr>,
      \<lparr>sf_code = BPF_ALU_DIV_K, sf_jt = 0, sf_jf = 0, sf_k = 2\<rparr>,
      \<lparr>sf_code = BPF_RET_A, sf_jt = 0, sf_jf = 0, sf_k = 0\<rparr>,
      \<lparr>sf_code = BPF_RET_K, sf_jt = 0, sf_jf = 0, sf_k = 0\<rparr>]"

lemma filter_program_ok: "sk_chk_filter filter_program = 0"
  by (simp add: sk_chk_filter_def filter_program_def chk_insn_def)

lemma filter_packet_env: "filter_env [0x900 \<mapsto> 2] filter_packet"
  using skb_example_wf by (simp add: filter_env_def filter_packet_def skb_example_def)



text \<open>
  A program may read scratch memory that it never wrote: \<open>sk_chk_filter\<close> accepts it, and its
  verdict is whatever the kernel stack held there.
\<close>

theorem filter_discloses_stack:
  "sk_chk_filter [\<lparr>sf_code = BPF_LD_MEM, sf_jt = 0, sf_jf = 0, sf_k = 0\<rparr>, \<lparr>sf_code = BPF_RET_A, sf_jt = 0, sf_jf = 0, sf_k = 0\<rparr>] = 0 \<and>
   (\<forall>ifx stack s. sk_run_filter ifx stack s
      [\<lparr>sf_code = BPF_LD_MEM, sf_jt = 0, sf_jf = 0, sf_k = 0\<rparr>, \<lparr>sf_code = BPF_RET_A, sf_jt = 0, sf_jf = 0, sf_k = 0\<rparr>] = Some (stack 0))"
  by (simp add: sk_chk_filter_def chk_insn_def sk_run_filter_def bpf_loop.simps fetch_def bpf_step_def Let_def)

text \<open>
  A load relative to a header looks at the first byte only: with no room behind the data an accepted
  program reads past the end of the packet's memory.
\<close>

lemma filter_reads_past_packet:
  "\<exists>s prog. skb_wf s \<and> sk_chk_filter prog = 0 \<and> sk_run_filter [0 \<mapsto> 1] (\<lambda>_. 0) s prog = None"
proof -
  let ?s = "Skb \<lparr>sk_len = 2, sk_data_len = 0, sk_head = 0x200, sk_data = 0x200, sk_tail = 0x202, sk_end = 0x202,
       sk_buf = [9, 10], sk_frags = [], sk_nh = 0x200, sk_mac = 0x200, sk_protocol = 8, sk_pkt_type = 0, sk_dev = 0\<rparr> []"
  let ?p = "[\<lparr>sf_code = BPF_LD_W_ABS, sf_jt = 0, sf_jf = 0, sf_k = - 0x200000\<rparr>, \<lparr>sf_code = BPF_RET_A, sf_jt = 0, sf_jf = 0, sf_k = 0\<rparr>]"
  have "skb_wf ?s" by (simp add: lin_wf_def skb_headlen_def)
  moreover have "sk_chk_filter ?p = 0" by (simp add: sk_chk_filter_def chk_insn_def)
  moreover have "sk_run_filter [0 \<mapsto> 1] (\<lambda>_. 0) ?s ?p = None"
    by (simp add: sk_run_filter_def bpf_loop.simps fetch_def bpf_step_def bpf_load_def load_pointer_def
        load_pointer_neg_def slice_def Let_def)
  ultimately show ?thesis by blast
qed

end
