(* ===== verification/Usb_Storage.thy ===== *)
theory Usb_Storage
  imports Kmem
begin

text \<open>
  USB block devices, \<open>arch/dde_kit/usb_storage.c\<close>, on the SCSI emulation of \<open>arch/dde_kit/scsi.c\<close>.  A host
  driver is a parameter: \<open>queuecommand\<close> returns its result and whether it calls \<open>done\<close> for the command
  sooner or later.  Waiting for a completion that is never signalled is \<open>None\<close>, as is following \<open>NULL\<close>.
\<close>

section \<open>Data\<close>

datatype dma_data_direction = DMA_BIDIRECTIONAL | DMA_TO_DEVICE | DMA_FROM_DEVICE | DMA_NONE

record scsi_cmnd =
  sc_cmnd :: "u8 list"
  sc_cmd_len :: nat
  sc_request_buffer :: addr
  sc_request_bufflen :: u32
  sc_device :: addr
  sc_data_direction :: dma_data_direction

record scsi_device =
  sd_target :: addr
  sd_host :: addr
  sd_id :: u32
  sd_lun :: u32
  sd_inquiry_len :: u8
  sd_fix_capacity :: bool

record usb_stor =
  us_block_size :: u32
  us_block_count :: u32
  us_sdev :: addr

record Scsi_Host =
  sh_host_no :: u32
  sh_max_id :: u32
  sh_hostt :: addr

record 'k usb_state = "'k kmem_state" +
  usb_devices :: "usb_stor list"
  usb_init :: bool
  current_plugin_callback :: addr
  scsi_devices :: "addr \<rightharpoonup> scsi_device"
  scsi_free :: bool
  scsi_host :: Scsi_Host

type_synonym ('k, 'z) ustate = "('k, 'z) usb_state_scheme"
type_synonym ('k, 'z) ukit = "('k, ('k, 'z) usb_state_scheme) dde_kit"

record 's scsi_driver =
  queuecommand :: "addr \<Rightarrow> scsi_cmnd \<Rightarrow> 's \<Rightarrow> (int \<times> bool \<times> 's) option"
  slave_alloc :: "addr \<Rightarrow> 's \<Rightarrow> 's option"
  slave_configure :: "addr \<Rightarrow> 's \<Rightarrow> 's option"
  plugin_cb :: "addr \<Rightarrow> int \<Rightarrow> 's \<Rightarrow> 's option"

abbreviation (input) MAX_USB_INDEX :: nat where "MAX_USB_INDEX \<equiv> 4"
abbreviation (input) EBLK_NOMEM :: int where "EBLK_NOMEM \<equiv> 1"
abbreviation (input) EBLK_NODEV :: int where "EBLK_NODEV \<equiv> 2"
abbreviation (input) EBLK_FAULT :: int where "EBLK_FAULT \<equiv> 3"
abbreviation (input) EBLK_BUSY :: int where "EBLK_BUSY \<equiv> 4"
abbreviation (input) INQUIRY :: u8 where "INQUIRY \<equiv> 0x12"
abbreviation (input) READ_CAPACITY :: u8 where "READ_CAPACITY \<equiv> 0x25"
abbreviation (input) READ_10 :: u8 where "READ_10 \<equiv> 0x28"
abbreviation (input) WRITE_10 :: u8 where "WRITE_10 \<equiv> 0x2A"
abbreviation (input) MAX_COMMAND_SIZE :: nat where "MAX_COMMAND_SIZE \<equiv> 16"

section \<open>Operations\<close>

text \<open>\<open>usb_devices[i]\<close>.\<close>

definition usb_slot :: "int \<Rightarrow> ('k, 'z) ustate \<Rightarrow> usb_stor option" where
  "usb_slot i s = (if 0 \<le> i \<and> i < int (length (usb_devices s)) then Some (usb_devices s ! nat i) else None)"

definition put_slot :: "int \<Rightarrow> usb_stor \<Rightarrow> ('k, 'z) ustate \<Rightarrow> ('k, 'z) ustate" where
  "put_slot i d s = s\<lparr>usb_devices := (usb_devices s)[nat i := d]\<rparr>"

definition dde_linux26_plugin_rx_callback ::
  "('k, 'z) ustate scsi_driver \<Rightarrow> int \<Rightarrow> ('k, 'z) ustate \<Rightarrow> ('k, 'z) ustate option" where
  "dde_linux26_plugin_rx_callback D i s =
     (if current_plugin_callback s \<noteq> 0 then plugin_cb D (current_plugin_callback s) i s else Some s)"

definition dde_linux26_block_register_plugin_callback :: "addr \<Rightarrow> ('k, 'z) ustate \<Rightarrow> addr \<times> ('k, 'z) ustate" where
  "dde_linux26_block_register_plugin_callback cb s =
     (current_plugin_callback s, s\<lparr>current_plugin_callback := cb\<rparr>)"

text \<open>\<open>wait_for_completion\<close> on a command that is answered, or not.\<close>

definition wait_done :: "bool \<Rightarrow> unit option" where
  "wait_done c = (if c then Some () else None)"

definition nonnull :: "addr \<Rightarrow> unit option" where
  "nonnull p = (if p \<noteq> 0 then Some () else None)"

definition capacity ::
  "('k, 'z) ukit \<Rightarrow> ('k, 'z) ustate scsi_driver \<Rightarrow> int \<Rightarrow> ('k, 'z) ustate \<Rightarrow> ('k, 'z) ustate option" where
  "capacity K D i s = do {
     d \<leftarrow> usb_slot i s;
     (c, s) \<leftarrow> kmalloc K (sizeof K ''scsi_cmnd'') GFP_KERNEL s;
     (result, s) \<leftarrow> kmalloc K 8 GFP_KERNEL s;
     nonnull c;
     let cmnd = \<lparr>sc_cmnd = (replicate MAX_COMMAND_SIZE 0)[0 := READ_CAPACITY], sc_cmd_len = 10,
       sc_request_buffer = result, sc_request_bufflen = 8, sc_device = us_sdev d, sc_data_direction = DMA_FROM_DEVICE\<rparr>;
     sdev \<leftarrow> scsi_devices s (us_sdev d);
     (r, answered, s) \<leftarrow> queuecommand D (sd_host sdev) cmnd s;
     wait_done answered;
     nonnull result;
     sdev \<leftarrow> scsi_devices s (us_sdev d);
     d \<leftarrow> usb_slot i s;
     let n = be_value (load_bytes (mem s) result 4);
     let s = put_slot i (d\<lparr>us_block_count := (if sd_fix_capacity sdev then n else n + 1),
       us_block_size := be_value (load_bytes (mem s) (result + 4) 4)\<rparr>) s;
     s \<leftarrow> kfree K c s;
     kfree K result s }"

definition dde_linux26_block_dev_add ::
  "('k, 'z) ukit \<Rightarrow> ('k, 'z) ustate scsi_driver \<Rightarrow> addr \<Rightarrow> ('k, 'z) ustate \<Rightarrow> (int \<times> ('k, 'z) ustate) option" where
  "dde_linux26_block_dev_add K D sdev s = do {
     let s = (if \<not> usb_init s
       then s\<lparr>usb_devices := replicate MAX_USB_INDEX \<lparr>us_block_size = 0, us_block_count = 0, us_sdev = 0\<rparr>, usb_init := True\<rparr>
       else s);
     case find (\<lambda>i. us_sdev (usb_devices s ! i) = 0) [0..<MAX_USB_INDEX] of
       None \<Rightarrow> Some (- EBLK_NOMEM, s)
     | Some i \<Rightarrow> do {
         let s = put_slot (int i) ((usb_devices s ! i)\<lparr>us_sdev := sdev\<rparr>) s;
         s \<leftarrow> capacity K D (int i) s;
         s \<leftarrow> dde_linux26_plugin_rx_callback D (int i) s;
         Some (0, s) } }"

definition dde_linux26_block_present :: "int \<Rightarrow> ('k, 'z) ustate \<Rightarrow> bool option" where
  "dde_linux26_block_present i s =
     (if i < 0 \<and> int MAX_USB_INDEX \<le> i then Some False
      else do { d \<leftarrow> usb_slot i s; Some (us_sdev d \<noteq> 0) })"

definition dde_linux26_block_count :: "int \<Rightarrow> ('k, 'z) ustate \<Rightarrow> int option" where
  "dde_linux26_block_count i s = do {
     present \<leftarrow> dde_linux26_block_present i s;
     if \<not> present then Some (- EBLK_NODEV) else do { d \<leftarrow> usb_slot i s; Some (sint (us_block_count d)) } }"

definition dde_linux26_block_size :: "int \<Rightarrow> ('k, 'z) ustate \<Rightarrow> int option" where
  "dde_linux26_block_size i s = do {
     present \<leftarrow> dde_linux26_block_present i s;
     if \<not> present then Some (- EBLK_NODEV) else do { d \<leftarrow> usb_slot i s; Some (sint (us_block_size d)) } }"

text \<open>The command descriptor block of a transfer of one block.\<close>

definition rw10_cdb :: "u8 \<Rightarrow> u32 \<Rightarrow> u8 list" where
  "rw10_cdb opcode nr =
     (let b = be32_bytes nr
      in (replicate MAX_COMMAND_SIZE 0)[0 := opcode, 2 := b ! 0, 3 := b ! 1, 4 := b ! 2, 5 := b ! 3, 8 := 1])"

definition block_io ::
  "('k, 'z) ukit \<Rightarrow> ('k, 'z) ustate scsi_driver \<Rightarrow> int \<Rightarrow> u32 \<Rightarrow> addr \<Rightarrow> u8 \<Rightarrow> dma_data_direction \<Rightarrow> ('k, 'z) ustate
   \<Rightarrow> (int \<times> ('k, 'z) ustate) option" where
  "block_io K D i nr buffer opcode dir s = do {
     present \<leftarrow> dde_linux26_block_present i s;
     if \<not> present then Some (- EBLK_NODEV, s)
     else do {
       d \<leftarrow> usb_slot i s;
       if us_block_count d < nr then Some (- EBLK_FAULT, s)
       else do {
         (c, s) \<leftarrow> kmalloc K (sizeof K ''scsi_cmnd'') GFP_KERNEL s;
         nonnull c;
         let cmnd = \<lparr>sc_cmnd = rw10_cdb opcode nr, sc_cmd_len = 10, sc_request_buffer = buffer,
           sc_request_bufflen = us_block_size d, sc_device = us_sdev d, sc_data_direction = dir\<rparr>;
         sdev \<leftarrow> scsi_devices s (us_sdev d);
         (r, answered, s) \<leftarrow> queuecommand D (sd_host sdev) cmnd s;
         if r \<noteq> 0 then do {
           s \<leftarrow> kfree K c s;
           Some (- EBLK_BUSY, s) }
         else do {
           wait_done answered;
           s \<leftarrow> kfree K c s;
           Some (0, s) } } } }"

definition dde_linux26_block_read ::
  "('k, 'z) ukit \<Rightarrow> ('k, 'z) ustate scsi_driver \<Rightarrow> int \<Rightarrow> u32 \<Rightarrow> addr \<Rightarrow> ('k, 'z) ustate \<Rightarrow> (int \<times> ('k, 'z) ustate) option" where
  "dde_linux26_block_read K D i nr buffer s = block_io K D i nr buffer READ_10 DMA_FROM_DEVICE s"

definition dde_linux26_block_write ::
  "('k, 'z) ukit \<Rightarrow> ('k, 'z) ustate scsi_driver \<Rightarrow> int \<Rightarrow> u32 \<Rightarrow> addr \<Rightarrow> ('k, 'z) ustate \<Rightarrow> (int \<times> ('k, 'z) ustate) option" where
  "dde_linux26_block_write K D i nr buffer s = block_io K D i nr buffer WRITE_10 DMA_TO_DEVICE s"

definition dde_linux26_block_malloc :: "('k, 'z) ukit \<Rightarrow> u32 \<Rightarrow> ('k, 'z) ustate \<Rightarrow> (addr \<times> ('k, 'z) ustate) option" where
  "dde_linux26_block_malloc K n s = kmalloc K n GFP_KERNEL s"

definition dde_linux26_block_free :: "('k, 'z) ukit \<Rightarrow> addr \<Rightarrow> ('k, 'z) ustate \<Rightarrow> ('k, 'z) ustate option" where
  "dde_linux26_block_free K p s = kfree K p s"

section \<open>The SCSI host\<close>

definition scsi_host_alloc ::
  "('k, 'z) ukit \<Rightarrow> addr \<Rightarrow> u32 \<Rightarrow> ('k, 'z) ustate \<Rightarrow> addr \<times> ('k, 'z) ustate" where
  "scsi_host_alloc K t priv_size s =
     (if \<not> scsi_free s then (0, s)
      else (symbol K ''scsi_host_alloc.buffer'',
            s\<lparr>scsi_free := False, scsi_host := \<lparr>sh_host_no = 13, sh_max_id = 8, sh_hostt = t\<rparr>\<rparr>))"

definition scsi_add_host :: "addr \<Rightarrow> addr \<Rightarrow> int" where
  "scsi_add_host host dev = 0"

text \<open>\<open>junk\<close> is what the memory of the new device happens to hold.\<close>

definition scsi_scan_host ::
  "('k, 'z) ukit \<Rightarrow> ('k, 'z) ustate scsi_driver \<Rightarrow> scsi_device \<Rightarrow> addr \<Rightarrow> ('k, 'z) ustate \<Rightarrow> ('k, 'z) ustate option" where
  "scsi_scan_host K D junk host s = do {
     (c, s) \<leftarrow> kmalloc K (sizeof K ''scsi_cmnd'') GFP_KERNEL s;
     (sdev, s) \<leftarrow> kmalloc K (sizeof K ''scsi_device'') GFP_KERNEL s;
     (target, s) \<leftarrow> kmalloc K (sizeof K ''scsi_target'') GFP_KERNEL s;
     nonnull sdev;
     let s = s\<lparr>scsi_devices := (scsi_devices s)
       (sdev \<mapsto> junk\<lparr>sd_target := target, sd_host := host, sd_id := 0, sd_lun := 0\<rparr>)\<rparr>;
     s \<leftarrow> slave_alloc D sdev s;
     s \<leftarrow> slave_configure D sdev s;
     dv \<leftarrow> scsi_devices s sdev;
     (result, s) \<leftarrow> kmalloc K (ucast (sd_inquiry_len dv)) GFP_KERNEL s;
     nonnull c;
     let cmnd = \<lparr>sc_cmnd = (replicate MAX_COMMAND_SIZE 0)[0 := INQUIRY, 4 := sd_inquiry_len dv], sc_cmd_len = 6,
       sc_request_buffer = result, sc_request_bufflen = ucast (sd_inquiry_len dv), sc_device = sdev,
       sc_data_direction = DMA_FROM_DEVICE\<rparr>;
     (r, answered, s) \<leftarrow> queuecommand D host cmnd s;
     wait_done answered;
     nonnull result;
     (added, s) \<leftarrow> (if mem s result = 0
       then do { (e, s) \<leftarrow> dde_linux26_block_dev_add K D sdev s; Some (e = 0, s) } else Some (False, s));
     s \<leftarrow> (if added then Some s else do { s \<leftarrow> kfree K sdev s; kfree K target s });
     s \<leftarrow> kfree K c s;
     kfree K result s }"

section \<open>Facts\<close>

text \<open>
  What a host driver owes its caller: the heap and its blocks stay intact, and it does not touch the
  device tables.
\<close>

definition scsi_driver_ok :: "('k, 'z) ustate scsi_driver \<Rightarrow> bool" where
  "scsi_driver_ok D \<longleftrightarrow> (\<forall>h c s r a s'. queuecommand D h c s = Some (r, a, s') \<longrightarrow> kmalloc_inv s \<longrightarrow>
     kmalloc_inv s' \<and> (\<forall>p. kmalloc_block s p \<longrightarrow> kmalloc_block s' p) \<and>
     usb_devices s' = usb_devices s \<and> scsi_devices s' = scsi_devices s)"

lemma put_slot_heap [simp]:
  "kmalloc_inv (put_slot i d s) = kmalloc_inv s" "kmalloc_block (put_slot i d s) p = kmalloc_block s p"
  "scsi_devices (put_slot i d s) = scsi_devices s" "current_plugin_callback (put_slot i d s) = current_plugin_callback s"
  "mem (put_slot i d s) = mem s"
  by (simp_all add: put_slot_def kmalloc_inv_def kmalloc_block_def cache_matches_def)

lemma rw10_cdb_fields:
  "length (rw10_cdb opcode nr) = MAX_COMMAND_SIZE" "rw10_cdb opcode nr ! 0 = opcode"
  "be_value (take 4 (drop 2 (rw10_cdb opcode nr))) = nr" "rw10_cdb opcode nr ! 7 = 0" "rw10_cdb opcode nr ! 8 = 1"
proof -
  have "take 4 (drop 2 (rw10_cdb opcode nr)) = be32_bytes nr"
    by (simp add: rw10_cdb_def Let_def be32_bytes_def numeral_eq_Suc)
  then show "be_value (take 4 (drop 2 (rw10_cdb opcode nr))) = nr" by simp
qed (simp_all add: rw10_cdb_def Let_def)

lemma kfree_block_view:
  assumes "kmalloc_inv s" "kmalloc_block s p"
  obtains s' where "kfree K p s = Some s'" "kmalloc_inv s'" "usb_devices s' = usb_devices s"
    "\<forall>q. kmalloc_block s q \<longrightarrow> kmalloc_block s' q" "current_plugin_callback s' = current_plugin_callback s"
proof -
  obtain k where "kfree K p s = Some (s\<lparr>kit := k\<rparr>)" using kfree_block [OF assms] by blast
  then show ?thesis
    using assms by (intro that [of "s\<lparr>kit := k\<rparr>"]) (simp_all add: kmalloc_inv_def kmalloc_block_def cache_matches_def)
qed

lemma kmalloc_view:
  assumes "kmalloc_inv s" "kmalloc K n f s = Some (p, s')"
  shows "kmalloc_inv s'" "usb_devices s' = usb_devices s" "scsi_devices s' = scsi_devices s" "usb_init s' = usb_init s"
    "current_plugin_callback s' = current_plugin_callback s" "p \<noteq> 0 \<Longrightarrow> kmalloc_block s' p"
  using kheap.alloc_inv [OF assms] kheap.alloc_block [OF assms] kheap.alloc_view [OF assms]
  by (cases s; cases s'; simp)+

section \<open>Properties\<close>

abbreviation (input) transfer :: "usb_stor \<Rightarrow> u8 \<Rightarrow> u32 \<Rightarrow> addr \<Rightarrow> dma_data_direction \<Rightarrow> scsi_cmnd" where
  "transfer d opcode nr buffer dir \<equiv> \<lparr>sc_cmnd = rw10_cdb opcode nr, sc_cmd_len = 10, sc_request_buffer = buffer,
     sc_request_bufflen = us_block_size d, sc_device = us_sdev d, sc_data_direction = dir\<rparr>"

abbreviation (input) ask_capacity :: "addr \<Rightarrow> addr \<Rightarrow> scsi_cmnd" where
  "ask_capacity sdev result \<equiv> \<lparr>sc_cmnd = (replicate MAX_COMMAND_SIZE 0)[0 := READ_CAPACITY], sc_cmd_len = 10,
     sc_request_buffer = result, sc_request_bufflen = 8, sc_device = sdev, sc_data_direction = DMA_FROM_DEVICE\<rparr>"

text \<open>A host with one disk of 100 blocks, whose driver answers every command.\<close>

abbreviation usb_sim_kit :: "(sim, unit) ukit" where
  "usb_sim_kit \<equiv> sim_kit"

definition usb_example :: "(sim, unit) ustate" where
  "usb_example = \<lparr>kit = sim_init, mem = (\<lambda>_. 0),
     caches = [0x100 \<mapsto> \<lparr>kc_name = 1, kc_size = 32, kc_slab = 0x200, kc_lock = 0x300, kc_ctor = 0, kc_dtor = 0\<rparr>],
     malloc_sizes = (32, 0x100) # tl malloc_sizes_boot,
     usb_devices = \<lparr>us_block_size = 512, us_block_count = 100, us_sdev = 0x500\<rparr> #
       replicate 3 \<lparr>us_block_size = 0, us_block_count = 0, us_sdev = 0\<rparr>,
     usb_init = True, current_plugin_callback = 0,
     scsi_devices = (\<lambda>_. Some \<lparr>sd_target = 0, sd_host = 0x600, sd_id = 0, sd_lun = 0, sd_inquiry_len = 36, sd_fix_capacity = False\<rparr>),
     scsi_free = False, scsi_host = \<lparr>sh_host_no = 13, sh_max_id = 8, sh_hostt = 0x700\<rparr>\<rparr>"

definition quiet_disk :: "(sim, unit) ustate scsi_driver" where
  "quiet_disk = \<lparr>queuecommand = (\<lambda>h c s. Some (0, True, s)), slave_alloc = (\<lambda>_ s. Some s),
     slave_configure = (\<lambda>_ s. Some s), plugin_cb = (\<lambda>_ _ s. Some s)\<rparr>"

lemma quiet_disk_ok: "scsi_driver_ok quiet_disk"
  by (simp add: scsi_driver_ok_def quiet_disk_def)

lemma usb_example_inv: "kmalloc_inv usb_example"
  by (simp add: kmalloc_inv_def usb_example_def malloc_sizes_boot_def kmalloc_size_list_def cache_matches_def)



text \<open>
  Adding a disk takes the first free entry of the table, records the size its host reports,
  one block more than the highest block number unless the driver corrects it already, and leaves the
  other entries alone.
\<close>

theorem block_dev_add_first_free:
  assumes inv: "kmalloc_inv s" and drv: "scsi_driver_ok D" and ini: "usb_init s" "length (usb_devices s) = MAX_USB_INDEX"
    and fr: "find (\<lambda>i. us_sdev (usb_devices s ! i) = 0) [0..<MAX_USB_INDEX] = Some i"
    and dev: "scsi_devices s sdev = Some dv" "current_plugin_callback s = 0"
    and s0: "s0 = put_slot (int i) ((usb_devices s ! i)\<lparr>us_sdev := sdev\<rparr>) s"
    and km: "kmalloc K (sizeof K ''scsi_cmnd'') GFP_KERNEL s0 = Some (c, s1)" "c \<noteq> 0"
      "kmalloc K 8 GFP_KERNEL s1 = Some (p, s2)" "p \<noteq> 0" "kmalloc_block s2 c"
    and q: "queuecommand D (sd_host dv) (ask_capacity sdev p) s2 = Some (r, True, s3)"
      "current_plugin_callback s3 = current_plugin_callback s2"
    and ans: "load_bytes (mem s3) p 4 = be32_bytes hi" "load_bytes (mem s3) (p + 4) 4 = be32_bytes bs"
  shows "\<exists>s'. dde_linux26_block_dev_add K D sdev s = Some (0, s') \<and> kmalloc_inv s' \<and>
    usb_devices s' = (usb_devices s)[i := \<lparr>us_block_size = bs,
      us_block_count = (if sd_fix_capacity dv then hi else hi + 1), us_sdev = sdev\<rparr>]"
proof -
  have i: "i < MAX_USB_INDEX" "us_sdev (usb_devices s ! i) = 0" using fr by (auto simp: find_Some_iff)
  have inv0: "kmalloc_inv s0" using inv s0 by simp
  note k1 = kmalloc_view [OF inv0 km(1)]
  note k2 = kmalloc_view [OF k1(1) km(3)]
  have 3: "kmalloc_inv s3" "kmalloc_block s3 c" "kmalloc_block s3 p" "usb_devices s3 = usb_devices s0"
      "scsi_devices s3 = scsi_devices s" "current_plugin_callback s3 = 0"
    using drv [unfolded scsi_driver_ok_def, rule_format, OF q(1) k2(1)] k1 k2 km(4,5) q(2) dev(2) by (auto simp: s0)
  let ?d = "\<lparr>us_block_size = bs, us_block_count = (if sd_fix_capacity dv then hi else hi + 1), us_sdev = sdev\<rparr>"
  let ?s4 = "put_slot (int i) ?d s3"
  have sl: "usb_slot (int i) s0 = Some ((usb_devices s ! i)\<lparr>us_sdev := sdev\<rparr>)"
    "usb_slot (int i) s3 = Some ((usb_devices s ! i)\<lparr>us_sdev := sdev\<rparr>)"
    using i(1) ini(2) 3(4) by (simp_all add: usb_slot_def s0 put_slot_def)
  obtain s5 where 5: "kfree K c ?s4 = Some s5" "kmalloc_inv s5" "usb_devices s5 = usb_devices ?s4"
    "\<forall>q. kmalloc_block ?s4 q \<longrightarrow> kmalloc_block s5 q" "current_plugin_callback s5 = 0"
    using kfree_block_view [of ?s4 c K] 3 by (metis put_slot_heap(1,2,4))
  obtain s6 where 6: "kfree K p s5 = Some s6" "kmalloc_inv s6" "usb_devices s6 = usb_devices s5" "current_plugin_callback s6 = 0"
    using kfree_block_view [of s5 p K] 5 3 by (metis put_slot_heap(2))
  have e: "x\<lparr>us_sdev := sdev, us_block_count := n, us_block_size := bs\<rparr> =
      \<lparr>us_block_size = bs, us_block_count = n, us_sdev = sdev\<rparr>" for x :: usb_stor and n
    by (cases x) simp
  have "capacity K D (int i) s0 = Some s6"
    using sl km k1(3) k2(3) dev(1) q(1) 3(5) ans 5(1) 6(1)
    by (cases "sd_fix_capacity dv") (simp_all add: capacity_def nonnull_def wait_done_def s0 Let_def e)
  then have "dde_linux26_block_dev_add K D sdev s = Some (0, s6)"
    using ini fr 6(4) by (simp add: dde_linux26_block_dev_add_def dde_linux26_plugin_rx_callback_def s0 Let_def)
  moreover have "usb_devices s6 = (usb_devices s)[i := ?d]"
    using 5(3) 6(3) 3(4) by (simp add: s0 put_slot_def)
  ultimately show ?thesis using 6(2) by blast
qed

theorem block_dev_add_first_free_witness:
  "\<exists>s'. dde_linux26_block_dev_add usb_sim_kit quiet_disk 0x900 usb_example = Some (0, s') \<and>
     usb_devices s' = (usb_devices usb_example)[1 := \<lparr>us_block_size = 0, us_block_count = 1, us_sdev = 0x900\<rparr>]"
proof -
  define s0 where "s0 = put_slot (int 1) ((usb_devices usb_example ! 1)\<lparr>us_sdev := 0x900\<rparr>) usb_example"
  note ev = s0_def put_slot_def usb_example_def malloc_sizes_boot_def kmalloc_size_list_def kmem_defs sim_defs
  define s1 where "s1 = snd (the (kmalloc usb_sim_kit (sizeof usb_sim_kit ''scsi_cmnd'') GFP_KERNEL s0))"
  have k1: "kmalloc usb_sim_kit (sizeof usb_sim_kit ''scsi_cmnd'') GFP_KERNEL s0 = Some (0x10004, s1)"
    unfolding s1_def by (simp add: ev)
  define s2 where "s2 = snd (the (kmalloc usb_sim_kit 8 GFP_KERNEL s1))"
  have k2: "kmalloc usb_sim_kit 8 GFP_KERNEL s1 = Some (0x20004, s2)"
    unfolding s2_def s1_def by (simp add: ev)
  have u4: "[0..<4] = [0, 1, 2, 3]" by (simp add: upt_rec)
  have m: "kmalloc_block s2 0x10004" "load_bytes (mem s2) 0x20004 4 = be32_bytes 0" "load_bytes (mem s2) (0x20004 + 4) 4 = be32_bytes 0"
    unfolding s2_def s1_def
    by (simp_all add: u4 ev kmalloc_block_def load32_def store32_def load_bytes_def be32_bytes_def byte_of_def)
  have q: "queuecommand quiet_disk h cm s2 = Some (0, True, s2)" for h cm by (simp add: quiet_disk_def)
  have ex: "usb_init usb_example" "length (usb_devices usb_example) = MAX_USB_INDEX"
    "find (\<lambda>i. us_sdev (usb_devices usb_example ! i) = 0) [0..<MAX_USB_INDEX] = Some 1"
    "scsi_devices usb_example 0x900 =
      Some \<lparr>sd_target = 0, sd_host = 0x600, sd_id = 0, sd_lun = 0, sd_inquiry_len = 36, sd_fix_capacity = False\<rparr>"
    "current_plugin_callback usb_example = 0"
    by (simp_all add: u4 usb_example_def)
  show ?thesis
    using block_dev_add_first_free [OF usb_example_inv quiet_disk_ok ex s0_def k1 _ k2 _ m(1) q refl m(2,3)] by auto
qed

text \<open>
  The index check of the block interface rejects nothing: for every index outside the table
  the access that follows is out of bounds, in each function that takes an index.
\<close>

theorem block_index_unchecked:
  assumes "length (usb_devices s) = MAX_USB_INDEX" "i < 0 \<or> int MAX_USB_INDEX \<le> i"
  shows "dde_linux26_block_present i s = None \<and> dde_linux26_block_count i s = None \<and>
    dde_linux26_block_read K D i nr buffer s = None \<and> dde_linux26_block_write K D i nr buffer s = None"
  using assms by (auto simp: dde_linux26_block_present_def dde_linux26_block_count_def dde_linux26_block_read_def
      dde_linux26_block_write_def block_io_def usb_slot_def)

theorem block_index_unchecked_witness:
  "dde_linux26_block_present 4 usb_example = None \<and> dde_linux26_block_present (- 1) usb_example = None"
  using block_index_unchecked [of usb_example 4] block_index_unchecked [of usb_example "- 1"]
  by (auto simp: usb_example_def)

end
