(* ===== verification/Wait.thy ===== *)
theory Wait
  imports Timer_Sched
begin

text \<open>
  Wait queues and completions, \<open>kernel/wait.c\<close> and the part of \<open>kernel/sched.c\<close> that the environment
  keeps, on top of the environment's own \<open>try_to_wake_up\<close> and \<open>schedule\<close>.  The first half has the
  operations as state functions, each a section under the queue's lock.  The second half has completions
  as a transition system over any number of threads, in which exactly these sections and the steps of
  \<open>schedule\<close> are atomic.
\<close>

section \<open>Wait queues\<close>

record wait_queue =
  wq_flags :: u32
  wq_private :: addr
  wq_func :: addr
  wq_nonempty :: bool

record 'k wait_state = "'k sched_state" +
  wait_heads :: "addr \<Rightarrow> addr list"
  wait_queues :: "addr \<rightharpoonup> wait_queue"
  comp_done :: "addr \<Rightarrow> u32"

type_synonym ('k, 'z) wstate = "('k, 'z) wait_state_scheme"
type_synonym ('k, 'z) wkit = "('k, ('k, 'z) wait_state_scheme) dde_kit"
type_synonym ('k, 'z) wfn =
  "addr \<Rightarrow> addr \<Rightarrow> u32 \<Rightarrow> int \<Rightarrow> addr \<Rightarrow> ('k, 'z) wstate \<Rightarrow> (int \<times> ('k, 'z) wstate) option"

abbreviation (input) WQ_FLAG_EXCLUSIVE :: u32 where "WQ_FLAG_EXCLUSIVE \<equiv> 1"

definition put_wait :: "addr \<Rightarrow> wait_queue \<Rightarrow> ('k, 'z) wstate \<Rightarrow> ('k, 'z) wstate" where
  "put_wait w e s = s\<lparr>wait_queues := (wait_queues s)(w \<mapsto> e)\<rparr>"

definition init_waitqueue_head :: "addr \<Rightarrow> ('k, 'z) wstate \<Rightarrow> ('k, 'z) wstate" where
  "init_waitqueue_head q s = s\<lparr>wait_heads := (wait_heads s)(q := [])\<rparr>"

text \<open>\<open>__add_wait_queue\<close>, \<open>__add_wait_queue_tail\<close> and \<open>__remove_wait_queue\<close>, and \<open>list_del_init\<close> of an entry.\<close>

definition link_head :: "addr \<Rightarrow> addr \<Rightarrow> ('k, 'z) wstate \<Rightarrow> ('k, 'z) wstate option" where
  "link_head q w s = do {
     e \<leftarrow> wait_queues s w;
     Some (put_wait w (e\<lparr>wq_nonempty := True\<rparr>) (s\<lparr>wait_heads := (wait_heads s)(q := w # wait_heads s q)\<rparr>)) }"

definition link_tail :: "addr \<Rightarrow> addr \<Rightarrow> ('k, 'z) wstate \<Rightarrow> ('k, 'z) wstate option" where
  "link_tail q w s = do {
     e \<leftarrow> wait_queues s w;
     Some (put_wait w (e\<lparr>wq_nonempty := True\<rparr>) (s\<lparr>wait_heads := (wait_heads s)(q := wait_heads s q @ [w])\<rparr>)) }"

definition unlink :: "addr \<Rightarrow> ('k, 'z) wstate \<Rightarrow> ('k, 'z) wstate" where
  "unlink w s = s\<lparr>wait_heads := (\<lambda>q. remove1 w (wait_heads s q))\<rparr>"

definition unlink_init :: "addr \<Rightarrow> ('k, 'z) wstate \<Rightarrow> ('k, 'z) wstate option" where
  "unlink_init w s = do {
     e \<leftarrow> wait_queues s w;
     Some (put_wait w (e\<lparr>wq_nonempty := False\<rparr>) (unlink w s)) }"

definition add_wait_queue :: "addr \<Rightarrow> addr \<Rightarrow> ('k, 'z) wstate \<Rightarrow> ('k, 'z) wstate option" where
  "add_wait_queue q w s = do {
     e \<leftarrow> wait_queues s w;
     link_head q w (put_wait w (e\<lparr>wq_flags := wq_flags e AND NOT WQ_FLAG_EXCLUSIVE\<rparr>) s) }"

definition add_wait_queue_exclusive :: "addr \<Rightarrow> addr \<Rightarrow> ('k, 'z) wstate \<Rightarrow> ('k, 'z) wstate option" where
  "add_wait_queue_exclusive q w s = do {
     e \<leftarrow> wait_queues s w;
     link_tail q w (put_wait w (e\<lparr>wq_flags := wq_flags e OR WQ_FLAG_EXCLUSIVE\<rparr>) s) }"

definition remove_wait_queue :: "addr \<Rightarrow> addr \<Rightarrow> ('k, 'z) wstate \<Rightarrow> ('k, 'z) wstate" where
  "remove_wait_queue q w s = unlink w s"

definition prepare_to_wait ::
  "('k, 'z) wkit \<Rightarrow> addr \<Rightarrow> addr \<Rightarrow> u32 \<Rightarrow> ('k, 'z) wstate \<Rightarrow> ('k, 'z) wstate option" where
  "prepare_to_wait K q w state s = do {
     e \<leftarrow> wait_queues s w;
     let s = put_wait w (e\<lparr>wq_flags := wq_flags e AND NOT WQ_FLAG_EXCLUSIVE\<rparr>) s;
     s \<leftarrow> (if \<not> wq_nonempty e then link_head q w s else Some s);
     if wq_private e \<noteq> 0 then set_current_state K state s else Some s }"

definition prepare_to_wait_exclusive ::
  "('k, 'z) wkit \<Rightarrow> addr \<Rightarrow> addr \<Rightarrow> u32 \<Rightarrow> ('k, 'z) wstate \<Rightarrow> ('k, 'z) wstate option" where
  "prepare_to_wait_exclusive K q w state s = do {
     e \<leftarrow> wait_queues s w;
     let s = put_wait w (e\<lparr>wq_flags := wq_flags e OR WQ_FLAG_EXCLUSIVE\<rparr>) s;
     s \<leftarrow> (if \<not> wq_nonempty e then link_tail q w s else Some s);
     if wq_private e \<noteq> 0 then set_current_state K state s else Some s }"

definition finish_wait :: "('k, 'z) wkit \<Rightarrow> addr \<Rightarrow> addr \<Rightarrow> ('k, 'z) wstate \<Rightarrow> ('k, 'z) wstate option" where
  "finish_wait K q w s = do {
     s \<leftarrow> set_current_state K TASK_RUNNING s;
     e \<leftarrow> wait_queues s w;
     if wq_nonempty e then unlink_init w s else Some s }"

definition default_wake_function ::
  "('k, 'z) wkit \<Rightarrow> addr \<Rightarrow> u32 \<Rightarrow> int \<Rightarrow> addr \<Rightarrow> ('k, 'z) wstate \<Rightarrow> (int \<times> ('k, 'z) wstate) option" where
  "default_wake_function K w mode sync key s = do {
     e \<leftarrow> wait_queues s w;
     try_to_wake_up K (wq_private e) mode sync s }"

definition autoremove_wake_function ::
  "('k, 'z) wkit \<Rightarrow> addr \<Rightarrow> u32 \<Rightarrow> int \<Rightarrow> addr \<Rightarrow> ('k, 'z) wstate \<Rightarrow> (int \<times> ('k, 'z) wstate) option" where
  "autoremove_wake_function K w mode sync key s = do {
     (ret, s) \<leftarrow> default_wake_function K w mode sync key s;
     s \<leftarrow> (if ret \<noteq> 0 then unlink_init w s else Some s);
     Some (ret, s) }"

text \<open>\<open>W\<close> is the meaning of wake functions of other modules.\<close>

definition call_wake ::
  "('k, 'z) wkit \<Rightarrow> ('k, 'z) wfn \<Rightarrow> addr \<Rightarrow> addr \<Rightarrow> u32 \<Rightarrow> int \<Rightarrow> addr \<Rightarrow> ('k, 'z) wstate \<Rightarrow> (int \<times> ('k, 'z) wstate) option" where
  "call_wake K W f w mode sync key s =
     (if f = symbol K ''default_wake_function'' then default_wake_function K w mode sync key s
      else if f = symbol K ''autoremove_wake_function'' then autoremove_wake_function K w mode sync key s
      else W f w mode sync key s)"

fun wake_loop ::
  "('k, 'z) wkit \<Rightarrow> ('k, 'z) wfn \<Rightarrow> addr list \<Rightarrow> u32 \<Rightarrow> int \<Rightarrow> int \<Rightarrow> addr \<Rightarrow> ('k, 'z) wstate \<Rightarrow> ('k, 'z) wstate option" where
  "wake_loop K W [] mode nr sync key s = Some s"
| "wake_loop K W (w # ws) mode nr sync key s = do {
     e \<leftarrow> wait_queues s w;
     (r, s) \<leftarrow> call_wake K W (wq_func e) w mode sync key s;
     if r \<noteq> 0 \<and> wq_flags e AND WQ_FLAG_EXCLUSIVE \<noteq> 0
     then (if nr - 1 = 0 then Some s else wake_loop K W ws mode (nr - 1) sync key s)
     else wake_loop K W ws mode nr sync key s }"

definition wake_up_common ::
  "('k, 'z) wkit \<Rightarrow> ('k, 'z) wfn \<Rightarrow> addr \<Rightarrow> u32 \<Rightarrow> int \<Rightarrow> int \<Rightarrow> addr \<Rightarrow> ('k, 'z) wstate \<Rightarrow> ('k, 'z) wstate option" where
  "wake_up_common K W q mode nr sync key s = wake_loop K W (wait_heads s q) mode nr sync key s"

definition wake_up ::
  "('k, 'z) wkit \<Rightarrow> ('k, 'z) wfn \<Rightarrow> addr \<Rightarrow> u32 \<Rightarrow> int \<Rightarrow> addr \<Rightarrow> ('k, 'z) wstate \<Rightarrow> ('k, 'z) wstate option" where
  "wake_up K W q mode nr key s = wake_up_common K W q mode nr 0 key s"

definition wake_up_locked ::
  "('k, 'z) wkit \<Rightarrow> ('k, 'z) wfn \<Rightarrow> addr \<Rightarrow> u32 \<Rightarrow> ('k, 'z) wstate \<Rightarrow> ('k, 'z) wstate option" where
  "wake_up_locked K W q mode s = wake_up_common K W q mode 1 0 0 s"

definition wake_up_sync ::
  "('k, 'z) wkit \<Rightarrow> ('k, 'z) wfn \<Rightarrow> addr \<Rightarrow> u32 \<Rightarrow> int \<Rightarrow> ('k, 'z) wstate \<Rightarrow> ('k, 'z) wstate option" where
  "wake_up_sync K W q mode nr s =
     (if q = 0 then Some s else wake_up_common K W q mode nr (if nr = 0 then 0 else 1) 0 s)"

section \<open>Completions\<close>

text \<open>
  A \<open>struct completion\<close> is its count \<open>done\<close> and the wait queue it starts with.  \<open>wait_for_completion\<close> gives
  up the lock in its loop, around \<open>schedule\<close>; it is therefore two functions, from its start and from the return
  of \<open>schedule\<close> on, each until the thread either calls \<open>schedule\<close> (result \<open>False\<close>) or returns (\<open>True\<close>).
  \<open>w\<close> is the entry on the thread's stack.
\<close>

definition init_completion :: "addr \<Rightarrow> ('k, 'z) wstate \<Rightarrow> ('k, 'z) wstate" where
  "init_completion x s = init_waitqueue_head x (s\<lparr>comp_done := (comp_done s)(x := 0)\<rparr>)"

definition complete ::
  "('k, 'z) wkit \<Rightarrow> ('k, 'z) wfn \<Rightarrow> addr \<Rightarrow> ('k, 'z) wstate \<Rightarrow> ('k, 'z) wstate option" where
  "complete K W x s =
     wake_up_common K W x (TASK_UNINTERRUPTIBLE OR TASK_INTERRUPTIBLE) 1 0 0
       (s\<lparr>comp_done := (comp_done s)(x := comp_done s x + 1)\<rparr>)"

definition wait_enter ::
  "('k, 'z) wkit \<Rightarrow> addr \<Rightarrow> addr \<Rightarrow> ('k, 'z) wstate \<Rightarrow> (bool \<times> ('k, 'z) wstate) option" where
  "wait_enter K x w s =
     (if comp_done s x = 0 then do {
        cur \<leftarrow> get_current K s;
        let s = put_wait w \<lparr>wq_flags = 0 OR WQ_FLAG_EXCLUSIVE, wq_private = cur,
          wq_func = symbol K ''default_wake_function'', wq_nonempty = True\<rparr> s;
        s \<leftarrow> link_tail x w s;
        s \<leftarrow> set_current_state K TASK_UNINTERRUPTIBLE s;
        Some (False, s) }
      else Some (True, s\<lparr>comp_done := (comp_done s)(x := comp_done s x - 1)\<rparr>))"

definition wait_resume ::
  "('k, 'z) wkit \<Rightarrow> addr \<Rightarrow> addr \<Rightarrow> ('k, 'z) wstate \<Rightarrow> (bool \<times> ('k, 'z) wstate) option" where
  "wait_resume K x w s =
     (if comp_done s x = 0 then do {
        s \<leftarrow> set_current_state K TASK_UNINTERRUPTIBLE s;
        Some (False, s) }
      else do {
        let s = unlink w s;
        Some (True, s\<lparr>comp_done := (comp_done s)(x := comp_done s x - 1)\<rparr>) })"

section \<open>Every waiter is woken\<close>

text \<open>An entry of a task that exists, with one of the kernel's own wake functions.\<close>

definition wakeable :: "('k, 'z) wkit \<Rightarrow> ('k, 'z) wstate \<Rightarrow> addr \<Rightarrow> bool" where
  "wakeable K s w \<longleftrightarrow> (case wait_queues s w of None \<Rightarrow> False | Some e \<Rightarrow>
     wq_func e \<in> {symbol K ''default_wake_function'', symbol K ''autoremove_wake_function''} \<and>
     (case tasks s (wq_private e) of None \<Rightarrow> False | Some t \<Rightarrow> thread_datas s (ts_thread_info t) \<noteq> None))"

definition waiting_tasks :: "('k, 'z) wstate \<Rightarrow> addr list \<Rightarrow> addr set" where
  "waiting_tasks s ws = {wq_private e | e w. w \<in> set ws \<and> wait_queues s w = Some e}"

definition same_waits :: "('k, 'z) wstate \<Rightarrow> ('k, 'z) wstate \<Rightarrow> bool" where
  "same_waits s s' \<longleftrightarrow> wait_queues s' = wait_queues s \<and> wait_heads s' = wait_heads s \<and> thread_datas s' = thread_datas s \<and> comp_done s' = comp_done s"

lemma call_wake_result:
  assumes "wakeable K s w" "wait_queues s w = Some e"
  obtains s' t where "call_wake K W (wq_func e) w mode sync key s = Some (0, s')" "same_waits s s'"
    "tasks s (wq_private e) = Some t" "tasks s' = (tasks s)(wq_private e \<mapsto> t\<lparr>ts_state := TASK_RUNNING\<rparr>)"
proof -
  obtain t td where t: "tasks s (wq_private e) = Some t" "thread_datas s (ts_thread_info t) = Some td"
      "wq_func e \<in> {symbol K ''default_wake_function'', symbol K ''autoremove_wake_function''}"
    using assms by (auto simp: wakeable_def split: option.splits)
  let ?s = "kit_update (sem_up K (td_sleep_lock td)) (s\<lparr>tasks := (tasks s)(wq_private e \<mapsto> t\<lparr>ts_state := TASK_RUNNING\<rparr>)\<rparr>)"
  have "default_wake_function K w mode sync key s = Some (0, ?s)"
    using assms(2) t by (simp add: default_wake_function_def try_to_wake_up_def lxtask_to_ddethread_def)
  then show ?thesis
    using t by (intro that [of ?s t]) (auto simp: call_wake_def autoremove_wake_function_def same_waits_def)
qed

lemma wakeable_step:
  assumes "wakeable K s v" "same_waits s s'" "tasks s' = (tasks s)(p \<mapsto> t\<lparr>ts_state := r\<rparr>)" "tasks s p = Some t"
  shows "wakeable K s' v"
  using assms by (auto simp: wakeable_def same_waits_def split: option.splits)

lemma wake_loop_all:
  assumes "\<forall>w \<in> set ws. wakeable K s w"
  shows "\<exists>s'. wake_loop K W ws mode nr sync key s = Some s' \<and> same_waits s s' \<and>
    tasks s' = (\<lambda>p. if p \<in> waiting_tasks s ws then map_option (\<lambda>t. t\<lparr>ts_state := TASK_RUNNING\<rparr>) (tasks s p) else tasks s p)"
  using assms
proof (induction ws arbitrary: s)
  case Nil
  then show ?case by (auto simp: same_waits_def waiting_tasks_def)
next
  case (Cons w ws)
  obtain e where e: "wait_queues s w = Some e" using Cons.prems by (auto simp: wakeable_def split: option.splits)
  obtain s1 t where 1: "call_wake K W (wq_func e) w mode sync key s = Some (0, s1)" "same_waits s s1"
    "tasks s (wq_private e) = Some t" "tasks s1 = (tasks s)(wq_private e \<mapsto> t\<lparr>ts_state := TASK_RUNNING\<rparr>)"
    by (rule call_wake_result [OF _ e]) (use Cons.prems in auto)
  have "\<forall>v \<in> set ws. wakeable K s1 v"
    using Cons.prems wakeable_step [OF _ 1(2,4,3)] by auto
  then obtain s2 where 2: "wake_loop K W ws mode nr sync key s1 = Some s2" "same_waits s1 s2"
    "tasks s2 = (\<lambda>p. if p \<in> waiting_tasks s1 ws then map_option (\<lambda>t. t\<lparr>ts_state := TASK_RUNNING\<rparr>) (tasks s1 p) else tasks s1 p)"
    using Cons.IH by blast
  have "waiting_tasks s (w # ws) = insert (wq_private e) (waiting_tasks s1 ws)"
    using e 1(2) by (auto simp: waiting_tasks_def same_waits_def)
  then show ?case
    using e 1 2 by (intro exI [of _ s2]) (auto simp: same_waits_def fun_eq_iff)
qed

section \<open>Completions among many threads\<close>

text \<open>
  Where a thread stands in \<open>wait_for_completion\<close>: before it takes the lock; between \<open>spin_unlock_irq\<close> and
  the test of its state in \<open>schedule\<close>; in \<open>dde_kit_sem_down\<close>; back from \<open>schedule\<close>; returned.
\<close>

datatype cpc = Enter | Unlocked | Down | Relock | Left

text \<open>
  \<open>done\<close> and the queue of the completion; for every thread whether its state is \<open>TASK_RUNNING\<close>, the count of
  its sleep semaphore and its place; and the calls of \<open>complete\<close> that are still to come.
\<close>

record csys =
  cs_done :: u32
  cs_queue :: "nat list"
  cs_running :: "nat \<Rightarrow> bool"
  cs_sem :: "nat \<Rightarrow> nat"
  cs_pc :: "nat \<Rightarrow> cpc"
  cs_todo :: nat

text \<open>\<open>complete\<close>: every entry of the queue is woken, its state set and its semaphore raised.\<close>

definition cs_complete :: "csys \<Rightarrow> csys" where
  "cs_complete s = s\<lparr>cs_done := cs_done s + 1, cs_todo := cs_todo s - 1,
     cs_running := (\<lambda>i. i \<in> set (cs_queue s) \<or> cs_running s i),
     cs_sem := (\<lambda>i. if i \<in> set (cs_queue s) then cs_sem s i + 1 else cs_sem s i)\<rparr>"

definition cs_return :: "nat \<Rightarrow> csys \<Rightarrow> csys" where
  "cs_return i s = s\<lparr>cs_queue := remove1 i (cs_queue s), cs_done := cs_done s - 1, cs_pc := (cs_pc s)(i := Left)\<rparr>"

definition cs_sleep :: "nat \<Rightarrow> csys \<Rightarrow> csys" where
  "cs_sleep i s = s\<lparr>cs_running := (cs_running s)(i := False), cs_pc := (cs_pc s)(i := Unlocked)\<rparr>"

inductive cstep :: "nat \<Rightarrow> csys \<Rightarrow> csys \<Rightarrow> bool" for n :: nat where
  enter_done: "i < n \<Longrightarrow> cs_pc s i = Enter \<Longrightarrow> cs_done s \<noteq> 0 \<Longrightarrow>
     cstep n s (s\<lparr>cs_done := cs_done s - 1, cs_pc := (cs_pc s)(i := Left)\<rparr>)"
| enter_wait: "i < n \<Longrightarrow> cs_pc s i = Enter \<Longrightarrow> cs_done s = 0 \<Longrightarrow>
     cstep n s (cs_sleep i (s\<lparr>cs_queue := cs_queue s @ [i]\<rparr>))"
| sched_yield: "i < n \<Longrightarrow> cs_pc s i = Unlocked \<Longrightarrow> cs_running s i \<Longrightarrow>
     cstep n s (s\<lparr>cs_pc := (cs_pc s)(i := Relock)\<rparr>)"
| sched_down: "i < n \<Longrightarrow> cs_pc s i = Unlocked \<Longrightarrow> \<not> cs_running s i \<Longrightarrow>
     cstep n s (s\<lparr>cs_pc := (cs_pc s)(i := Down)\<rparr>)"
| down: "i < n \<Longrightarrow> cs_pc s i = Down \<Longrightarrow> 0 < cs_sem s i \<Longrightarrow>
     cstep n s (s\<lparr>cs_sem := (cs_sem s)(i := cs_sem s i - 1), cs_pc := (cs_pc s)(i := Relock)\<rparr>)"
| again: "i < n \<Longrightarrow> cs_pc s i = Relock \<Longrightarrow> cs_done s = 0 \<Longrightarrow> cstep n s (cs_sleep i s)"
| leave: "i < n \<Longrightarrow> cs_pc s i = Relock \<Longrightarrow> cs_done s \<noteq> 0 \<Longrightarrow> cstep n s (cs_return i s)"
| completes: "0 < cs_todo s \<Longrightarrow> cstep n s (cs_complete s)"

inductive_cases cstepE: "cstep n s s'"

definition cs_start :: "(nat \<Rightarrow> nat) \<Rightarrow> nat \<Rightarrow> csys" where
  "cs_start sem calls = \<lparr>cs_done = 0, cs_queue = [], cs_running = (\<lambda>_. True), cs_sem = sem,
     cs_pc = (\<lambda>_. Enter), cs_todo = calls\<rparr>"

definition left_count :: "nat \<Rightarrow> (nat \<Rightarrow> cpc) \<Rightarrow> nat" where
  "left_count n pc = card {i. i < n \<and> pc i = Left}"

text \<open>The queue holds the waiting threads, no wake-up is lost, and every call of \<open>complete\<close> is accounted for.\<close>

fun not_lost :: "cpc \<Rightarrow> bool \<Rightarrow> nat \<Rightarrow> bool" where
  "not_lost Down r k = (0 < k)"
| "not_lost Unlocked r k = (r \<or> 0 < k)"
| "not_lost _ r k = True"

definition cs_inv :: "nat \<Rightarrow> nat \<Rightarrow> csys \<Rightarrow> bool" where
  "cs_inv n calls s \<longleftrightarrow> distinct (cs_queue s) \<and>
     (\<forall>i. i \<in> set (cs_queue s) \<longleftrightarrow> i < n \<and> cs_pc s i \<notin> {Enter, Left}) \<and>
     (\<forall>i<n. cs_done s \<noteq> 0 \<longrightarrow> not_lost (cs_pc s i) (cs_running s i) (cs_sem s i)) \<and>
     unat (cs_done s) + cs_todo s + left_count n (cs_pc s) = calls"

lemma left_count_upd:
  assumes "i < n" "pc i \<noteq> Left"
  shows "left_count n (pc(i := x)) = left_count n pc + (if x = Left then 1 else 0)"
proof (cases "x = Left")
  case True
  have "{j. j < n \<and> (pc(i := x)) j = Left} = insert i {j. j < n \<and> pc j = Left}" using assms True by auto
  moreover have "finite {j. j < n \<and> pc j = Left}" by simp
  ultimately show ?thesis using assms True by (simp add: left_count_def card_insert_if del: fun_upd_apply)
next
  case False
  then have "{j. j < n \<and> (pc(i := x)) j = Left} = {j. j < n \<and> pc j = Left}" using assms by auto
  then show ?thesis using False by (simp add: left_count_def del: fun_upd_apply)
qed

lemmas cs_simps = cs_inv_def cs_sleep_def cs_return_def cs_complete_def left_count_upd

lemma unat_done_up: "unat d + Suc k \<le> calls \<Longrightarrow> calls < 2 ^ 32 \<Longrightarrow> unat (d + 1) = Suc (unat d)" for d :: u32
  by (subst unat_plus_simple [THEN iffD1]) (auto simp: word_le_nat_alt unat_word_ariths)

lemma unat_done_down: "d \<noteq> 0 \<Longrightarrow> Suc (unat (d - 1)) = unat d" for d :: u32
  by (simp add: unat_minus_one unat_gt_0)

lemma cs_inv_step:
  assumes "cstep n s s'" "cs_inv n calls s" "calls < 2 ^ 32"
  shows "cs_inv n calls s'"
  using assms
proof (induction rule: cstep.induct)
  case (enter_done i s)
  then show ?case using unat_done_down [of "cs_done s"] by (simp add: cs_simps; auto)
next
  case (enter_wait i s)
  then show ?case by (auto simp: cs_simps)
next
  case (sched_yield i s)
  then show ?case by (simp add: cs_simps; auto)
next
  case (sched_down i s)
  then show ?case by (simp add: cs_simps; fastforce)
next
  case (down i s)
  then show ?case by (simp add: cs_simps; auto)
next
  case (again i s)
  then show ?case by (simp add: cs_simps; auto)
next
  case (leave i s)
  then show ?case using unat_done_down [of "cs_done s"] by (simp add: cs_simps; auto)
next
  case (completes s)
  then have "unat (cs_done s + 1) = Suc (unat (cs_done s))"
    by (intro unat_done_up [of _ "cs_todo s - 1" calls]) (auto simp: cs_inv_def)
  moreover have "not_lost x True (Suc k)" for x k by (cases x) auto
  moreover have "x \<notin> {Enter, Left} \<or> not_lost x r k" for x r k by (cases x) auto
  ultimately show ?case using completes by (simp add: cs_simps)
qed

lemma cs_inv_start: "cs_inv n calls (cs_start sem calls)"
  by (simp add: cs_inv_def cs_start_def left_count_def)

section \<open>Every thread returns\<close>

text \<open>
  What a thread may still do on its own: a raised semaphore pays for one more round of the loop, and a call of
  \<open>complete\<close> raises at most every semaphore once.
\<close>

fun cs_pot :: "cpc \<Rightarrow> bool \<Rightarrow> nat" where
  "cs_pot Enter r = 4"
| "cs_pot Unlocked r = (if r then 3 else 1)"
| "cs_pot Down r = 0"
| "cs_pot Relock r = 2"
| "cs_pot Left r = 0"

definition cs_measure :: "nat \<Rightarrow> csys \<Rightarrow> nat" where
  "cs_measure n s = (5 * n + 1) * cs_todo s + (\<Sum>i<n. 3 * cs_sem s i + cs_pot (cs_pc s i) (cs_running s i))"

lemma cs_measure_thread:
  assumes "i < n" "cs_todo s' = cs_todo s"
    "\<And>j. j \<noteq> i \<Longrightarrow> cs_sem s' j = cs_sem s j \<and> cs_pc s' j = cs_pc s j \<and> cs_running s' j = cs_running s j"
    "3 * cs_sem s' i + cs_pot (cs_pc s' i) (cs_running s' i) < 3 * cs_sem s i + cs_pot (cs_pc s i) (cs_running s i)"
  shows "cs_measure n s' < cs_measure n s"
proof -
  have "(\<Sum>j<n. 3 * cs_sem s' j + cs_pot (cs_pc s' j) (cs_running s' j))
      < (\<Sum>j<n. 3 * cs_sem s j + cs_pot (cs_pc s j) (cs_running s j))"
  proof (rule sum_strict_mono_ex1)
    show "\<forall>j\<in>{..<n}. 3 * cs_sem s' j + cs_pot (cs_pc s' j) (cs_running s' j)
        \<le> 3 * cs_sem s j + cs_pot (cs_pc s j) (cs_running s j)"
    proof
      fix j show "3 * cs_sem s' j + cs_pot (cs_pc s' j) (cs_running s' j)
        \<le> 3 * cs_sem s j + cs_pot (cs_pc s j) (cs_running s j)"
        using assms(3) [of j] assms(4) by (cases "j = i") auto
    qed
  qed (use assms in auto)
  then show ?thesis using assms(2) by (simp add: cs_measure_def)
qed

lemma cs_measure_complete:
  assumes "0 < cs_todo s"
  shows "cs_measure n (cs_complete s) < cs_measure n s"
proof -
  obtain k where k: "cs_todo s = Suc k" using assms by (cases "cs_todo s") auto
  have "cs_pot x True \<le> 2 + cs_pot x r" for x r by (cases x) auto
  then have "(\<Sum>j<n. 3 * cs_sem (cs_complete s) j + cs_pot (cs_pc (cs_complete s) j) (cs_running (cs_complete s) j))
      \<le> (\<Sum>j<n. 5 + (3 * cs_sem s j + cs_pot (cs_pc s j) (cs_running s j)))"
    by (intro sum_mono) (auto simp: cs_complete_def add.assoc add.commute [of "cs_pot _ _"])
  also have "\<dots> = 5 * n + (\<Sum>j<n. 3 * cs_sem s j + cs_pot (cs_pc s j) (cs_running s j))"
    by (simp add: sum.distrib)
  finally show ?thesis using k by (simp add: cs_measure_def cs_complete_def)
qed

lemma cstep_measure: "cstep n s s' \<Longrightarrow> cs_measure n s' < cs_measure n s"
proof (induction rule: cstep.induct)
  case (enter_done i s)
  then show ?case by (intro cs_measure_thread [of i]) auto
next
  case (enter_wait i s)
  then show ?case by (intro cs_measure_thread [of i]) (auto simp: cs_sleep_def)
next
  case (sched_yield i s)
  then show ?case by (intro cs_measure_thread [of i]) auto
next
  case (sched_down i s)
  then show ?case by (intro cs_measure_thread [of i]) auto
next
  case (down i s)
  then show ?case by (intro cs_measure_thread [of i]) auto
next
  case (again i s)
  then show ?case by (intro cs_measure_thread [of i]) (auto simp: cs_sleep_def)
next
  case (leave i s)
  then show ?case by (intro cs_measure_thread [of i]) (auto simp: cs_return_def)
qed (rule cs_measure_complete)

lemma cstep_run:
  assumes "(cstep n ^^ k) s s'" "cs_inv n calls s" "calls < 2 ^ 32"
  shows "cs_inv n calls s' \<and> k + cs_measure n s' \<le> cs_measure n s"
  using assms
proof (induction k arbitrary: s')
  case (Suc k)
  then obtain t where t: "(cstep n ^^ k) s t" "cstep n t s'" by auto
  have "cs_inv n calls t" "k + cs_measure n t \<le> cs_measure n s" using Suc t(1) by auto
  then show ?case using cs_inv_step [OF t(2)] cstep_measure [OF t(2)] Suc.prems(3) by auto
qed simp

lemma left_count_less: "i < n \<Longrightarrow> pc i \<noteq> Left \<Longrightarrow> left_count n pc < n"
  using psubset_card_mono [of "{..<n}" "{j. j < n \<and> pc j = Left}"] by (auto simp: left_count_def)

lemma cstep_stuck:
  assumes "\<nexists>s'. cstep n s s'" "cs_inv n calls s" "n \<le> calls" "i < n"
  shows "cs_pc s i = Left"
proof (rule ccontr)
  assume L: "cs_pc s i \<noteq> Left"
  have t: "cs_todo s = 0" using assms(1) cstep.completes [of s n] by auto
  have "cs_pc s i \<noteq> Enter" "cs_pc s i \<noteq> Unlocked" "cs_pc s i \<noteq> Relock"
    using assms(1,4) cstep.enter_done [of i n s] cstep.enter_wait [of i n s] cstep.sched_yield [of i n s]
      cstep.sched_down [of i n s] cstep.again [of i n s] cstep.leave [of i n s] by metis+
  then have d: "cs_pc s i = Down" using L by (cases "cs_pc s i") auto
  then have "cs_sem s i = 0" using assms(1,4) cstep.down [of i n s] by auto
  then have "cs_done s = 0" using assms(2,4) d by (force simp: cs_inv_def)
  then show False using assms(2,3) t left_count_less [where pc = "cs_pc s", OF assms(4) L] by (simp add: cs_inv_def)
qed

section \<open>The operations refine the transition system\<close>

text \<open>
  \<open>count\<close> reads the semaphores of the kit.  As documented, \<open>dde_kit_sem_up\<close> adds one to its semaphore,
  \<open>dde_kit_sem_down\<close> takes one from a semaphore that is not zero, and yielding the processor leaves them alone.
\<close>

definition kit_sems :: "('k, 's) dde_kit \<Rightarrow> ('k \<Rightarrow> addr \<Rightarrow> nat) \<Rightarrow> bool" where
  "kit_sems K count \<longleftrightarrow> (\<forall>l k. count (sem_up K l k) = (count k)(l := Suc (count k l)) \<and>
     (0 < count k l \<longrightarrow> count (sem_down K l k) = (count k)(l := count k l - 1)) \<and>
     count (thread_schedule K k) = count k)"

text \<open>
  Thread \<open>i\<close> has the task \<open>task i\<close>, the sleep semaphore \<open>lock i\<close> and, when it waits, the queue entry \<open>ent i\<close>.
\<close>

record threads =
  th_task :: "nat \<Rightarrow> addr"
  th_lock :: "nat \<Rightarrow> addr"
  th_ent :: "nat \<Rightarrow> addr"

definition thread_view :: "('k \<Rightarrow> addr \<Rightarrow> nat) \<Rightarrow> ('k, 'z) wstate \<Rightarrow> addr \<Rightarrow> addr \<Rightarrow> bool \<Rightarrow> nat \<Rightarrow> bool" where
  "thread_view count s p l r m \<longleftrightarrow> (\<exists>t td. tasks s p = Some t \<and> thread_datas s (ts_thread_info t) = Some td \<and>
     td_sleep_lock td = l \<and> ts_state t = (if r then TASK_RUNNING else TASK_UNINTERRUPTIBLE) \<and>
     count (kit s) l = m)"

definition threads_view :: "('k \<Rightarrow> addr \<Rightarrow> nat) \<Rightarrow> nat \<Rightarrow> threads \<Rightarrow> ('k, 'z) wstate \<Rightarrow> csys \<Rightarrow> bool" where
  "threads_view count n T s c \<longleftrightarrow> inj_on (th_task T) {..<n} \<and> inj_on (th_lock T) {..<n} \<and> inj_on (th_ent T) {..<n} \<and>
     (\<forall>i<n. thread_view count s (th_task T i) (th_lock T i) (cs_running c i) (cs_sem c i))"

definition entry_view :: "('k, 'z) wkit \<Rightarrow> threads \<Rightarrow> ('k, 'z) wstate \<Rightarrow> nat \<Rightarrow> bool" where
  "entry_view K T s i \<longleftrightarrow> (\<exists>e. wait_queues s (th_ent T i) = Some e \<and> wq_private e = th_task T i \<and>
     wq_func e = symbol K ''default_wake_function'')"

definition completion_view ::
  "('k, 'z) wkit \<Rightarrow> ('k \<Rightarrow> addr \<Rightarrow> nat) \<Rightarrow> addr \<Rightarrow> nat \<Rightarrow> threads \<Rightarrow> ('k, 'z) wstate \<Rightarrow> csys \<Rightarrow> bool" where
  "completion_view K count x n T s c \<longleftrightarrow> threads_view count n T s c \<and> comp_done s x = cs_done c \<and>
     wait_heads s x = map (th_ent T) (cs_queue c) \<and> (\<forall>i \<in> set (cs_queue c). i < n \<and> entry_view K T s i)"

definition cs_wake :: "nat \<Rightarrow> csys \<Rightarrow> csys" where
  "cs_wake i c = c\<lparr>cs_running := (cs_running c)(i := True), cs_sem := (cs_sem c)(i := Suc (cs_sem c i))\<rparr>"

lemma fold_cs_wake:
  "distinct q \<Longrightarrow> fold cs_wake q c = c\<lparr>cs_running := (\<lambda>i. i \<in> set q \<or> cs_running c i),
     cs_sem := (\<lambda>i. if i \<in> set q then cs_sem c i + 1 else cs_sem c i)\<rparr>"
  by (induction q arbitrary: c) (auto simp: cs_wake_def fun_eq_iff intro!: csys.equality)

lemma threads_view_step:
  assumes "threads_view count n T s c" "i < n"
    "thread_view count s' (th_task T i) (th_lock T i) (cs_running c' i) (cs_sem c' i)"
    "\<And>j. j \<noteq> i \<Longrightarrow> th_task T j \<noteq> th_task T i \<Longrightarrow> th_lock T j \<noteq> th_lock T i \<Longrightarrow>
       thread_view count s (th_task T j) (th_lock T j) (cs_running c j) (cs_sem c j) \<Longrightarrow>
       thread_view count s' (th_task T j) (th_lock T j) (cs_running c' j) (cs_sem c' j)"
  shows "threads_view count n T s' c'"
proof -
  have "thread_view count s' (th_task T j) (th_lock T j) (cs_running c' j) (cs_sem c' j)" if "j < n" for j
    using assms(1-3) assms(4) [of j] that by (cases "j = i") (auto simp: threads_view_def inj_on_def)
  then show ?thesis using assms(1) by (simp add: threads_view_def)
qed

lemma wake_view:
  assumes "kit_sems K count" "threads_view count n T s c" "i < n" "entry_view K T s i"
  obtains e s' where "wait_queues s (th_ent T i) = Some e"
    "call_wake K W (wq_func e) (th_ent T i) mode sync key s = Some (0, s')"
    "same_waits s s'" "threads_view count n T s' (cs_wake i c)"
proof -
  obtain e where e: "wait_queues s (th_ent T i) = Some e" "wq_private e = th_task T i"
      "wq_func e = symbol K ''default_wake_function''"
    using assms(4) by (auto simp: entry_view_def)
  obtain t td where t: "tasks s (th_task T i) = Some t" "thread_datas s (ts_thread_info t) = Some td"
      "td_sleep_lock td = th_lock T i" "count (kit s) (th_lock T i) = cs_sem c i"
    using assms(2,3) by (auto simp: threads_view_def thread_view_def)
  let ?s = "kit_update (sem_up K (td_sleep_lock td)) (s\<lparr>tasks := (tasks s)(th_task T i \<mapsto> t\<lparr>ts_state := TASK_RUNNING\<rparr>)\<rparr>)"
  have "call_wake K W (wq_func e) (th_ent T i) mode sync key s = Some (0, ?s)"
    using e t by (simp add: call_wake_def default_wake_function_def try_to_wake_up_def lxtask_to_ddethread_def)
  moreover have "threads_view count n T ?s (cs_wake i c)"
    by (rule threads_view_step [OF assms(2,3)]) (use t assms(1) in \<open>simp_all add: thread_view_def cs_wake_def kit_sems_def\<close>)
  ultimately show ?thesis using e(1) by (intro that [of e ?s]) (auto simp: same_waits_def)
qed

lemma wake_loop_view:
  assumes "kit_sems K count" "threads_view count n T s c" "\<forall>i \<in> set q. i < n \<and> entry_view K T s i"
  shows "\<exists>s'. wake_loop K W (map (th_ent T) q) mode nr sync key s = Some s' \<and> same_waits s s' \<and>
    threads_view count n T s' (fold cs_wake q c)"
  using assms
proof (induction q arbitrary: s c)
  case Nil
  then show ?case by (simp add: same_waits_def)
next
  case (Cons i q)
  obtain e s1 where 1: "wait_queues s (th_ent T i) = Some e"
    "call_wake K W (wq_func e) (th_ent T i) mode sync key s = Some (0, s1)"
    "same_waits s s1" "threads_view count n T s1 (cs_wake i c)"
    by (rule wake_view [OF Cons.prems(1,2)]) (use Cons.prems(3) in auto)
  have "\<forall>j \<in> set q. j < n \<and> entry_view K T s1 j"
    using Cons.prems(3) 1(3) by (auto simp: entry_view_def same_waits_def)
  then obtain s2 where "wake_loop K W (map (th_ent T) q) mode nr sync key s1 = Some s2" "same_waits s1 s2"
    "threads_view count n T s2 (fold cs_wake q (cs_wake i c))"
    using Cons.IH [OF Cons.prems(1) 1(4)] by blast
  then show ?case using 1 by (intro exI [of _ s2]) (auto simp: same_waits_def)
qed

lemma complete_view:
  assumes "kit_sems K count" "completion_view K count x n T s c" "distinct (cs_queue c)"
  shows "\<exists>s'. complete K W x s = Some s' \<and> completion_view K count x n T s' (cs_complete c)"
proof -
  let ?s = "s\<lparr>comp_done := (comp_done s)(x := comp_done s x + 1)\<rparr>"
  have "threads_view count n T ?s c" "\<forall>i \<in> set (cs_queue c). i < n \<and> entry_view K T ?s i"
    using assms(2) by (auto simp: completion_view_def threads_view_def thread_view_def entry_view_def)
  from wake_loop_view [OF assms(1) this]
  obtain s' where s': "wake_loop K W (map (th_ent T) (cs_queue c)) (TASK_UNINTERRUPTIBLE OR TASK_INTERRUPTIBLE) 1 0 0 ?s = Some s'"
    "same_waits ?s s'" "threads_view count n T s' (fold cs_wake (cs_queue c) c)" by blast
  have "threads_view count n T s' (cs_complete c)"
    using s'(3) by (simp add: fold_cs_wake [OF assms(3)] cs_complete_def threads_view_def)
  then have "completion_view K count x n T s' (cs_complete c)"
    using s'(2) assms(2) by (auto simp: completion_view_def same_waits_def cs_complete_def entry_view_def)
  then show ?thesis
    using s'(1) assms(2) by (simp add: complete_def wake_up_common_def completion_view_def)
qed

lemma cs_pc_steps [simp]: "cs_pc (cs_sleep i c) i = Unlocked" "cs_pc (cs_return i c) i = Left"
  by (simp_all add: cs_sleep_def cs_return_def)

lemma sleep_view:
  assumes "threads_view count n T s c" "i < n" "get_current K s = Some (th_task T i)"
  obtains s' where "set_current_state K TASK_UNINTERRUPTIBLE s = Some s'" "same_waits s s'"
    "threads_view count n T s' (cs_sleep i c)"
proof -
  obtain t td where t: "tasks s (th_task T i) = Some t" "thread_datas s (ts_thread_info t) = Some td"
      "td_sleep_lock td = th_lock T i" "count (kit s) (th_lock T i) = cs_sem c i"
    using assms(1,2) by (auto simp: threads_view_def thread_view_def)
  let ?s = "s\<lparr>tasks := (tasks s)(th_task T i \<mapsto> t\<lparr>ts_state := TASK_UNINTERRUPTIBLE\<rparr>)\<rparr>"
  have "threads_view count n T ?s (cs_sleep i c)"
    by (rule threads_view_step [OF assms(1,2)]) (use t in \<open>simp_all add: thread_view_def cs_sleep_def\<close>)
  then show ?thesis
    using assms(1,3) t(1) by (intro that [of ?s]) (auto simp: set_current_state_def same_waits_def threads_view_def)
qed

lemma wait_enter_view:
  assumes v: "completion_view K count x n T s c" and i: "i < n" "cs_pc c i = Enter" "i \<notin> set (cs_queue c)"
    and cur: "get_current K s = Some (th_task T i)"
  shows "\<exists>b s' c'. wait_enter K x (th_ent T i) s = Some (b, s') \<and> cstep n c c' \<and>
    completion_view K count x n T s' c' \<and> cs_pc c' i = (if b then Left else Unlocked)"
proof (cases "cs_done c = 0")
  case True
  let ?e = "\<lparr>wq_flags = 0 OR WQ_FLAG_EXCLUSIVE, wq_private = th_task T i,
    wq_func = symbol K ''default_wake_function'', wq_nonempty = True\<rparr>"
  let ?s = "put_wait (th_ent T i) ?e (put_wait (th_ent T i) ?e s
    \<lparr>wait_heads := (wait_heads s)(x := wait_heads s x @ [th_ent T i])\<rparr>)"
  let ?c = "c\<lparr>cs_queue := cs_queue c @ [i]\<rparr>"
  have inj: "th_ent T j \<noteq> th_ent T i" if "j \<in> set (cs_queue c)" for j
    using v i that by (auto simp: completion_view_def threads_view_def inj_on_def)
  have tv: "threads_view count n T ?s ?c"
    using v by (simp add: completion_view_def threads_view_def thread_view_def put_wait_def)
  have gc: "get_current K ?s = Some (th_task T i)"
    using cur by (simp add: get_current_def current_thread_info_def put_wait_def)
  obtain s' where s': "set_current_state K TASK_UNINTERRUPTIBLE ?s = Some s'" "same_waits ?s s'"
    "threads_view count n T s' (cs_sleep i ?c)" by (rule sleep_view [OF tv i(1) gc])
  have "entry_view K T s' j" if "j \<in> set (cs_queue c) \<or> j = i" for j
    using that v s'(2) inj [of j] by (auto simp: completion_view_def entry_view_def same_waits_def put_wait_def)
  then have "completion_view K count x n T s' (cs_sleep i ?c)"
    using v i(1) s'(2,3) by (auto simp: completion_view_def cs_sleep_def same_waits_def put_wait_def)
  moreover have "wait_enter K x (th_ent T i) s = Some (False, s')"
    using s'(1) v cur True by (simp add: wait_enter_def link_tail_def completion_view_def put_wait_def)
  moreover have "cstep n c (cs_sleep i ?c)" using i True by (intro cstep.enter_wait)
  ultimately show ?thesis by (intro exI [of _ False] exI [of _ s'] exI [of _ "cs_sleep i ?c"]) simp
next
  case False
  let ?s = "s\<lparr>comp_done := (comp_done s)(x := comp_done s x - 1)\<rparr>"
  let ?c = "c\<lparr>cs_done := cs_done c - 1, cs_pc := (cs_pc c)(i := Left)\<rparr>"
  have "wait_enter K x (th_ent T i) s = Some (True, ?s)" using v False by (simp add: wait_enter_def completion_view_def)
  moreover have "cstep n c ?c" using i False by (intro cstep.enter_done)
  moreover have "completion_view K count x n T ?s ?c"
    using v by (auto simp: completion_view_def threads_view_def thread_view_def entry_view_def)
  ultimately show ?thesis by (intro exI [of _ True] exI [of _ ?s] exI [of _ ?c]) simp
qed

lemma remove1_map_inj: "inj_on f (insert i (set q)) \<Longrightarrow> remove1 (f i) (map f q) = map f (remove1 i q)"
  by (induction q) (auto simp: inj_on_def)

lemma wait_resume_view:
  assumes v: "completion_view K count x n T s c" and i: "i < n" "cs_pc c i = Relock"
    and cur: "get_current K s = Some (th_task T i)"
  shows "\<exists>b s' c'. wait_resume K x (th_ent T i) s = Some (b, s') \<and> cstep n c c' \<and>
    completion_view K count x n T s' c' \<and> cs_pc c' i = (if b then Left else Unlocked)"
proof (cases "cs_done c = 0")
  case True
  obtain s' where s': "set_current_state K TASK_UNINTERRUPTIBLE s = Some s'" "same_waits s s'"
    "threads_view count n T s' (cs_sleep i c)"
    using sleep_view [OF _ i(1) cur] v by (auto simp: completion_view_def)
  have "completion_view K count x n T s' (cs_sleep i c)"
    using v s'(2,3) by (auto simp: completion_view_def cs_sleep_def same_waits_def entry_view_def)
  moreover have "wait_resume K x (th_ent T i) s = Some (False, s')"
    using s'(1) v True by (simp add: wait_resume_def completion_view_def)
  moreover have "cstep n c (cs_sleep i c)" using i True by (intro cstep.again)
  ultimately show ?thesis by (intro exI [of _ False] exI [of _ s'] exI [of _ "cs_sleep i c"]) simp
next
  case False
  let ?s = "unlink (th_ent T i) s\<lparr>comp_done := (comp_done s)(x := comp_done s x - 1)\<rparr>"
  have "inj_on (th_ent T) (insert i (set (cs_queue c)))"
    using v i(1) by (auto simp: completion_view_def threads_view_def inj_on_def)
  then have "completion_view K count x n T ?s (cs_return i c)"
    using v by (auto simp: completion_view_def threads_view_def thread_view_def entry_view_def cs_return_def
        unlink_def remove1_map_inj dest: set_remove1_subset [THEN subsetD])
  moreover have "wait_resume K x (th_ent T i) s = Some (True, ?s)"
    using v False by (simp add: wait_resume_def completion_view_def unlink_def)
  moreover have "cstep n c (cs_return i c)" using i False by (intro cstep.leave)
  ultimately show ?thesis by (intro exI [of _ True] exI [of _ ?s] exI [of _ "cs_return i c"]) simp
qed

lemma schedule_view:
  assumes ks: "kit_sems K count" and v: "completion_view K count x n T s c" and i: "i < n" "cs_pc c i = Unlocked"
    and cur: "get_current K s = Some (th_task T i)" and w: "cs_running c i \<or> 0 < cs_sem c i"
  shows "\<exists>s' c'. schedule K s = Some s' \<and> (cstep n)\<^sup>*\<^sup>* c c' \<and> completion_view K count x n T s' c' \<and> cs_pc c' i = Relock"
proof -
  obtain t td where t: "tasks s (th_task T i) = Some t" "thread_datas s (ts_thread_info t) = Some td"
      "td_sleep_lock td = th_lock T i" "count (kit s) (th_lock T i) = cs_sem c i"
      "ts_state t = (if cs_running c i then TASK_RUNNING else TASK_UNINTERRUPTIBLE)"
    using v i(1) by (auto simp: completion_view_def threads_view_def thread_view_def)
  show ?thesis
  proof (cases "cs_running c i")
    case True
    let ?s = "kit_update (thread_schedule K) s" and ?c = "c\<lparr>cs_pc := (cs_pc c)(i := Relock)\<rparr>"
    have "schedule K s = Some ?s" using cur t True by (simp add: schedule_def lxtask_to_ddethread_def)
    moreover have "cstep n c ?c" using i True by (intro cstep.sched_yield)
    moreover have "completion_view K count x n T ?s ?c"
      using v ks by (simp add: completion_view_def threads_view_def thread_view_def entry_view_def kit_sems_def)
    ultimately show ?thesis by (intro exI [of _ ?s] exI [of _ ?c]) simp
  next
    case False
    let ?s = "kit_update (sem_down K (th_lock T i)) s" and ?d = "c\<lparr>cs_pc := (cs_pc c)(i := Down)\<rparr>"
    let ?c = "?d\<lparr>cs_sem := (cs_sem ?d)(i := cs_sem ?d i - 1), cs_pc := (cs_pc ?d)(i := Relock)\<rparr>"
    have k: "count (sem_down K (th_lock T i) (kit s)) = (count (kit s))(th_lock T i := cs_sem c i - 1)"
      using ks w False t(4) by (simp add: kit_sems_def)
    have "schedule K s = Some ?s" using cur t False by (simp add: schedule_def lxtask_to_ddethread_def)
    moreover have "cstep n c ?d" using i False by (intro cstep.sched_down)
    moreover have "cstep n ?d ?c" using i w False by (intro cstep.down) simp_all
    moreover have "threads_view count n T ?s ?c"
      by (rule threads_view_step [OF _ i(1)]) (use v t k False in \<open>simp_all add: completion_view_def thread_view_def\<close>)
    then have "completion_view K count x n T ?s ?c" using v by (simp add: completion_view_def entry_view_def)
    ultimately show ?thesis by (intro exI [of _ ?s] exI [of _ ?c]) (simp add: converse_rtranclp_into_rtranclp)
  qed
qed

section \<open>Properties\<close>

text \<open>Two threads; the second has its entry in the queue of the completion at 0x500.\<close>

definition wait_example :: "sim wait_state" where
  "wait_example = \<lparr>kit = sim_init\<lparr>sim_data := 0x10\<rparr>, mem = (\<lambda>_. 0), caches = Map.empty,
     malloc_sizes = malloc_sizes_boot,
     thread_datas = [0x10 \<mapsto> \<lparr>td_thread_info = \<lparr>ti_task = 0x20, ti_preempt_count = 0\<rparr>,
         td_dde_kit_thread = 1, td_sleep_lock = 2\<rparr>,
       0x11 \<mapsto> \<lparr>td_thread_info = \<lparr>ti_task = 0x21, ti_preempt_count = 0\<rparr>,
         td_dde_kit_thread = 3, td_sleep_lock = 4\<rparr>],
     tasks = [0x20 \<mapsto> \<lparr>ts_state = TASK_RUNNING, ts_thread_info = 0x10\<rparr>,
       0x21 \<mapsto> \<lparr>ts_state = TASK_UNINTERRUPTIBLE, ts_thread_info = 0x11\<rparr>], kthread_datas = Map.empty,
     pid_task_list = [], pid_task_list_lock = 3, kthread_count = 0, refcnt = 0, timer_initialized = True,
     wait_heads = (\<lambda>_. [])(0x500 := [0x601]),
     wait_queues = [0x601 \<mapsto> \<lparr>wq_flags = WQ_FLAG_EXCLUSIVE, wq_private = 0x21, wq_func = 21, wq_nonempty = True\<rparr>],
     comp_done = (\<lambda>_. 0)\<rparr>"

definition wait_threads :: threads where
  "wait_threads = \<lparr>th_task = (\<lambda>i. if i = 0 then 0x20 else 0x21), th_lock = (\<lambda>i. if i = 0 then 2 else 4),
     th_ent = (\<lambda>i. if i = 0 then 0x600 else 0x601)\<rparr>"

definition wait_csys :: csys where
  "wait_csys = \<lparr>cs_done = 0, cs_queue = [1], cs_running = (\<lambda>i. i = 0), cs_sem = (\<lambda>_. 0),
     cs_pc = (\<lambda>i. if i = 0 then Enter else Unlocked), cs_todo = 2\<rparr>"

definition sim_count :: "sim \<Rightarrow> addr \<Rightarrow> nat" where
  "sim_count k l = foldl (\<lambda>n e. if e = (''sem_up'', [l]) then Suc n else if e = (''sem_down'', [l]) then n - 1 else n) 0 (sim_trace k)"

lemma sim_kit_sems: "kit_sems sim_kit sim_count"
  by (auto simp: kit_sems_def sim_kit_def sim_ev_def sim_count_def fun_eq_iff)

lemma wait_example_view: "completion_view sim_kit sim_count 0x500 2 wait_threads wait_example wait_csys"
  by (auto simp: completion_view_def threads_view_def thread_view_def entry_view_def inj_on_def less_2_cases_iff
      wait_threads_def wait_example_def wait_csys_def sim_count_def sim_init_def sim_kit_def)

lemma wait_csys_inv: "cs_inv 2 2 wait_csys"
  by (auto simp: cs_inv_def wait_csys_def left_count_def less_2_cases_iff)

text \<open>
  \<open>__wake_up\<close> on a queue of threads that wait with the kernel's own wake functions makes every
  one of them runnable, whatever \<open>nr_exclusive\<close> says and whether they wait exclusively or not, touches no other
  task, and leaves the queue as it is: the environment's \<open>try_to_wake_up\<close> returns zero, so neither the count
  of exclusive waiters nor the removal in \<open>autoremove_wake_function\<close> takes effect.
\<close>

theorem wake_up_wakes_all:
  assumes "\<forall>w \<in> set (wait_heads s q). wakeable K s w"
  shows "\<exists>s'. wake_up K W q mode nr key s = Some s' \<and> wait_heads s' = wait_heads s \<and> wait_queues s' = wait_queues s \<and>
    (\<forall>p. tasks s' p = (if p \<in> waiting_tasks s (wait_heads s q)
       then map_option (\<lambda>t. t\<lparr>ts_state := TASK_RUNNING\<rparr>) (tasks s p) else tasks s p))"
  using wake_loop_all [OF assms, of W mode nr 0 key] by (auto simp: wake_up_def wake_up_common_def same_waits_def)

theorem wake_up_wakes_all_witness:
  "\<exists>s'. wake_up sim_kit (\<lambda>_ _ _ _ _ _. None) 0x500 3 1 0 wait_example = Some s' \<and>
     map_option ts_state (tasks s' 0x21) = Some TASK_RUNNING"
proof -
  have "\<forall>w \<in> set (wait_heads wait_example 0x500). wakeable sim_kit wait_example w"
    by (simp add: wakeable_def wait_example_def sim_kit_def)
  moreover have "0x21 \<in> waiting_tasks wait_example (wait_heads wait_example 0x500)"
    by (simp add: waiting_tasks_def wait_example_def)
  moreover have "tasks wait_example 0x21 = Some \<lparr>ts_state = TASK_UNINTERRUPTIBLE, ts_thread_info = 0x11\<rparr>"
    by (simp add: wait_example_def)
  ultimately show ?thesis
    using wake_up_wakes_all [of wait_example "0x500" sim_kit "\<lambda>_ _ _ _ _ _. None" 3 1 0] by auto
qed

text \<open>
  Property C29.  The sections of \<open>complete\<close> and \<open>wait_for_completion\<close> and the environment's \<open>schedule\<close> implement
  the transition system: from a state that shows the system state \<open>c\<close>, each of them returns and ends in a state that
  shows what steps of the system lead to from \<open>c\<close>, and the thread stands where the step says.
\<close>

theorem completion_refines:
  assumes "kit_sems K count" "completion_view K count x n T s c" "cs_inv n calls c"
  shows "(0 < cs_todo c \<longrightarrow> (\<exists>s' c'. complete K W x s = Some s' \<and> cstep n c c' \<and> completion_view K count x n T s' c')) \<and>
    (\<forall>i<n. get_current K s = Some (th_task T i) \<longrightarrow>
      (cs_pc c i = Enter \<longrightarrow> (\<exists>b s' c'. wait_enter K x (th_ent T i) s = Some (b, s') \<and> cstep n c c' \<and>
         completion_view K count x n T s' c' \<and> cs_pc c' i = (if b then Left else Unlocked))) \<and>
      (cs_pc c i = Unlocked \<and> (cs_running c i \<or> 0 < cs_sem c i) \<longrightarrow> (\<exists>s' c'. schedule K s = Some s' \<and>
         (cstep n)\<^sup>*\<^sup>* c c' \<and> completion_view K count x n T s' c' \<and> cs_pc c' i = Relock)) \<and>
      (cs_pc c i = Relock \<longrightarrow> (\<exists>b s' c'. wait_resume K x (th_ent T i) s = Some (b, s') \<and> cstep n c c' \<and>
         completion_view K count x n T s' c' \<and> cs_pc c' i = (if b then Left else Unlocked))))"
proof (intro conjI allI impI)
  assume "0 < cs_todo c"
  then show "\<exists>s' c'. complete K W x s = Some s' \<and> cstep n c c' \<and> completion_view K count x n T s' c'"
    using complete_view [OF assms(1,2), of W] assms(3) cstep.completes [of c n] by (auto simp: cs_inv_def)
next
  fix i assume i: "i < n" "get_current K s = Some (th_task T i)"
  show "\<exists>b s' c'. wait_enter K x (th_ent T i) s = Some (b, s') \<and> cstep n c c' \<and>
      completion_view K count x n T s' c' \<and> cs_pc c' i = (if b then Left else Unlocked)" if "cs_pc c i = Enter"
    using wait_enter_view [OF assms(2) i(1) that _ i(2)] assms(3) that by (simp add: cs_inv_def)
  show "\<exists>s' c'. schedule K s = Some s' \<and> (cstep n)\<^sup>*\<^sup>* c c' \<and> completion_view K count x n T s' c' \<and> cs_pc c' i = Relock"
    if "cs_pc c i = Unlocked \<and> (cs_running c i \<or> 0 < cs_sem c i)"
    by (rule schedule_view [OF assms(1,2) i(1) _ i(2)]) (use that in auto)
  show "\<exists>b s' c'. wait_resume K x (th_ent T i) s = Some (b, s') \<and> cstep n c c' \<and>
      completion_view K count x n T s' c' \<and> cs_pc c' i = (if b then Left else Unlocked)" if "cs_pc c i = Relock"
    by (rule wait_resume_view [OF assms(2) i(1) that i(2)])
qed

theorem completion_refines_witness:
  "(\<exists>s'. complete sim_kit (\<lambda>_ _ _ _ _ _. None) 0x500 wait_example = Some s') \<and>
   (\<exists>s' c'. wait_enter sim_kit 0x500 0x600 wait_example = Some (False, s') \<and> cstep 2 wait_csys c' \<and> cs_pc c' 0 = Unlocked \<and>
      completion_view sim_kit sim_count 0x500 2 wait_threads s' c')"
proof -
  have c: "0 < cs_todo wait_csys" "cs_pc wait_csys 0 = Enter" "th_ent wait_threads 0 = 0x600"
      "get_current sim_kit wait_example = Some (th_task wait_threads 0)"
    by (simp_all add: wait_csys_def wait_threads_def wait_example_def get_current_def current_thread_info_def sim_kit_def)
  have f: "b = False" if "wait_enter sim_kit 0x500 0x600 wait_example = Some (b, s')" for b s'
    using that by (auto simp: wait_enter_def wait_example_def split: bind_splits)
  have "(0 :: nat) < 2" by simp
  with completion_refines [OF sim_kit_sems wait_example_view wait_csys_inv, of "\<lambda>_ _ _ _ _ _. None"] c
  obtain b s' c' where 1: "wait_enter sim_kit 0x500 0x600 wait_example = Some (b, s')" "cstep 2 wait_csys c'"
      "completion_view sim_kit sim_count 0x500 2 wait_threads s' c'" "cs_pc c' 0 = (if b then Left else Unlocked)"
      "\<exists>s'. complete sim_kit (\<lambda>_ _ _ _ _ _. None) 0x500 wait_example = Some s'"
    by metis
  then show ?thesis using f by auto
qed

text \<open>
  Property C6.  No call of \<open>wait_for_completion\<close> waits for ever: in any interleaving of \<open>n\<close> waiting threads and
  at least as many calls of \<open>complete\<close>, from any counts of the sleep semaphores, the number of steps is bounded,
  and where no further step is possible every thread has returned.  All along, the threads that have returned
  and the count \<open>done\<close> together are the calls of \<open>complete\<close> so far, so that none returns too early.
\<close>

theorem completion_all_return:
  assumes "(cstep n ^^ k) (cs_start sem calls) s" "n \<le> calls" "calls < 2 ^ 32"
  shows "k \<le> (5 * n + 1) * calls + (\<Sum>i<n. 3 * sem i + 4) \<and>
    left_count n (cs_pc s) + unat (cs_done s) = calls - cs_todo s \<and>
    ((\<nexists>s'. cstep n s s') \<longrightarrow> (\<forall>i<n. cs_pc s i = Left))"
proof -
  have "cs_inv n calls s" "k + cs_measure n s \<le> cs_measure n (cs_start sem calls)"
    using cstep_run [OF assms(1) cs_inv_start assms(3)] by auto
  moreover have "cs_measure n (cs_start sem calls) = (5 * n + 1) * calls + (\<Sum>i<n. 3 * sem i + 4)"
    by (simp add: cs_measure_def cs_start_def)
  moreover have "left_count n (cs_pc s) + unat (cs_done s) = calls - cs_todo s"
    using \<open>cs_inv n calls s\<close> by (auto simp: cs_inv_def)
  ultimately show ?thesis using cstep_stuck [OF _ _ assms(2)] by auto
qed

text \<open>One thread that enters, sleeps, is completed, wakes and returns.\<close>

theorem completion_all_return_witness:
  "\<exists>s. (cstep 1 ^^ 5) (cs_start (\<lambda>_. 0) 1) s \<and> (\<nexists>s'. cstep 1 s s') \<and> cs_pc s 0 = Left"
proof -
  define s0 where "s0 = cs_start (\<lambda>_. 0) 1"
  define s1 where "s1 = cs_sleep 0 (s0\<lparr>cs_queue := cs_queue s0 @ [0]\<rparr>)"
  define s2 where "s2 = s1\<lparr>cs_pc := (cs_pc s1)(0 := Down)\<rparr>"
  define s3 where "s3 = cs_complete s2"
  define s4 where "s4 = s3\<lparr>cs_sem := (cs_sem s3)(0 := cs_sem s3 0 - 1), cs_pc := (cs_pc s3)(0 := Relock)\<rparr>"
  define s5 where "s5 = cs_return 0 s4"
  note d = s1_def s2_def s3_def s4_def s5_def s0_def cs_start_def cs_sleep_def cs_complete_def cs_return_def
  have "cstep 1 s0 s1" unfolding s1_def by (rule cstep.enter_wait) (simp_all add: d)
  moreover have "cstep 1 s1 s2" unfolding s2_def by (rule cstep.sched_down) (simp_all add: d)
  moreover have "cstep 1 s2 s3" unfolding s3_def by (rule cstep.completes) (simp add: d)
  moreover have "cstep 1 s3 s4" unfolding s4_def by (rule cstep.down) (simp_all add: d)
  moreover have "cstep 1 s4 s5" unfolding s5_def by (rule cstep.leave) (simp_all add: d)
  ultimately have run: "(cstep 1 ^^ 5) s0 s5" by (auto simp: numeral_eq_Suc intro!: relcomppI)
  have "cs_pc s5 0 = Left" "cs_todo s5 = 0" by (simp_all add: d)
  then have stuck: "\<nexists>s'. cstep 1 s5 s'" by (auto elim!: cstepE)
  show ?thesis using completion_all_return [OF run [unfolded s0_def]] run stuck by (auto simp: s0_def)
qed

end
