(* ===== verification/Resource_Tree.thy ===== *)
theory Resource_Tree
  imports Pci Kmem
begin

text \<open>
  The resource tree of \<open>kernel/resource.c\<close>.  A \<open>struct resource\<close> lives at its address in a heap of nodes that
  are linked by their \<open>parent\<close>, \<open>sibling\<close> and \<open>child\<close> pointers, as in C; a pointer to such a pointer field
  (\<open>struct resource **\<close>) is an \<open>rlink\<close>.  Loops that follow pointers are partial functions: on a cyclic list
  they have no value.  \<open>resource_size_t\<close> has 32 bits in this configuration.
\<close>

section \<open>Nodes and links\<close>

record resource_node = resource +
  rn_parent :: addr
  rn_sibling :: addr
  rn_child :: addr

type_synonym rheap = "addr \<rightharpoonup> resource_node"

datatype rlink = Child addr | Sibling addr

fun deref :: "rheap \<Rightarrow> rlink \<Rightarrow> addr option" where
  "deref h (Child r) = map_option rn_child (h r)"
| "deref h (Sibling r) = map_option rn_sibling (h r)"

fun assign :: "rlink \<Rightarrow> addr \<Rightarrow> rheap \<Rightarrow> rheap option" where
  "assign (Child r) v h = map_option (\<lambda>n. h(r \<mapsto> n\<lparr>rn_child := v\<rparr>)) (h r)"
| "assign (Sibling r) v h = map_option (\<lambda>n. h(r \<mapsto> n\<lparr>rn_sibling := v\<rparr>)) (h r)"

definition update_node :: "addr \<Rightarrow> (resource_node \<Rightarrow> resource_node) \<Rightarrow> rheap \<Rightarrow> rheap option" where
  "update_node r f h = map_option (\<lambda>n. h(r \<mapsto> f n)) (h r)"

section \<open>Requesting and releasing\<close>

text \<open>\<open>__request_resource\<close>: the first part of the result is the conflicting resource, or \<open>NULL\<close>.\<close>

definition link_node :: "addr \<Rightarrow> addr \<Rightarrow> rlink \<Rightarrow> addr \<Rightarrow> rheap \<Rightarrow> (addr \<times> rheap) option" where
  "link_node root new p tmp h = do {
     h \<leftarrow> update_node new (\<lambda>n. n\<lparr>rn_sibling := tmp\<rparr>) h;
     h \<leftarrow> assign p new h;
     h \<leftarrow> update_node new (\<lambda>n. n\<lparr>rn_parent := root\<rparr>) h;
     Some (0, h) }"

partial_function (option) request_loop ::
  "addr \<Rightarrow> addr \<Rightarrow> u32 \<Rightarrow> u32 \<Rightarrow> rheap \<Rightarrow> rlink \<Rightarrow> (addr \<times> rheap) option" where
  "request_loop root new start fin h p = do {
     tmp \<leftarrow> deref h p;
     if tmp = 0 then link_node root new p tmp h
     else do {
       t \<leftarrow> h tmp;
       if fin < r_start t then link_node root new p tmp h
       else if r_end t < start then request_loop root new start fin h (Sibling tmp)
       else Some (tmp, h) } }"

definition request_resource_inner :: "addr \<Rightarrow> addr \<Rightarrow> rheap \<Rightarrow> (addr \<times> rheap) option" where
  "request_resource_inner root new h = do {
     n \<leftarrow> h new;
     if r_end n < r_start n then Some (root, h)
     else do {
       r \<leftarrow> h root;
       if r_start n < r_start r then Some (root, h)
       else if r_end r < r_end n then Some (root, h)
       else request_loop root new (r_start n) (r_end n) h (Child root) } }"

definition request_resource :: "addr \<Rightarrow> addr \<Rightarrow> rheap \<Rightarrow> (int \<times> rheap) option" where
  "request_resource root new h = do {
     (conflict, h) \<leftarrow> request_resource_inner root new h;
     Some (if conflict \<noteq> 0 then - EBUSY else 0, h) }"

definition request_resource_conflict :: "addr \<Rightarrow> addr \<Rightarrow> rheap \<Rightarrow> (addr \<times> rheap) option" where
  "request_resource_conflict root new h = request_resource_inner root new h"

partial_function (option) release_loop :: "addr \<Rightarrow> rheap \<Rightarrow> rlink \<Rightarrow> (int \<times> rheap) option" where
  "release_loop old h p = do {
     tmp \<leftarrow> deref h p;
     if tmp = 0 then Some (- EINVAL, h)
     else if tmp = old then do {
       t \<leftarrow> h tmp;
       h \<leftarrow> assign p (rn_sibling t) h;
       h \<leftarrow> update_node old (\<lambda>n. n\<lparr>rn_parent := 0\<rparr>) h;
       Some (0, h) }
     else release_loop old h (Sibling tmp) }"

definition release_resource :: "addr \<Rightarrow> rheap \<Rightarrow> (int \<times> rheap) option" where
  "release_resource old h = do {
     n \<leftarrow> h old;
     release_loop old h (Child (rn_parent n)) }"

section \<open>Allocating\<close>

definition ALIGN :: "u32 \<Rightarrow> u32 \<Rightarrow> u32" where
  "ALIGN x a = (x + (a - 1)) AND NOT (a - 1)"

text \<open>The optional alignment callback may change the resource it is given.\<close>

type_synonym alignfn = "(addr \<Rightarrow> addr \<Rightarrow> u32 \<Rightarrow> u32 \<Rightarrow> rheap \<Rightarrow> rheap) option"

definition clip_align ::
  "addr \<Rightarrow> u32 \<Rightarrow> u32 \<Rightarrow> u32 \<Rightarrow> u32 \<Rightarrow> u32 \<Rightarrow> alignfn \<Rightarrow> addr \<Rightarrow> rheap \<Rightarrow> rheap option" where
  "clip_align new fin sz mn mx align alignf data h = do {
     n \<leftarrow> h new;
     let n = n\<lparr>r_end := fin\<rparr>;
     let n = (if r_start n < mn then n\<lparr>r_start := mn\<rparr> else n);
     let n = (if mx < r_end n then n\<lparr>r_end := mx\<rparr> else n);
     let n = n\<lparr>r_start := ALIGN (r_start n) align\<rparr>;
     let h = h(new \<mapsto> n);
     Some (case alignf of None \<Rightarrow> h | Some f \<Rightarrow> f data new sz align h) }"

partial_function (option) find_loop ::
  "addr \<Rightarrow> addr \<Rightarrow> u32 \<Rightarrow> u32 \<Rightarrow> u32 \<Rightarrow> u32 \<Rightarrow> alignfn \<Rightarrow> addr \<Rightarrow> addr \<Rightarrow> rheap \<Rightarrow> (int \<times> rheap) option" where
  "find_loop root new sz mn mx align alignf data this h = do {
     fin \<leftarrow> (if this \<noteq> 0 then map_option (\<lambda>t. r_start t - 1) (h this) else map_option r_end (h root));
     h \<leftarrow> clip_align new fin sz mn mx align alignf data h;
     n \<leftarrow> h new;
     if r_start n < r_end n \<and> sz - 1 \<le> r_end n - r_start n
     then Some (0, h(new \<mapsto> n\<lparr>r_end := r_start n + sz - 1\<rparr>))
     else if this = 0 then Some (- EBUSY, h)
     else do {
       t \<leftarrow> h this;
       find_loop root new sz mn mx align alignf data (rn_sibling t) (h(new \<mapsto> n\<lparr>r_start := r_end t + 1\<rparr>)) } }"

definition find_resource ::
  "addr \<Rightarrow> addr \<Rightarrow> u32 \<Rightarrow> u32 \<Rightarrow> u32 \<Rightarrow> u32 \<Rightarrow> alignfn \<Rightarrow> addr \<Rightarrow> rheap \<Rightarrow> (int \<times> rheap) option" where
  "find_resource root new sz mn mx align alignf data h = do {
     r \<leftarrow> h root;
     let this = rn_child r;
     h \<leftarrow> update_node new (\<lambda>n. n\<lparr>r_start := r_start r\<rparr>) h;
     if this \<noteq> 0 then do {
       t \<leftarrow> h this;
       if r_start t = 0 then do {
         h \<leftarrow> update_node new (\<lambda>n. n\<lparr>r_start := r_end t + 1\<rparr>) h;
         find_loop root new sz mn mx align alignf data (rn_sibling t) h }
       else find_loop root new sz mn mx align alignf data this h }
     else find_loop root new sz mn mx align alignf data this h }"

definition allocate_resource ::
  "addr \<Rightarrow> addr \<Rightarrow> u32 \<Rightarrow> u32 \<Rightarrow> u32 \<Rightarrow> u32 \<Rightarrow> alignfn \<Rightarrow> addr \<Rightarrow> rheap \<Rightarrow> (int \<times> rheap) option" where
  "allocate_resource root new sz mn mx align alignf data h = do {
     (err, h) \<leftarrow> find_resource root new sz mn mx align alignf data h;
     if 0 \<le> err then do {
       (conflict, h) \<leftarrow> request_resource_inner root new h;
       Some (if conflict \<noteq> 0 then - EBUSY else err, h) }
     else Some (err, h) }"

section \<open>Inserting above other resources\<close>

text \<open>The descent; \<open>Inl\<close> is the \<open>goto out\<close> with its result, \<open>Inr\<close> the \<open>break\<close> with \<open>parent\<close> and \<open>first\<close>.\<close>

partial_function (option) insert_descend :: "addr \<Rightarrow> addr \<Rightarrow> rheap \<Rightarrow> ((int + addr \<times> addr) \<times> rheap) option" where
  "insert_descend parent new h = do {
     (first, h) \<leftarrow> request_resource_inner parent new h;
     if first = 0 then Some (Inl 0, h)
     else if first = parent then Some (Inl (- EBUSY), h)
     else do {
       f \<leftarrow> h first;
       n \<leftarrow> h new;
       if r_start n < r_start f \<or> r_end f < r_end n then Some (Inr (parent, first), h)
       else if r_start f = r_start n \<and> r_end f = r_end n then Some (Inr (parent, first), h)
       else insert_descend first new h } }"

text \<open>The last resource that the new one covers, or 0 for a partial overlap.\<close>

partial_function (option) insert_span :: "addr \<Rightarrow> rheap \<Rightarrow> addr \<Rightarrow> addr option" where
  "insert_span new h nx = do {
     t \<leftarrow> h nx;
     n \<leftarrow> h new;
     if r_start t < r_start n \<or> r_end n < r_end t then Some 0
     else if rn_sibling t = 0 then Some nx
     else do {
       u \<leftarrow> h (rn_sibling t);
       if r_end n < r_start u then Some nx else insert_span new h (rn_sibling t) } }"

partial_function (option) reparent :: "addr \<Rightarrow> addr \<Rightarrow> rheap \<Rightarrow> rheap option" where
  "reparent new nx h =
     (if nx = 0 then Some h
      else do {
        t \<leftarrow> h nx;
        reparent new (rn_sibling t) (h(nx \<mapsto> t\<lparr>rn_parent := new\<rparr>)) })"

text \<open>The search for the resource in front of \<open>r\<close>: \<open>while (next->sibling != r) next = next->sibling\<close>.\<close>

partial_function (option) find_prev :: "addr \<Rightarrow> rheap \<Rightarrow> addr \<Rightarrow> addr option" where
  "find_prev r h nx = do {
     t \<leftarrow> h nx;
     if rn_sibling t = r then Some nx else find_prev r h (rn_sibling t) }"

text \<open>The new resource takes the place of the resources from \<open>first\<close> to \<open>nx\<close>, which become its children.\<close>

definition adopt :: "addr \<Rightarrow> addr \<Rightarrow> addr \<Rightarrow> addr \<Rightarrow> rheap \<Rightarrow> rheap option" where
  "adopt parent new first nx h = do {
     t \<leftarrow> h nx;
     h \<leftarrow> update_node new (\<lambda>n. n\<lparr>rn_parent := parent, rn_sibling := rn_sibling t, rn_child := first\<rparr>) h;
     h \<leftarrow> update_node nx (\<lambda>n. n\<lparr>rn_sibling := 0\<rparr>) h;
     h \<leftarrow> reparent new first h;
     p \<leftarrow> h parent;
     if rn_child p = first then assign (Child parent) new h
     else do {
       prev \<leftarrow> find_prev first h (rn_child p);
       assign (Sibling prev) new h } }"

definition insert_resource :: "addr \<Rightarrow> addr \<Rightarrow> rheap \<Rightarrow> (int \<times> rheap) option" where
  "insert_resource parent new h = do {
     (out, h) \<leftarrow> insert_descend parent new h;
     case out of Inl result \<Rightarrow> Some (result, h)
     | Inr (parent, first) \<Rightarrow> do {
         nx \<leftarrow> insert_span new h first;
         if nx = 0 then Some (- EBUSY, h)
         else do {
           h \<leftarrow> adopt parent new first nx h;
           Some (0, h) } } }"

section \<open>Adjusting\<close>

partial_function (option) children_fit :: "u32 \<Rightarrow> u32 \<Rightarrow> rheap \<Rightarrow> addr \<Rightarrow> bool option" where
  "children_fit start fin h tmp =
     (if tmp = 0 then Some True
      else do {
        t \<leftarrow> h tmp;
        if r_start t < start \<or> fin < r_end t then Some False else children_fit start fin h (rn_sibling t) })"

definition adjust_resource :: "addr \<Rightarrow> u32 \<Rightarrow> u32 \<Rightarrow> rheap \<Rightarrow> (int \<times> rheap) option" where
  "adjust_resource res start sz h = do {
     n \<leftarrow> h res;
     let fin = start + sz - 1;
     p \<leftarrow> h (rn_parent n);
     if start < r_start p \<or> r_end p < fin then Some (- EBUSY, h)
     else do {
       ok \<leftarrow> children_fit start fin h (rn_child n);
       if \<not> ok then Some (- EBUSY, h)
       else do {
         after \<leftarrow> (if rn_sibling n \<noteq> 0 then map_option (\<lambda>t. r_start t \<le> fin) (h (rn_sibling n)) else Some False);
         if after then Some (- EBUSY, h)
         else do {
           before \<leftarrow> (if rn_child p \<noteq> res then do {
                prev \<leftarrow> find_prev res h (rn_child p);
                map_option (\<lambda>t. start \<le> r_end t) (h prev) }
              else Some False);
           if before then Some (- EBUSY, h)
           else Some (0, h(res \<mapsto> n\<lparr>r_start := start, r_end := fin\<rparr>)) } } } }"

section \<open>Busy regions\<close>

record 'k tree_state = "'k kmem_state" +
  resources :: rheap

type_synonym ('k, 'z) tstate = "('k, 'z) tree_state_scheme"
type_synonym ('k, 'z) tkit = "('k, ('k, 'z) tree_state_scheme) dde_kit"

abbreviation (input) IORESOURCE_BUSY :: u32 where "IORESOURCE_BUSY \<equiv> 0x80000000"

text \<open>The descent of \<open>__request_region\<close> through resources that are not busy; the result tells success.\<close>

partial_function (option) region_descend :: "addr \<Rightarrow> addr \<Rightarrow> rheap \<Rightarrow> (bool \<times> rheap) option" where
  "region_descend parent res h = do {
     (conflict, h) \<leftarrow> request_resource_inner parent res h;
     if conflict = 0 then Some (True, h)
     else if conflict \<noteq> parent then do {
       c \<leftarrow> h conflict;
       if r_flags c AND IORESOURCE_BUSY = 0 then region_descend conflict res h else Some (False, h) }
     else Some (False, h) }"

definition request_busy_region ::
  "('k, 'z) tkit \<Rightarrow> addr \<Rightarrow> u32 \<Rightarrow> u32 \<Rightarrow> ('k, 'z) tstate \<Rightarrow> (addr \<times> ('k, 'z) tstate) option" where
  "request_busy_region K parent start n s = do {
     (res, s) \<leftarrow> kzalloc K (sizeof K ''resource'') GFP_KERNEL s;
     if res = 0 then Some (0, s)
     else do {
       let s = s\<lparr>resources := (resources s)(res \<mapsto>
         \<lparr>r_start = start, r_end = start + n - 1, r_flags = IORESOURCE_BUSY,
          rn_parent = 0, rn_sibling = 0, rn_child = 0\<rparr>)\<rparr>;
       (ok, h) \<leftarrow> region_descend parent res (resources s);
       let s = s\<lparr>resources := h\<rparr>;
       if ok then Some (res, s)
       else do {
         s \<leftarrow> kfree K res s;
         Some (0, s\<lparr>resources := (resources s)(res := None)\<rparr>) } } }"

definition check_busy_region ::
  "('k, 'z) tkit \<Rightarrow> addr \<Rightarrow> u32 \<Rightarrow> u32 \<Rightarrow> ('k, 'z) tstate \<Rightarrow> (int \<times> ('k, 'z) tstate) option" where
  "check_busy_region K parent start n s = do {
     (res, s) \<leftarrow> request_busy_region K parent start n s;
     if res = 0 then Some (- EBUSY, s)
     else do {
       (r, h) \<leftarrow> release_resource res (resources s);
       s \<leftarrow> kfree K res (s\<lparr>resources := h\<rparr>);
       Some (0, s\<lparr>resources := (resources s)(res := None)\<rparr>) } }"

text \<open>The search of \<open>__release_region\<close>: the freed resource, or 0 with the warning.\<close>

partial_function (option) region_release_loop :: "u32 \<Rightarrow> u32 \<Rightarrow> rheap \<Rightarrow> rlink \<Rightarrow> (addr \<times> rheap) option" where
  "region_release_loop start fin h p = do {
     res \<leftarrow> deref h p;
     if res = 0 then Some (0, h)
     else do {
       r \<leftarrow> h res;
       if r_start r \<le> start \<and> fin \<le> r_end r then
         (if r_flags r AND IORESOURCE_BUSY = 0 then region_release_loop start fin h (Child res)
          else if r_start r \<noteq> start \<or> r_end r \<noteq> fin then Some (0, h)
          else do {
            h \<leftarrow> assign p (rn_sibling r) h;
            Some (res, h) })
       else region_release_loop start fin h (Sibling res) } }"

definition release_busy_region ::
  "('k, 'z) tkit \<Rightarrow> addr \<Rightarrow> u32 \<Rightarrow> u32 \<Rightarrow> ('k, 'z) tstate \<Rightarrow> ('k, 'z) tstate option" where
  "release_busy_region K parent start n s = do {
     (res, h) \<leftarrow> region_release_loop start (start + n - 1) (resources s) (Child parent);
     let s = s\<lparr>resources := h\<rparr>;
     if res = 0 then Some s
     else do {
       s \<leftarrow> kfree K res s;
       Some (s\<lparr>resources := (resources s)(res := None)\<rparr>) } }"

section \<open>Sibling lists\<close>

text \<open>\<open>seg h p xs q\<close>: the sibling pointers lead from \<open>p\<close> over exactly the nodes \<open>xs\<close> to \<open>q\<close>.\<close>

primrec seg :: "rheap \<Rightarrow> addr \<Rightarrow> addr list \<Rightarrow> addr \<Rightarrow> bool" where
  "seg h p [] q = (p = q)"
| "seg h p (x # xs) q = (p = x \<and> x \<noteq> 0 \<and> (case h x of None \<Rightarrow> False | Some n \<Rightarrow> seg h (rn_sibling n) xs q))"

lemma seg_append: "seg h p (xs @ ys) q \<longleftrightarrow> (\<exists>m. seg h p xs m \<and> seg h m ys q)"
  by (induction xs arbitrary: p) (auto split: option.splits)

lemma seg_cong:
  "(\<And>x. x \<in> set xs \<Longrightarrow> map_option rn_sibling (h' x) = map_option rn_sibling (h x)) \<Longrightarrow> seg h' p xs q = seg h p xs q"
proof (induction xs arbitrary: p)
  case (Cons x xs)
  then have "map_option rn_sibling (h' x) = map_option rn_sibling (h x)" by simp
  then show ?case using Cons by (cases "h x"; cases "h' x") auto
qed simp

lemma seg_nonzero: "seg h p xs q \<Longrightarrow> x \<in> set xs \<Longrightarrow> x \<noteq> 0 \<and> (\<exists>n. h x = Some n)"
  by (induction xs arbitrary: p) (auto split: option.splits)

lemma seg_start: "seg h p xs 0 \<Longrightarrow> p = (case xs of [] \<Rightarrow> 0 | x # _ \<Rightarrow> x)"
  by (cases xs) auto

section \<open>The tree as lists of children\<close>

definition nd :: "rheap \<Rightarrow> addr \<Rightarrow> resource_node" where
  "nd h x = the (h x)"

text \<open>
  \<open>level h r xs\<close>: the children of \<open>r\<close> are \<open>xs\<close> in ascending order; their ranges are not empty, lie inside the
  range of \<open>r\<close> and do not overlap, and they point back to \<open>r\<close>.
\<close>

definition child_ok :: "rheap \<Rightarrow> addr \<Rightarrow> addr \<Rightarrow> bool" where
  "child_ok h r x \<longleftrightarrow> h x \<noteq> None \<and> rn_parent (nd h x) = r \<and> r_start (nd h r) \<le> r_start (nd h x) \<and>
     r_start (nd h x) \<le> r_end (nd h x) \<and> r_end (nd h x) \<le> r_end (nd h r)"

definition level :: "rheap \<Rightarrow> addr \<Rightarrow> addr list \<Rightarrow> bool" where
  "level h r xs \<longleftrightarrow> h r \<noteq> None \<and> seg h (rn_child (nd h r)) xs 0 \<and> (\<forall>x \<in> set xs. child_ok h r x) \<and>
     sorted_wrt (\<lambda>x y. r_end (nd h x) < r_start (nd h y)) xs"

text \<open>
  \<open>res_tree h R kids\<close>: the resources \<open>R\<close> form a tree or several, \<open>kids\<close> gives the children of each; the rank
  rules out a resource below itself.
\<close>

definition ranked :: "addr set \<Rightarrow> (addr \<Rightarrow> addr list) \<Rightarrow> bool" where
  "ranked R kids \<longleftrightarrow> (\<exists>d :: addr \<Rightarrow> nat. \<forall>r \<in> R. \<forall>x \<in> set (kids r). d x < d r)"

definition res_tree :: "rheap \<Rightarrow> addr set \<Rightarrow> (addr \<Rightarrow> addr list) \<Rightarrow> bool" where
  "res_tree h R kids \<longleftrightarrow> 0 \<notin> R \<and> ranked R kids \<and> (\<forall>r \<in> R. level h r (kids r) \<and> set (kids r) \<subseteq> R)"

lemma level_distinct: "level h r xs \<Longrightarrow> distinct xs"
proof -
  assume l: "level h r xs"
  have "sorted_wrt (\<noteq>) xs"
    by (rule sorted_wrt_mono_rel [of _ "\<lambda>x y. r_end (nd h x) < r_start (nd h y)"])
      (use l in \<open>auto simp: level_def child_ok_def\<close>)
  then show ?thesis by (simp add: distinct_conv_nth sorted_wrt_iff_nth_less) (metis nat_neq_iff)
qed

lemma res_tree_level: "res_tree h R kids \<Longrightarrow> r \<in> R \<Longrightarrow> level h r (kids r)"
  by (simp add: res_tree_def)

lemma res_tree_kid:
  assumes "res_tree h R kids" "r \<in> R" "x \<in> set (kids r)"
  shows "x \<in> R" "x \<noteq> r" "rn_parent (nd h x) = r" "x \<noteq> 0" "child_ok h r x"
  using assms by (auto simp: res_tree_def level_def child_ok_def ranked_def)

lemma level_frame:
  assumes "level h r xs" "map_option (\<lambda>n. (rn_child n, r_start n, r_end n)) (h' r) = map_option (\<lambda>n. (rn_child n, r_start n, r_end n)) (h r)"
    "\<And>x. x \<in> set xs \<Longrightarrow> map_option (\<lambda>n. (rn_sibling n, rn_parent n, r_start n, r_end n)) (h' x)
       = map_option (\<lambda>n. (rn_sibling n, rn_parent n, r_start n, r_end n)) (h x)"
  shows "level h' r xs"
proof -
  obtain n n' where r: "h r = Some n" "h' r = Some n'" "rn_child n' = rn_child n" "r_start n' = r_start n" "r_end n' = r_end n"
    using assms(1,2) by (auto simp: level_def)
  have x: "\<exists>m m'. h x = Some m \<and> h' x = Some m' \<and> rn_sibling m' = rn_sibling m \<and> rn_parent m' = rn_parent m \<and>
      r_start m' = r_start m \<and> r_end m' = r_end m" if "x \<in> set xs" for x
    using assms(1) assms(3) [OF that] that by (auto simp: level_def child_ok_def)
  have sg: "seg h' (rn_child n) xs 0 = seg h (rn_child n) xs 0" by (rule seg_cong) (use x in fastforce)
  have rng: "r_start (nd h' x) = r_start (nd h x) \<and> r_end (nd h' x) = r_end (nd h x)" if "x \<in> set xs" for x
    using x [OF that] by (auto simp: nd_def)
  moreover have "sorted_wrt (\<lambda>x y. r_end (nd h' x) < r_start (nd h' y)) xs"
    by (rule sorted_wrt_mono_rel [of _ "\<lambda>x y. r_end (nd h x) < r_start (nd h y)"])
      (use assms(1) rng in \<open>simp_all add: level_def\<close>)
  moreover have "child_ok h' r y" if "y \<in> set xs" for y
    using assms(1) x [OF that] r that by (auto simp: level_def child_ok_def nd_def)
  ultimately show ?thesis using assms(1) r sg by (auto simp: level_def nd_def)
qed

section \<open>Requests\<close>

text \<open>The place of a range among ordered siblings: the nodes in front of it and the rest.\<close>

definition before :: "rheap \<Rightarrow> u32 \<Rightarrow> addr list \<Rightarrow> addr list" where
  "before h start xs = takeWhile (\<lambda>x. r_end (nd h x) < start) xs"

definition rest :: "rheap \<Rightarrow> u32 \<Rightarrow> addr list \<Rightarrow> addr list" where
  "rest h start xs = dropWhile (\<lambda>x. r_end (nd h x) < start) xs"

definition hd0 :: "addr list \<Rightarrow> addr" where
  "hd0 xs = (case xs of [] \<Rightarrow> 0 | x # _ \<Rightarrow> x)"

definition link_of :: "rlink \<Rightarrow> addr list \<Rightarrow> rlink" where
  "link_of p as = (if as = [] then p else Sibling (last as))"

lemma before_rest [simp]: "before h start xs @ rest h start xs = xs"
  by (simp add: before_def rest_def)

lemma before_rest_sets: "set (before h start xs) \<subseteq> set xs" "set (rest h start xs) \<subseteq> set xs"
  by (auto simp: before_def rest_def dest: set_takeWhileD set_dropWhileD)

lemma seg_split: "seg h p (as @ bs) 0 \<Longrightarrow> seg h p as (hd0 bs)" "seg h p (as @ bs) 0 \<Longrightarrow> seg h (hd0 bs) bs 0"
  using seg_start [of h _ bs] by (auto simp: seg_append hd0_def)

lemma request_loop_eq:
  assumes "deref h p = Some tmp" "seg h tmp zs 0" "start \<le> fin" "\<forall>x \<in> set zs. r_start (nd h x) \<le> r_end (nd h x)"
  shows "request_loop root new start fin h p =
    (if rest h start zs = [] \<or> fin < r_start (nd h (hd (rest h start zs)))
     then link_node root new (link_of p (before h start zs)) (hd0 (rest h start zs)) h
     else Some (hd (rest h start zs), h))"
  using assms
proof (induction zs arbitrary: p tmp)
  case Nil
  then show ?case by (subst request_loop.simps) (simp add: rest_def before_def link_of_def hd0_def)
next
  case (Cons x zs)
  obtain n where n: "h x = Some n" "tmp = x" "x \<noteq> 0" "seg h (rn_sibling n) zs 0"
    using Cons.prems(2) by (auto split: option.splits)
  show ?case
  proof (cases "r_end n < start")
    case True
    moreover have "\<not> fin < r_start n" using Cons.prems(3,4) n True by (auto simp: nd_def)
    moreover have "deref h (Sibling x) = Some (rn_sibling n)" using n by simp
    ultimately show ?thesis
      using Cons.IH [of "Sibling x" "rn_sibling n"] Cons.prems n
      by (subst request_loop.simps) (auto simp: rest_def before_def link_of_def nd_def)
  next
    case False
    then show ?thesis
      using Cons.prems n by (subst request_loop.simps) (simp add: rest_def before_def link_of_def hd0_def nd_def)
  qed
qed

definition linked_at :: "addr \<Rightarrow> addr \<Rightarrow> addr list \<Rightarrow> addr list \<Rightarrow> rheap \<Rightarrow> rheap" where
  "linked_at r new as bs h = h(new \<mapsto> (nd h new)\<lparr>rn_sibling := hd0 bs, rn_parent := r\<rparr>,
     (if as = [] then r else last as) \<mapsto>
       (if as = [] then (nd h r)\<lparr>rn_child := new\<rparr> else (nd h (last as))\<lparr>rn_sibling := new\<rparr>))"

lemma link_node_eq:
  assumes "h new \<noteq> None" "h r \<noteq> None" "as \<noteq> [] \<longrightarrow> h (last as) \<noteq> None" "new \<noteq> r" "new \<notin> set as"
  shows "link_node r new (link_of (Child r) as) (hd0 bs) h = Some (0, linked_at r new as bs h)"
proof -
  obtain n m where n: "h new = Some n" "h r = Some m" using assms(1,2) by auto
  show ?thesis
  proof (cases "as = []")
    case True
    then show ?thesis
      using assms(4) n by (simp add: link_node_def link_of_def linked_at_def update_node_def nd_def) (auto simp: fun_eq_iff)
  next
    case False
    then obtain k where "last as \<noteq> new" "h (last as) = Some k" using assms(3,5) last_in_set [of as] by (metis not_None_eq)
    then show ?thesis
      using False n by (simp add: link_node_def link_of_def linked_at_def update_node_def nd_def) (auto simp: fun_eq_iff)
  qed
qed

lemma seg_linked:
  assumes m: "seg h (rn_child (nd h r)) as m" "seg h (hd0 bs) bs 0"
    and "distinct (as @ bs)" "r \<notin> set (as @ bs)" "new \<notin> set (as @ bs)" "new \<noteq> r" "new \<noteq> 0"
  shows "seg (linked_at r new as bs h) (rn_child (nd (linked_at r new as bs h) r)) (as @ new # bs) 0"
proof -
  let ?h = "linked_at r new as bs h"
  have last: "as \<noteq> [] \<Longrightarrow> last as \<in> set as" by simp
  have "map_option rn_sibling (?h x) = map_option rn_sibling (h x)" if "x \<in> set bs" for x
  proof -
    have x: "x \<noteq> new" "x \<notin> set as" "x \<noteq> r" using that assms(3-5) by auto
    show ?thesis
    proof (cases "as = []")
      case False
      then have "last as \<in> set as" by simp
      with x(2) have "x \<noteq> last as" by fast
      then show ?thesis using x(1) False by (simp add: linked_at_def)
    qed (use x in \<open>simp add: linked_at_def\<close>)
  qed
  then have "seg ?h (hd0 bs) bs 0 = seg h (hd0 bs) bs 0" by (rule seg_cong)
  with m(2) have b: "seg ?h (hd0 bs) bs 0" by simp
  have "as \<noteq> [] \<Longrightarrow> new \<noteq> last as" using last assms(5) by (metis Un_iff set_append)
  then have "map_option rn_sibling (?h new) = Some (hd0 bs)"
    using assms(6) by (simp add: linked_at_def)
  then have new: "seg ?h new (new # bs) 0"
    using b assms(7) by (simp only: seg.simps) (auto split: option.splits)
  show ?thesis
  proof (cases "as = []")
    case True
    then show ?thesis using new assms(6) by (simp add: linked_at_def nd_def)
  next
    case False
    then obtain xs l where as: "as = xs @ [l]" by (metis append_butlast_last_id)
    have "x \<noteq> new \<and> x \<noteq> l" if "x \<in> set xs" for x using that assms(3,5) as by auto
    then have "map_option rn_sibling (?h x) = map_option rn_sibling (h x)" if "x \<in> set xs" for x
      using that as by (simp add: linked_at_def)
    then have "seg ?h p xs q = seg h p xs q" for p q by (rule seg_cong)
    moreover have "rn_child (nd ?h r) = rn_child (nd h r)" using assms(4,6) as by (auto simp: linked_at_def nd_def)
    moreover have "?h l = Some ((nd h l)\<lparr>rn_sibling := new\<rparr>)" using assms(5) as by (auto simp: linked_at_def nd_def)
    ultimately show ?thesis using m(1) new as by (auto simp: seg_append simp del: seg.simps(2)) (simp split: option.splits)
  qed
qed

lemma linked_at_fields [simp]:
  "r_start (nd (linked_at r new as bs h) x) = r_start (nd h x)"
  "r_end (nd (linked_at r new as bs h) x) = r_end (nd h x)"
  "r_flags (nd (linked_at r new as bs h) x) = r_flags (nd h x)"
  by (auto simp: linked_at_def nd_def)

lemma linked_at_other:
  "x \<noteq> new \<Longrightarrow> x \<noteq> (if as = [] then r else last as) \<Longrightarrow> linked_at r new as bs h x = h x"
  by (simp add: linked_at_def)

lemma linked_at_parent:
  assumes "new \<noteq> r" "new \<notin> set as"
  shows "rn_parent (nd (linked_at r new as bs h) x) = (if x = new then r else rn_parent (nd h x))"
proof -
  have "as \<noteq> [] \<Longrightarrow> last as \<noteq> new" using assms(2) by (metis last_in_set)
  then show ?thesis using assms(1) by (auto simp: linked_at_def nd_def)
qed

lemma linked_at_dom: "h r \<noteq> None \<Longrightarrow> h x \<noteq> None \<Longrightarrow> linked_at r new as bs h x \<noteq> None"
  by (simp add: linked_at_def)

text \<open>Where a range fits between ordered siblings, it lies behind the first group and in front of the second.\<close>

lemma place_order:
  assumes "level h r xs" "rest h start xs = [] \<or> fin < r_start (nd h (hd (rest h start xs)))"
  shows "\<forall>a \<in> set (before h start xs). r_end (nd h a) < start" "\<forall>b \<in> set (rest h start xs). fin < r_start (nd h b)"
proof -
  show "\<forall>a \<in> set (before h start xs). r_end (nd h a) < start"
    by (auto simp: before_def dest: set_takeWhileD)
  have "sorted_wrt (\<lambda>x y. r_end (nd h x) < r_start (nd h y)) (before h start xs @ rest h start xs)"
    using assms(1) by (simp add: level_def)
  then have s: "sorted_wrt (\<lambda>x y. r_end (nd h x) < r_start (nd h y)) (rest h start xs)"
    by (simp only: sorted_wrt_append)
  have ok: "\<forall>b \<in> set (rest h start xs). r_start (nd h b) \<le> r_end (nd h b)"
    using assms(1) before_rest_sets [of h start xs] by (auto simp: level_def child_ok_def)
  show "\<forall>b \<in> set (rest h start xs). fin < r_start (nd h b)"
    using s ok assms(2) by (cases "rest h start xs") (auto dest: order.strict_trans2 order.strict_trans)
qed

lemma level_linked:
  assumes l: "level h r (as @ bs)" and r: "r \<notin> set (as @ bs)"
    and new: "new \<notin> set (as @ bs)" "new \<noteq> r" "new \<noteq> 0" "h new \<noteq> None"
    and n: "r_start (nd h new) \<le> r_end (nd h new)" "r_start (nd h r) \<le> r_start (nd h new)" "r_end (nd h new) \<le> r_end (nd h r)"
    and o: "\<forall>a \<in> set as. r_end (nd h a) < r_start (nd h new)" "\<forall>b \<in> set bs. r_end (nd h new) < r_start (nd h b)"
  shows "level (linked_at r new as bs h) r (as @ new # bs)"
proof -
  let ?h = "linked_at r new as bs h"
  have hr: "h r \<noteq> None" using l by (simp add: level_def)
  have d: "distinct (as @ bs)" using l by (rule level_distinct)
  have "seg h (rn_child (nd h r)) (as @ bs) 0" using l by (simp add: level_def)
  then have "seg ?h (rn_child (nd ?h r)) (as @ new # bs) 0"
    using seg_split [of h _ as bs] d r new by (intro seg_linked) auto
  moreover have "child_ok ?h r x" if "x \<in> set (as @ new # bs)" for x
    using that l new n linked_at_dom [of h r x, OF hr] linked_at_parent [of new r as bs h x] by (auto simp: child_ok_def level_def)
  moreover have "sorted_wrt (\<lambda>x y. r_end (nd ?h x) < r_start (nd ?h y)) (as @ new # bs)"
    using l o by (auto simp: level_def sorted_wrt_append)
  ultimately show ?thesis using linked_at_dom [of h r r, OF hr hr] by (simp add: level_def)
qed

lemma ranked_insert:
  "ranked R kids \<Longrightarrow> new \<notin> R \<Longrightarrow> root \<in> R \<Longrightarrow> set ys \<subseteq> insert new (set (kids root)) \<Longrightarrow> \<forall>r \<in> R. set (kids r) \<subseteq> R \<Longrightarrow>
    ranked (insert new R) (kids(root := ys, new := []))"
  unfolding ranked_def
proof -
  assume a: "\<exists>d :: addr \<Rightarrow> nat. \<forall>r\<in>R. \<forall>x\<in>set (kids r). d x < d r" "new \<notin> R" "root \<in> R" "set ys \<subseteq> insert new (set (kids root))"
    "\<forall>r \<in> R. set (kids r) \<subseteq> R"
  then obtain d :: "addr \<Rightarrow> nat" where d: "\<forall>r\<in>R. \<forall>x\<in>set (kids r). d x < d r" by blast
  have "\<forall>r\<in>insert new R. \<forall>x\<in>set ((kids(root := ys, new := [])) r). ((\<lambda>x. Suc (d x))(new := 0)) x < ((\<lambda>x. Suc (d x))(new := 0)) r"
    using a d by (auto simp: subset_iff)
  then show "\<exists>d :: addr \<Rightarrow> nat. \<forall>r\<in>insert new R. \<forall>x\<in>set ((kids(root := ys, new := [])) r). d x < d r" by blast
qed

lemma res_tree_link:
  assumes t: "res_tree h R kids" and root: "root \<in> R" and new: "new \<notin> R" "new \<noteq> 0" "h new \<noteq> None" "rn_child (nd h new) = 0"
    and k: "kids root = as @ bs" and l: "level (linked_at root new as bs h) root (as @ new # bs)"
  shows "res_tree (linked_at root new as bs h) (insert new R) (kids(root := as @ new # bs, new := []))"
proof -
  let ?h = "linked_at root new as bs h" and ?kids = "kids(root := as @ new # bs, new := [])"
  have kids: "set (kids r) \<subseteq> R" if "r \<in> R" for r using t that by (simp add: res_tree_def)
  have ne: "new \<noteq> root" "new \<notin> set as" using root new(1) kids [OF root] k by auto
  have hr: "h root \<noteq> None" using t root by (simp add: res_tree_def level_def)
  have "level ?h r (?kids r)" if "r \<in> insert new R" for r
  proof (cases "r = new")
    case True
    have "?h new = Some ((nd h new)\<lparr>rn_sibling := hd0 bs, rn_parent := root\<rparr>)"
      using ne by (cases "as = []") (auto simp: linked_at_def)
    then show ?thesis using True new(4) by (simp add: level_def nd_def)
  next
    case False
    show ?thesis
    proof (cases "r = root")
      case True
      then show ?thesis using l ne by simp
    next
      case other: False
      have r: "r \<in> R" using that False by simp
      have "level ?h r (kids r)"
      proof (rule level_frame [OF res_tree_level [OF t r]])
        show "map_option (\<lambda>n. (rn_child n, r_start n, r_end n)) (?h r) = map_option (\<lambda>n. (rn_child n, r_start n, r_end n)) (h r)"
          using other False res_tree_level [OF t r] by (auto simp: linked_at_def level_def nd_def)
        fix x assume x: "x \<in> set (kids r)"
        have "x \<noteq> new" using x new(1) kids [OF r] by auto
        moreover have "x \<notin> set (kids root)" using res_tree_kid(3) [OF t r x] res_tree_kid(3) [OF t root] other by auto
        then have "as \<noteq> [] \<Longrightarrow> x \<noteq> last as" using k last_in_set [of as] by auto
        ultimately show "map_option (\<lambda>n. (rn_sibling n, rn_parent n, r_start n, r_end n)) (?h x)
            = map_option (\<lambda>n. (rn_sibling n, rn_parent n, r_start n, r_end n)) (h x)"
          using hr by (auto simp: linked_at_def nd_def)
      qed
      then show ?thesis using other False by simp
    qed
  qed
  moreover have "ranked (insert new R) ?kids"
    by (rule ranked_insert) (use t root new k in \<open>auto simp: res_tree_def\<close>)
  moreover have "set (?kids r) \<subseteq> insert new R" if "r \<in> insert new R" for r
    using that kids [OF root] kids [of r] k by (auto split: if_splits)
  ultimately show ?thesis using t new(2) by (simp add: res_tree_def)
qed

text \<open>
  What \<open>__request_resource\<close> does: a range that is empty or not inside the root conflicts with the root; one that
  overlaps a child conflicts with the first such child; any other range is put into its place.
\<close>

definition overlaps :: "rheap \<Rightarrow> addr \<Rightarrow> addr \<Rightarrow> bool" where
  "overlaps h x y \<longleftrightarrow> r_start (nd h x) \<le> r_end (nd h y) \<and> r_start (nd h y) \<le> r_end (nd h x)"

definition inside :: "rheap \<Rightarrow> addr \<Rightarrow> addr \<Rightarrow> bool" where
  "inside h x r \<longleftrightarrow> r_start (nd h x) \<le> r_end (nd h x) \<and> r_start (nd h r) \<le> r_start (nd h x) \<and> r_end (nd h x) \<le> r_end (nd h r)"

definition placed :: "rheap \<Rightarrow> addr \<Rightarrow> addr list \<Rightarrow> addr list" where
  "placed h new xs = before h (r_start (nd h new)) xs @ new # rest h (r_start (nd h new)) xs"

lemma request_inner_cases:
  assumes t: "res_tree h R kids" and root: "root \<in> R" and new: "new \<notin> R" "new \<noteq> 0" "h new \<noteq> None" "rn_child (nd h new) = 0"
  obtains (outside) "request_resource_inner root new h = Some (root, h)" "\<not> inside h new root"
  | (conflict) c where "request_resource_inner root new h = Some (c, h)" "inside h new root" "c \<in> set (kids root)" "overlaps h c new"
      "\<exists>cs. rest h (r_start (nd h new)) (kids root) = c # cs"
  | (ok) h' where "request_resource_inner root new h = Some (0, h')" "inside h new root" "\<forall>x \<in> set (kids root). \<not> overlaps h x new"
      "h' = linked_at root new (before h (r_start (nd h new)) (kids root)) (rest h (r_start (nd h new)) (kids root)) h"
      "res_tree h' (insert new R) (kids(root := placed h new (kids root), new := []))"
proof -
  obtain n r where n: "h new = Some n" "h root = Some r" using new t root by (auto simp: res_tree_def level_def)
  let ?as = "before h (r_start n) (kids root)" and ?bs = "rest h (r_start n) (kids root)"
  have nd: "nd h new = n" "nd h root = r" using n by (simp_all add: nd_def)
  have l: "level h root (kids root)" using t root by (rule res_tree_level)
  show ?thesis
  proof (cases "inside h new root")
    case False
    then show ?thesis using n nd by (intro outside) (auto simp: request_resource_inner_def inside_def not_le)
  next
    case True
    have "deref h (Child root) = Some (rn_child r)" "seg h (rn_child r) (kids root) 0"
        "\<forall>x \<in> set (kids root). r_start (nd h x) \<le> r_end (nd h x)"
      using n nd l by (auto simp: level_def child_ok_def)
    note eq = request_loop_eq [OF this(1,2) _ this(3)]
    have "\<not> r_end n < r_start n" "\<not> r_start n < r_start r" "\<not> r_end r < r_end n" "r_start n \<le> r_end n"
      using True nd by (auto simp: inside_def)
    then have loop: "request_resource_inner root new h =
      (if ?bs = [] \<or> r_end n < r_start (nd h (hd ?bs))
       then link_node root new (link_of (Child root) ?as) (hd0 ?bs) h else Some (hd ?bs, h))"
      using n eq by (simp add: request_resource_inner_def)
    have as: "\<forall>x \<in> set ?as. \<not> overlaps h x new" by (auto simp: before_def overlaps_def nd dest: set_takeWhileD)
    show ?thesis
    proof (cases "?bs = [] \<or> r_end n < r_start (nd h (hd ?bs))")
      case fits: True
      note ord = place_order [OF l this]
      have sub: "set (kids root) \<subseteq> R" using t root by (simp add: res_tree_def)
      have "h (last ?as) \<noteq> None" if "?as \<noteq> []"
        using l subsetD [OF before_rest_sets(1) last_in_set [OF that]] by (auto simp: level_def child_ok_def)
      then have run: "request_resource_inner root new h = Some (0, linked_at root new ?as ?bs h)"
        using loop fits n new(1) root sub before_rest_sets(1) [of h "r_start n" "kids root"]
        by (simp, intro link_node_eq) auto
      have "level (linked_at root new ?as ?bs h) root (?as @ new # ?bs)"
        by (rule level_linked) (use l n nd new root sub ord True res_tree_kid(2) [OF t root] in \<open>auto simp: inside_def\<close>)
      then have "res_tree (linked_at root new ?as ?bs h) (insert new R) (kids(root := ?as @ new # ?bs, new := []))"
        using t root new by (intro res_tree_link) auto
      moreover have "\<not> overlaps h x new" if "x \<in> set (kids root)" for x
      proof -
        have "x \<in> set ?as \<or> x \<in> set ?bs" using that before_rest [of h "r_start n" "kids root"] by (metis Un_iff set_append)
        then show ?thesis using ord as by (auto simp: overlaps_def nd)
      qed
      ultimately show ?thesis using run True by (intro ok) (auto simp: nd placed_def)
    next
      case False
      then obtain c cs where c: "?bs = c # cs" by (cases ?bs) auto
      have "\<not> r_end (nd h c) < r_start n" using c by (auto simp: rest_def dropWhile_eq_Cons_conv)
      moreover have "c \<in> set (kids root)" using c before_rest_sets(2) [of h "r_start n" "kids root"] by auto
      ultimately show ?thesis
        using loop False c True as by (intro conflict [of c]) (auto simp: overlaps_def nd)
    qed
  qed
qed

section \<open>Releases\<close>

definition unlinked_at :: "addr \<Rightarrow> addr list \<Rightarrow> addr list \<Rightarrow> rheap \<Rightarrow> rheap" where
  "unlinked_at r as bs h = h((if as = [] then r else last as) \<mapsto>
     (if as = [] then (nd h r)\<lparr>rn_child := hd0 bs\<rparr> else (nd h (last as))\<lparr>rn_sibling := hd0 bs\<rparr>))"

lemma unlinked_at_fields [simp]:
  "r_start (nd (unlinked_at r as bs h) x) = r_start (nd h x)"
  "r_end (nd (unlinked_at r as bs h) x) = r_end (nd h x)"
  "r_flags (nd (unlinked_at r as bs h) x) = r_flags (nd h x)"
  "rn_parent (nd (unlinked_at r as bs h) x) = rn_parent (nd h x)"
  by (auto simp: unlinked_at_def nd_def)

lemma assign_unlinked:
  "h r \<noteq> None \<Longrightarrow> as \<noteq> [] \<longrightarrow> h (last as) \<noteq> None \<Longrightarrow> assign (link_of (Child r) as) (hd0 bs) h = Some (unlinked_at r as bs h)"
  by (auto simp: link_of_def unlinked_at_def nd_def)

lemma seg_next: "seg h p (as @ x # bs) 0 \<Longrightarrow> \<exists>n. h x = Some n \<and> rn_sibling n = hd0 bs"
  by (auto simp: seg_append hd0_def split: option.splits list.splits)

lemma release_loop_eq:
  assumes "deref h p = Some tmp" "seg h tmp (as @ old # bs) 0" "old \<notin> set as"
  shows "release_loop old h p = do {
    h \<leftarrow> assign (link_of p as) (hd0 bs) h; h \<leftarrow> update_node old (\<lambda>n. n\<lparr>rn_parent := 0\<rparr>) h; Some (0, h) }"
  using assms
proof (induction as arbitrary: p tmp)
  case Nil
  then show ?case using seg_next [OF Nil.prems(2)] by (subst release_loop.simps) (auto simp: link_of_def)
next
  case (Cons x as)
  then obtain n where "h x = Some n" "seg h (rn_sibling n) (as @ old # bs) 0" "tmp = x" "x \<noteq> 0"
    by (auto split: option.splits)
  moreover from this have "deref h (Sibling x) = Some (rn_sibling n)" by simp
  ultimately show ?case
    using Cons.IH [of "Sibling x" "rn_sibling n"] Cons.prems by (subst release_loop.simps) (auto simp: link_of_def)
qed

lemma seg_unlinked:
  assumes "seg h (rn_child (nd h r)) (as @ x # bs) 0" "distinct (as @ x # bs)" "r \<notin> set (as @ x # bs)"
  shows "seg (unlinked_at r as bs h) (rn_child (nd (unlinked_at r as bs h) r)) (as @ bs) 0"
proof -
  let ?h = "unlinked_at r as bs h"
  obtain m and n :: resource_node where m: "seg h (rn_child (nd h r)) as m" "seg h (rn_sibling n) bs 0"
    using assms(1) by (auto simp: seg_append split: option.splits)
  have hd: "rn_sibling n = hd0 bs" using seg_start [OF m(2)] by (simp add: hd0_def)
  have "map_option rn_sibling (?h y) = map_option rn_sibling (h y)" if "y \<in> set bs" for y
  proof -
    have "y \<noteq> r" "y \<notin> set as" using that assms(2,3) by auto
    moreover have "as \<noteq> [] \<Longrightarrow> last as \<in> set as" by simp
    ultimately show ?thesis by (cases "as = []") (auto simp: unlinked_at_def)
  qed
  then have "seg ?h (hd0 bs) bs 0 = seg h (hd0 bs) bs 0" by (rule seg_cong)
  then have b: "seg ?h (hd0 bs) bs 0" using m(2) hd by simp
  show ?thesis
  proof (cases "as = []")
    case True
    then show ?thesis using b by (simp add: unlinked_at_def nd_def)
  next
    case False
    then obtain xs l where as: "as = xs @ [l]" by (metis append_butlast_last_id)
    have "map_option rn_sibling (?h y) = map_option rn_sibling (h y)" if "y \<in> set xs" for y
      using that assms(2) as by (auto simp: unlinked_at_def)
    then have "seg ?h p xs q = seg h p xs q" for p q by (rule seg_cong)
    moreover have "rn_child (nd ?h r) = rn_child (nd h r)" using assms(3) as by (auto simp: unlinked_at_def nd_def)
    moreover have "?h l = Some ((nd h l)\<lparr>rn_sibling := hd0 bs\<rparr>)" using as by (auto simp: unlinked_at_def)
    ultimately show ?thesis using m(1) b as by (auto simp: seg_append)
  qed
qed

lemma res_tree_agree:
  assumes "res_tree h R kids" "\<And>x. x \<in> R \<Longrightarrow> h' x = h x" "\<And>r. r \<in> R \<Longrightarrow> kids' r = kids r"
  shows "res_tree h' R kids'"
proof -
  have "level h' r (kids r)" if "r \<in> R" for r
    by (rule level_frame [OF res_tree_level [OF assms(1) that]])
      (use assms that in \<open>auto simp: res_tree_def subset_iff\<close>)
  then show ?thesis using assms(1,3) by (simp add: res_tree_def ranked_def)
qed

lemma ranked_mono:
  assumes "ranked R kids" "R' \<subseteq> R" "\<And>r. r \<in> R' \<Longrightarrow> set (kids' r) \<subseteq> set (kids r)"
  shows "ranked R' kids'"
proof -
  obtain d :: "addr \<Rightarrow> nat" where "\<forall>r \<in> R. \<forall>x \<in> set (kids r). d x < d r" using assms(1) by (auto simp: ranked_def)
  then have "\<forall>r \<in> R'. \<forall>x \<in> set (kids' r). d x < d r" using assms(2,3) by blast
  then show ?thesis by (auto simp: ranked_def)
qed

lemma res_tree_unlink:
  assumes t: "res_tree h R kids" and r: "r \<in> R" and k: "kids r = as @ x # bs"
  shows "res_tree (unlinked_at r as bs h) (R - {x}) (kids(r := as @ bs))"
proof -
  let ?h = "unlinked_at r as bs h"
  have x: "x \<in> set (kids r)" using k by simp
  have l: "level h r (kids r)" using t r by (rule res_tree_level)
  have nr: "r \<notin> set (kids r)" using res_tree_kid(2) [OF t r] by blast
  have dist: "distinct (as @ x # bs)" using level_distinct [OF l] k by simp
  have dom: "?h y \<noteq> None" if "h y \<noteq> None" for y using that by (simp add: unlinked_at_def)
  have "level ?h r (as @ bs)"
  proof -
    have "seg ?h (rn_child (nd ?h r)) (as @ bs) 0"
      by (rule seg_unlinked [where x = x]) (use l dist nr k in \<open>simp_all add: level_def\<close>)
    moreover have "child_ok ?h r y" if "y \<in> set (as @ bs)" for y
      using that l k dom [of y] by (auto simp: level_def child_ok_def)
    ultimately show ?thesis using l k dom [of r] by (auto simp: level_def sorted_wrt_append)
  qed
  moreover have "level ?h q (kids q)" if q: "q \<in> R" "q \<noteq> r" for q
  proof (rule level_frame [OF res_tree_level [OF t q(1)]])
    show "map_option (\<lambda>n. (rn_child n, r_start n, r_end n)) (?h q) = map_option (\<lambda>n. (rn_child n, r_start n, r_end n)) (h q)"
      using q(2) res_tree_level [OF t q(1)] by (auto simp: unlinked_at_def level_def nd_def)
    fix y assume y: "y \<in> set (kids q)"
    have "y \<notin> set (kids r)" using res_tree_kid(3) [OF t q(1) y] res_tree_kid(3) [OF t r] q(2) by auto
    then have "as \<noteq> [] \<Longrightarrow> y \<noteq> last as" using k last_in_set [of as] by auto
    then show "map_option (\<lambda>n. (rn_sibling n, rn_parent n, r_start n, r_end n)) (?h y)
        = map_option (\<lambda>n. (rn_sibling n, rn_parent n, r_start n, r_end n)) (h y)"
      using l by (auto simp: unlinked_at_def nd_def level_def)
  qed
  moreover have "set ((kids(r := as @ bs)) q) \<subseteq> R - {x}" if "q \<in> R - {x}" for q
  proof -
    have "x \<notin> set (kids q)" if "q \<noteq> r"
      using that \<open>q \<in> R - {x}\<close> res_tree_kid(3) [OF t _, of q x] res_tree_kid(3) [OF t r x] by auto
    moreover have "set (kids q) \<subseteq> R" "set (kids r) \<subseteq> R" using that t r by (auto simp: res_tree_def)
    ultimately show ?thesis using k dist by auto
  qed
  moreover have "ranked (R - {x}) (kids(r := as @ bs))" 
    by (rule ranked_mono [of R kids]) (use t k in \<open>auto simp: res_tree_def\<close>)
  ultimately show ?thesis using t by (simp add: res_tree_def)
qed

lemma release_resource_unlinks:
  assumes t: "res_tree h R kids" and r: "r \<in> R" and x: "x \<in> set (kids r)"
  obtains as bs h' where "kids r = as @ x # bs" "release_resource x h = Some (0, h')"
    "h' = (unlinked_at r as bs h)(x \<mapsto> (nd h x)\<lparr>rn_parent := 0\<rparr>)" "res_tree h' (R - {x}) (kids(r := remove1 x (kids r)))"
proof -
  obtain as bs where k: "kids r = as @ x # bs" using split_list [OF x] by blast
  have l: "level h r (kids r)" using t r by (rule res_tree_level)
  have dist: "x \<notin> set as" "x \<notin> set bs" using level_distinct [OF l] k by auto
  have xr: "x \<noteq> r" "rn_parent (nd h x) = r" using res_tree_kid [OF t r x] by auto
  obtain n m where n: "h x = Some n" "h r = Some m"
    using res_tree_kid(5) [OF t r x] l unfolding level_def child_ok_def by blast
  have "rn_parent n = r" using xr(2) n(1) by (simp add: nd_def)
  note n = n this
  have "h (last as) \<noteq> None" if "as \<noteq> []"
    using l k last_in_set [OF that] by (auto simp: level_def child_ok_def)
  then have a: "assign (link_of (Child r) as) (hd0 bs) h = Some (unlinked_at r as bs h)"
    using n by (intro assign_unlinked) auto
  have nl: "as \<noteq> [] \<Longrightarrow> x \<noteq> last as" using dist(1) last_in_set [of as] by metis
  have "unlinked_at r as bs h x = Some n" using n(1) xr(1) nl by (simp add: unlinked_at_def)
  moreover have "seg h (rn_child m) (as @ x # bs) 0" using l k n(2) by (simp add: level_def nd_def)
  from release_loop_eq [OF _ this dist(1), of "Child r"] n(2) a
  have "release_loop x h (Child r) = do {
      h \<leftarrow> update_node x (\<lambda>n. n\<lparr>rn_parent := 0\<rparr>) (unlinked_at r as bs h); Some (0, h) }" by simp
  ultimately have run: "release_resource x h = Some (0, (unlinked_at r as bs h)(x \<mapsto> (nd h x)\<lparr>rn_parent := 0\<rparr>))"
    using n by (simp add: release_resource_def nd_def update_node_def)
  have "res_tree ((unlinked_at r as bs h)(x \<mapsto> (nd h x)\<lparr>rn_parent := 0\<rparr>)) (R - {x}) (kids(r := remove1 x (kids r)))"
    by (rule res_tree_agree [OF res_tree_unlink [OF t r k]]) (use k dist in \<open>auto simp: remove1_append\<close>)
  then show ?thesis by (rule that [OF k run refl])
qed

section \<open>Alignment\<close>

lemma ALIGN_spec:
  assumes k: "k < 32" and x: "x \<le> a" and a: "2 ^ k dvd unat a"
  shows "x \<le> ALIGN x (2 ^ k)" "ALIGN x (2 ^ k) \<le> a" "2 ^ k dvd unat (ALIGN x (2 ^ k))"
proof -
  have p: "(2::nat) ^ k \<le> 2 ^ 31" using k by (intro power_increasing) auto
  have m: "unat (mask k :: u32) = 2 ^ k - 1" 
  proof -
    have "unat (- 1 AND mask k :: u32) = (2 ^ 32 - 1) mod 2 ^ k" unfolding unat_and_mask by (simp add: unsigned_minus_1_eq_mask mask_eq_exp_minus_1)
    moreover have "(2 ^ 32 - 1 :: nat) mod 2 ^ k = 2 ^ k - 1"
      using mask_mod_exp [of 32 k, where 'a = nat] k by (simp add: min_def mask_eq_exp_minus_1)
    ultimately show ?thesis by simp
  qed
  obtain q where q: "unat a = 2 ^ k * q" using a by auto
  have lt: "unat a < 2 ^ 32" using unsigned_less [of a, where 'a = nat] by simp
  have e: "(2::nat) ^ 32 = 2 ^ k * 2 ^ (32 - k)" using k by (simp flip: power_add)
  have "2 ^ k * q < 2 ^ k * 2 ^ (32 - k)" using q lt unfolding e by simp
  then have "q < 2 ^ (32 - k)" by simp
  then have "2 ^ k * q + 2 ^ k \<le> 2 ^ k * (2::nat) ^ (32 - k)" by (metis Suc_leI add.commute mult_Suc_right mult_le_mono2)
  then have top: "unat a + 2 ^ k \<le> 2 ^ 32" unfolding q e .
  have xa: "unat x \<le> unat a" using x by (simp add: word_le_nat_alt)
  have y: "unat (x + mask k) = unat x + (2 ^ k - 1)"
    using top xa m by (subst unat_add_lem [THEN iffD1]) auto
  define n where "n = unat x + (2 ^ k - 1)"
  have al: "unat (ALIGN x (2 ^ k)) = n - n mod 2 ^ k"
    unfolding ALIGN_def mask_eq_exp_minus_1 [symmetric] unat_and_not_mask y n_def ..
  have d: "n - n mod 2 ^ k = n div 2 ^ k * 2 ^ k" by (simp add: minus_mod_eq_div_mult)
  show "2 ^ k dvd unat (ALIGN x (2 ^ k))" using al d by simp
  have "n mod 2 ^ k < 2 ^ k" by simp
  then have "unat x \<le> n - n mod 2 ^ k" using n_def by linarith
  then show "x \<le> ALIGN x (2 ^ k)" using al by (simp add: word_le_nat_alt)
  have "n < Suc q * 2 ^ k" 
  proof -
    have "0 < (2::nat) ^ k" "Suc q * 2 ^ k = 2 ^ k * q + 2 ^ k" by simp_all
    then show ?thesis using xa q n_def by linarith
  qed
  then have "n div 2 ^ k < Suc q" by (rule less_mult_imp_div_less)
  then have "n div 2 ^ k \<le> q" by simp
  then show "ALIGN x (2 ^ k) \<le> a" using al d q by (simp add: word_le_nat_alt mult.commute)
qed

lemma ALIGN_aligned: "2 ^ k dvd unat (ALIGN x (2 ^ k))"
  by (simp add: ALIGN_def mask_eq_exp_minus_1 [symmetric] unat_and_not_mask minus_mod_eq_div_mult)

section \<open>Allocations\<close>

text \<open>An alignment callback moves the bounds of the resource it is given and changes nothing else.\<close>

definition align_ok :: "addr \<Rightarrow> alignfn \<Rightarrow> bool" where
  "align_ok new alignf \<longleftrightarrow> (\<forall>f. alignf = Some f \<longrightarrow> (\<forall>d s a h n. h new = Some n \<longrightarrow>
     (\<exists>st en. f d new s a h = h(new \<mapsto> n\<lparr>r_start := st, r_end := en\<rparr>))))"

definition moved :: "addr \<Rightarrow> rheap \<Rightarrow> rheap \<Rightarrow> bool" where
  "moved new h h' \<longleftrightarrow> (\<exists>n st en. h new = Some n \<and> h' = h(new \<mapsto> n\<lparr>r_start := st, r_end := en\<rparr>))"

lemma moved_refl: "h new \<noteq> None \<Longrightarrow> moved new h h"
proof -
  assume "h new \<noteq> None"
  then obtain n where n: "h new = Some n" by blast
  have "n\<lparr>r_start := r_start n, r_end := r_end n\<rparr> = n" by simp
  then show ?thesis using n unfolding moved_def by (metis fun_upd_triv)
qed

lemma moved_trans: "moved new h h' \<Longrightarrow> moved new h' h'' \<Longrightarrow> moved new h h''"
proof -
  assume "moved new h h'" "moved new h' h''"
  then obtain n st en st' en' where "h new = Some n" "h' = h(new \<mapsto> n\<lparr>r_start := st, r_end := en\<rparr>)"
    "h'' = h'(new \<mapsto> n\<lparr>r_start := st, r_end := en\<rparr>\<lparr>r_start := st', r_end := en'\<rparr>)" by (auto simp: moved_def)
  then show ?thesis unfolding moved_def by (intro exI [of _ n] exI [of _ st'] exI [of _ en']) simp
qed

lemma moved_start: "h new = Some n \<Longrightarrow> moved new h (h(new \<mapsto> n\<lparr>r_start := st\<rparr>))"
  unfolding moved_def by (intro exI [of _ n] exI [of _ st] exI [of _ "r_end n"]) simp

lemma moved_end: "h new = Some n \<Longrightarrow> moved new h (h(new \<mapsto> n\<lparr>r_end := en\<rparr>))"
  unfolding moved_def by (intro exI [of _ n] exI [of _ "r_start n"] exI [of _ en]) simp

lemma moved_some: "moved new h h' \<Longrightarrow> \<exists>n'. h' new = Some n' \<and> rn_child n' = rn_child (nd h new) \<and> r_flags n' = r_flags (nd h new)"
  by (auto simp: moved_def nd_def)

lemma moved_other: "moved new h h' \<Longrightarrow> x \<noteq> new \<Longrightarrow> h' x = h x"
  by (auto simp: moved_def)

lemma moved_nd: "moved new h h' \<Longrightarrow> x \<noteq> new \<Longrightarrow> nd h' x = nd h x"
  by (simp add: nd_def moved_other)

lemma moved_seg: "moved new h h' \<Longrightarrow> new \<notin> set xs \<Longrightarrow> seg h' p xs q = seg h p xs q"
  by (rule seg_cong) (metis moved_other)

lemma clip_align_none:
  "h new = Some n \<Longrightarrow> clip_align new fin sz mn mx align None data h =
     Some (h(new \<mapsto> n\<lparr>r_start := ALIGN (max (r_start n) mn) align, r_end := min fin mx\<rparr>))"
  by (auto simp: clip_align_def Let_def max_def min_def not_less not_le intro: arg_cong2 [of _ _ _ _ fun_upd])

lemma clip_align_result:
  assumes "h new \<noteq> None" "align_ok new alignf"
  shows "\<exists>h'. clip_align new fin sz mn mx align alignf data h = Some h' \<and> moved new h h' \<and>
    (alignf = None \<longrightarrow> (\<exists>x. r_start (nd h' new) = ALIGN x align))"
proof -
  obtain n where n: "h new = Some n" using assms(1) by blast
  show ?thesis
  proof (cases alignf)
    case None
    then show ?thesis using clip_align_none [where h = h and new = new, OF n] n by (auto simp: moved_def nd_def)
  next
    case (Some f)
    obtain h1 where h1: "clip_align new fin sz mn mx align None data h = Some h1" "moved new h h1"
      using clip_align_none [where h = h and new = new, OF n] n by (auto simp: moved_def)
    then have "clip_align new fin sz mn mx align alignf data h = Some (f data new sz align h1)"
      using n Some by (simp add: clip_align_def Let_def)
    moreover have "moved new h1 (f data new sz align h1)"
      using assms(2) Some moved_some [OF h1(2)] unfolding align_ok_def moved_def by metis
    ultimately show ?thesis using h1(2) moved_trans Some by blast
  qed
qed

lemma find_loop_result:
  assumes "seg h this ys 0" "h root \<noteq> None" "h new \<noteq> None" "new \<notin> set ys" "new \<noteq> root" "align_ok new alignf"
  shows "\<exists>err h'. find_loop root new sz mn mx align alignf data this h = Some (err, h') \<and> moved new h h' \<and>
    (err = 0 \<and> r_end (nd h' new) = r_start (nd h' new) + sz - 1 \<and> (alignf = None \<longrightarrow> (\<exists>x. r_start (nd h' new) = ALIGN x align)) \<or>
     err = - EBUSY)"
  using assms
proof (induction ys arbitrary: this h)
  case Nil
  then have [simp]: "this = 0" by simp
  obtain r where r: "h root = Some r" using Nil.prems by blast
  obtain h1 where h1: "clip_align new (r_end r) sz mn mx align alignf data h = Some h1" "moved new h h1"
    "alignf = None \<longrightarrow> (\<exists>x. r_start (nd h1 new) = ALIGN x align)"
    using clip_align_result Nil.prems by blast
  obtain n where n: "h1 new = Some n" using moved_some [OF h1(2)] by blast
  show ?case
    using r h1 n moved_trans [OF h1(2) moved_end [where h = h1 and new = new, OF n]] by (subst find_loop.simps) (simp add: nd_def)
next
  case (Cons y ys)
  then obtain t where t: "h y = Some t" "seg h (rn_sibling t) ys 0" "this = y" "y \<noteq> 0" "y \<noteq> new"
    by (auto split: option.splits)
  obtain h1 where h1: "clip_align new (r_start t - 1) sz mn mx align alignf data h = Some h1" "moved new h h1"
    "alignf = None \<longrightarrow> (\<exists>x. r_start (nd h1 new) = ALIGN x align)"
    using clip_align_result Cons.prems by blast
  obtain n where n: "h1 new = Some n" using moved_some [OF h1(2)] by blast
  have y: "h1 y = Some t" using moved_other [OF h1(2)] t by simp
  show ?case
  proof (cases "r_start n < r_end n \<and> sz - 1 \<le> r_end n - r_start n")
    case True
    then show ?thesis
      using t h1 n y moved_trans [OF h1(2) moved_end [where h = h1 and new = new, OF n]] by (subst find_loop.simps) (simp add: nd_def)
  next
    case False
    let ?h = "h1(new \<mapsto> n\<lparr>r_start := r_end t + 1\<rparr>)"
    have m: "moved new h ?h" using moved_trans [OF h1(2) moved_start [where h = h1 and new = new, OF n]] .
    have sg: "seg ?h (rn_sibling t) ys 0" using moved_seg [OF m] t(2) Cons.prems(4) by simp
    have rn: "?h root \<noteq> None" "?h new \<noteq> None" "new \<notin> set ys" using moved_other [OF m] Cons.prems(2,4,5) by auto
    obtain err h' where h': "find_loop root new sz mn mx align alignf data (rn_sibling t) ?h = Some (err, h')"
      "moved new ?h h'" "err = 0 \<and> r_end (nd h' new) = r_start (nd h' new) + sz - 1 \<and> (alignf = None \<longrightarrow> (\<exists>x. r_start (nd h' new) = ALIGN x align)) \<or>
     err = - EBUSY"
      using Cons.IH [OF sg rn Cons.prems(5,6)] by blast
    have "find_loop root new sz mn mx align alignf data this h = Some (err, h')"
      using t h1(1) n y False h'(1) by (subst find_loop.simps) auto
    then show ?thesis using moved_trans [OF m h'(2)] h'(3) by blast
  qed
qed

lemma update_start: "h new = Some n \<Longrightarrow> update_node new (\<lambda>n. n\<lparr>r_start := st\<rparr>) h = Some (h(new \<mapsto> n\<lparr>r_start := st\<rparr>))"
  by (simp add: update_node_def)

lemma find_resource_result:
  assumes "level h root ys" "h new \<noteq> None" "new \<notin> set ys" "new \<noteq> root" "align_ok new alignf"
  shows "\<exists>err h'. find_resource root new sz mn mx align alignf data h = Some (err, h') \<and> moved new h h' \<and>
    (err = 0 \<and> r_end (nd h' new) = r_start (nd h' new) + sz - 1 \<and> (alignf = None \<longrightarrow> (\<exists>x. r_start (nd h' new) = ALIGN x align)) \<or>
     err = - EBUSY)"
proof -
  obtain r n where r: "h root = Some r" "seg h (rn_child r) ys 0" and n: "h new = Some n"
    using assms(1,2) by (auto simp: level_def nd_def)
  have run: ?thesis if e: "\<And>data. find_resource root new sz mn mx align alignf data h =
      find_loop root new sz mn mx align alignf data p h1"
      and sg: "seg h p xs 0" and sub: "set xs \<subseteq> set ys" and m: "moved new h h1" for p xs h1
  proof -
    have "seg h1 p xs 0" "h1 root \<noteq> None" "h1 new \<noteq> None"
      using sg sub moved_seg [OF m, of xs] assms(3,4) r(1) moved_other [OF m] moved_some [OF m] by auto
    then obtain err h' where "find_loop root new sz mn mx align alignf data p h1 = Some (err, h')" "moved new h1 h'"
      "err = 0 \<and> r_end (nd h' new) = r_start (nd h' new) + sz - 1 \<and> (alignf = None \<longrightarrow> (\<exists>x. r_start (nd h' new) = ALIGN x align)) \<or>
     err = - EBUSY"
      using find_loop_result [of h1 p xs root new alignf] assms(3-5) sub by blast
    then show ?thesis using e moved_trans [OF m] by auto
  qed
  let ?h = "h(new \<mapsto> n\<lparr>r_start := r_start r\<rparr>)"
  show ?thesis
  proof (cases ys)
    case Nil
    then show ?thesis
      using run [of "rn_child r" ?h "[]"] r n moved_start [where h = h and new = new, OF n] by (simp add: find_resource_def update_start [where h = h and new = new, OF n])
  next
    case (Cons y zs)
    then obtain t where t: "h y = Some t" "rn_child r = y" "y \<noteq> 0" "seg h (rn_sibling t) zs 0" "y \<noteq> new"
      using r(2) assms(3) by (auto split: option.splits)
    show ?thesis
    proof (cases "r_start t = 0")
      case True
      then show ?thesis
        using run [of "rn_sibling t" "?h(new \<mapsto> n\<lparr>r_start := r_end t + 1\<rparr>)" zs] r n t Cons moved_start [where h = h and new = new and st = "r_end t + 1", OF n]
        by (auto simp: find_resource_def update_node_def)
    next
      case False
      then show ?thesis
        using run [of y ?h ys] r n t Cons moved_start [where h = h and new = new, OF n] by (simp add: find_resource_def update_start [where h = h and new = new, OF n])
    qed
  qed
qed

lemma res_tree_moved: "res_tree h R kids \<Longrightarrow> moved new h h' \<Longrightarrow> new \<notin> R \<Longrightarrow> res_tree h' R kids"
  by (rule res_tree_agree [of h]) (auto simp: moved_def)

lemma allocate_resource_result:
  assumes t: "res_tree h R kids" and root: "root \<in> R" and new: "new \<notin> R" "new \<noteq> 0" "h new \<noteq> None" "rn_child (nd h new) = 0"
    and al: "align_ok new alignf"
  obtains (fail) h' where "allocate_resource root new sz mn mx align alignf data h = Some (- EBUSY, h')" "moved new h h'" "res_tree h' R kids"
  | (ok) h1 h' where "find_resource root new sz mn mx align alignf data h = Some (0, h1)" "moved new h h1"
      "allocate_resource root new sz mn mx align alignf data h = Some (0, h')"
      "r_end (nd h1 new) = r_start (nd h1 new) + sz - 1" "alignf = None \<longrightarrow> (\<exists>x. r_start (nd h1 new) = ALIGN x align)" "inside h1 new root" "\<forall>x \<in> set (kids root). \<not> overlaps h1 x new"
      "h' = linked_at root new (before h1 (r_start (nd h1 new)) (kids root)) (rest h1 (r_start (nd h1 new)) (kids root)) h1"
      "res_tree h' (insert new R) (kids(root := placed h1 new (kids root), new := []))"
proof -
  have "new \<notin> set (kids root)" "new \<noteq> root" using t root new(1) by (auto simp: res_tree_def)
  then obtain err h1 where h1: "find_resource root new sz mn mx align alignf data h = Some (err, h1)" "moved new h h1"
    "err = 0 \<and> r_end (nd h1 new) = r_start (nd h1 new) + sz - 1 \<and> (alignf = None \<longrightarrow> (\<exists>x. r_start (nd h1 new) = ALIGN x align)) \<or>
     err = - EBUSY"
    using find_resource_result [OF res_tree_level [OF t root] new(3) _ _ al] by blast
  have t1: "res_tree h1 R kids" using res_tree_moved [OF t h1(2) new(1)] .
  from h1(3) show ?thesis
  proof
    assume "err = - EBUSY"
    then show ?thesis using h1 t1 by (intro fail [of h1]) (simp_all add: allocate_resource_def)
  next
    assume e: "err = 0 \<and> r_end (nd h1 new) = r_start (nd h1 new) + sz - 1 \<and> (alignf = None \<longrightarrow> (\<exists>x. r_start (nd h1 new) = ALIGN x align))"
    have n1: "h1 new \<noteq> None" "rn_child (nd h1 new) = 0" using moved_some [OF h1(2)] new(4) by (auto simp: nd_def)
    have root0: "root \<noteq> 0" using t root by (auto simp: res_tree_def)
    show ?thesis
    proof (rule request_inner_cases [OF t1 root new(1,2) n1])
      assume "request_resource_inner root new h1 = Some (root, h1)"
      then show ?thesis using h1 e t1 root0 by (intro fail [of h1]) (simp_all add: allocate_resource_def)
    next
      fix c assume "request_resource_inner root new h1 = Some (c, h1)" "c \<in> set (kids root)"
      then show ?thesis
        using h1 e t1 res_tree_kid(4) [OF t1 root] by (intro fail [of h1]) (auto simp: allocate_resource_def)
    next
      fix h' assume "request_resource_inner root new h1 = Some (0, h')" "inside h1 new root" "\<forall>x \<in> set (kids root). \<not> overlaps h1 x new"
        "h' = linked_at root new (before h1 (r_start (nd h1 new)) (kids root)) (rest h1 (r_start (nd h1 new)) (kids root)) h1"
        "res_tree h' (insert new R) (kids(root := placed h1 new (kids root), new := []))"
      then show ?thesis using h1 e by (intro ok [of h1 h']) (simp_all add: allocate_resource_def)
    qed
  qed
qed

text \<open>A free slot is found.  The first three lemmas are the arithmetic of the test for a gap.\<close>

lemma gap_fits: "st \<le> a \<Longrightarrow> a \<le> a + l \<Longrightarrow> a + l \<le> en \<Longrightarrow> l \<le> en - st" for st a l en :: u32
  by uint_arith

lemma gap_end: "st \<le> en \<Longrightarrow> l \<le> en - st \<Longrightarrow> st \<le> st + l \<and> st + l \<le> en" for st l en :: u32
  by uint_arith

lemma gap_next: "x < a \<Longrightarrow> x + 1 \<le> a" "x < a \<Longrightarrow> x + 1 \<le> y \<Longrightarrow> x < y" for x a y :: u32
  by uint_arith+

lemma gap_before: "x \<noteq> 0 \<Longrightarrow> b < x \<Longrightarrow> b \<le> x - 1" "x \<noteq> 0 \<Longrightarrow> b \<le> x - 1 \<Longrightarrow> b < x" for x b :: u32
  by uint_arith+

text \<open>
  \<open>free_slot\<close>: from \<open>a\<close> on there are \<open>sz\<close> units, more than one, at an aligned address between \<open>mn\<close> and \<open>mx\<close>
  and inside the root, which no resource of \<open>ys\<close> overlaps.
\<close>

definition free_slot :: "rheap \<Rightarrow> addr \<Rightarrow> addr list \<Rightarrow> u32 \<Rightarrow> u32 \<Rightarrow> u32 \<Rightarrow> nat \<Rightarrow> u32 \<Rightarrow> bool" where
  "free_slot h root ys sz mn mx k a \<longleftrightarrow> 2 ^ k dvd unat a \<and> mn \<le> a \<and> a < a + (sz - 1) \<and> a + (sz - 1) \<le> mx \<and>
     r_start (nd h root) \<le> a \<and> a + (sz - 1) \<le> r_end (nd h root) \<and>
     (\<forall>y \<in> set ys. a + (sz - 1) < r_start (nd h y) \<or> r_end (nd h y) < a)"

text \<open>One round: with the gap up to \<open>fin\<close>, a slot in the gap is found, and what is found lies in the gap.\<close>

lemma clip_slot:
  assumes n: "h new = Some n" and k: "k < 32" and a: "2 ^ k dvd unat a" "mn \<le> a" "r_start n \<le> a" "a < a + (sz - 1)" "a + (sz - 1) \<le> mx"
  obtains m where "clip_align new fin sz mn mx (2 ^ k) None data h = Some (h(new \<mapsto> m))"
    "moved new h (h(new \<mapsto> m))" "r_start n \<le> r_start m" "r_start m \<le> a" "r_end m \<le> fin"
    "a + (sz - 1) \<le> fin \<Longrightarrow> r_start m < r_end m \<and> sz - 1 \<le> r_end m - r_start m"
proof -
  let ?m = "n\<lparr>r_start := ALIGN (max (r_start n) mn) (2 ^ k), r_end := min fin mx\<rparr>"
  have al: "max (r_start n) mn \<le> ALIGN (max (r_start n) mn) (2 ^ k)" "ALIGN (max (r_start n) mn) (2 ^ k) \<le> a"
    using ALIGN_spec(1,2) [OF k _ a(1), of "max (r_start n) mn"] a(2,3) by auto
  show ?thesis
  proof (rule that [of ?m])
    show "clip_align new fin sz mn mx (2 ^ k) None data h = Some (h(new \<mapsto> ?m))"
      by (rule clip_align_none) (rule n)
    show "moved new h (h(new \<mapsto> ?m))" using n by (auto simp: moved_def)
    show "r_start n \<le> r_start ?m" "r_start ?m \<le> a" "r_end ?m \<le> fin" using al by auto
    assume f: "a + (sz - 1) \<le> fin"
    then have "a + (sz - 1) \<le> r_end ?m" using a(5) by simp
    moreover from this have "sz - 1 \<le> r_end ?m - r_start ?m" using gap_fits [of _ a "sz - 1"] al(2) a(4) by simp
    moreover have "r_start ?m \<le> a" using al by simp
    ultimately show "r_start ?m < r_end ?m \<and> sz - 1 \<le> r_end ?m - r_start ?m"
      using a(4) by (meson order.strict_trans1 order.strict_trans2)
  qed
qed

lemma find_loop_slot:
  assumes "seg h this ys 0" "h root \<noteq> None" "h new = Some n" "new \<notin> set ys" "new \<noteq> root" and k: "k < 32"
    and "sorted_wrt (\<lambda>x y. r_end (nd h x) < r_start (nd h y)) ys" "\<forall>y \<in> set ys. r_start (nd h y) \<le> r_end (nd h y) \<and> r_start (nd h y) \<noteq> 0 \<and>
       r_end (nd h y) \<le> r_end (nd h root) \<and> r_start n \<le> r_start (nd h y)"
    and "free_slot h root ys sz mn mx k a" "r_start n \<le> a"
  shows "\<exists>h'. find_loop root new sz mn mx (2 ^ k) None data this h = Some (0, h') \<and> moved new h h' \<and>
    r_start n \<le> r_start (nd h' new) \<and> r_start (nd h' new) \<le> r_end (nd h' new) \<and> r_end (nd h' new) \<le> r_end (nd h root) \<and>
    (\<forall>y \<in> set ys. r_end (nd h' new) < r_start (nd h y) \<or> r_end (nd h y) < r_start (nd h' new))"
  using assms
proof (induction ys arbitrary: this h n)
  case Nil
  note sl = \<open>free_slot h root [] sz mn mx k a\<close>
  have [simp]: "this = 0" using Nil.prems(1) by simp
  obtain r where r: "h root = Some r" using Nil.prems(2) by blast
  obtain m where m: "clip_align new (r_end r) sz mn mx (2 ^ k) None data h = Some (h(new \<mapsto> m))" "moved new h (h(new \<mapsto> m))"
    "r_start n \<le> r_start m" "r_end m \<le> r_end r" "r_start m < r_end m \<and> sz - 1 \<le> r_end m - r_start m"
    by (rule clip_slot [where h = h and new = new and fin = "r_end r" and data = data, OF Nil.prems(3) k, of a mn sz mx])
      (use sl Nil.prems(10) r in \<open>auto simp: free_slot_def nd_def\<close>)
  define h' where "h' = h(new \<mapsto> m\<lparr>r_end := r_start m + sz - 1\<rparr>)"
  have nd': "nd h' new = m\<lparr>r_end := r_start m + sz - 1\<rparr>" by (simp add: h'_def nd_def)
  have "find_loop root new sz mn mx (2 ^ k) None data this h = Some (0, h')"
    using r m(1,5) by (subst find_loop.simps) (simp add: h'_def)
  moreover have "moved new h h'" unfolding h'_def
    using moved_trans [OF m(2) moved_end [where h = "h(new \<mapsto> m)" and new = new and n = m]] by simp
  moreover have "r_start m \<le> r_start m + (sz - 1) \<and> r_start m + (sz - 1) \<le> r_end m"
    using m(5) by (intro gap_end) auto
  then have "r_start m \<le> r_start m + sz - 1" "r_start m + sz - 1 \<le> r_end r" using m(4) by (auto simp: add_diff_eq)
  ultimately show ?case using m(3) r nd' by (intro exI [of _ h']) (simp add: nd_def [of h])
next
  case (Cons y ys)
  note sl = \<open>free_slot h root (y # ys) sz mn mx k a\<close>
  obtain t where t: "h y = Some t" "seg h (rn_sibling t) ys 0" "this = y" "y \<noteq> 0" "y \<noteq> new"
    using Cons.prems(1,4) by (auto split: option.splits)
  have ty: "r_start t \<le> r_end t" "r_start t \<noteq> 0" "r_end t \<le> r_end (nd h root)" "r_start n \<le> r_start t" "\<forall>z \<in> set ys. r_end t < r_start (nd h z)"
    using Cons.prems(7,8) t(1) by (auto simp: nd_def)
  have rt: "h root = Some (nd h root)" using Cons.prems(2) by (simp add: nd_def)
  obtain m where m: "clip_align new (r_start t - 1) sz mn mx (2 ^ k) None data h = Some (h(new \<mapsto> m))" "moved new h (h(new \<mapsto> m))"
    "r_start n \<le> r_start m" "r_end m \<le> r_start t - 1" "a + (sz - 1) \<le> r_start t - 1 \<Longrightarrow> r_start m < r_end m \<and> sz - 1 \<le> r_end m - r_start m"
    by (rule clip_slot [where h = h and new = new and fin = "r_start t - 1" and data = data, OF Cons.prems(3) k, of a mn sz mx])
      (use sl Cons.prems(10) in \<open>auto simp: free_slot_def\<close>)
  show ?case
  proof (cases "r_start m < r_end m \<and> sz - 1 \<le> r_end m - r_start m")
    case True
    define h' where "h' = h(new \<mapsto> m\<lparr>r_end := r_start m + sz - 1\<rparr>)"
    have nd': "nd h' new = m\<lparr>r_end := r_start m + sz - 1\<rparr>" by (simp add: h'_def nd_def)
    have "find_loop root new sz mn mx (2 ^ k) None data this h = Some (0, h')"
      using t m(1) True by (subst find_loop.simps) (simp add: h'_def)
    moreover have "moved new h h'" unfolding h'_def
      using moved_trans [OF m(2) moved_end [where h = "h(new \<mapsto> m)" and new = new and n = m]] by simp
    moreover have "r_start m \<le> r_start m + (sz - 1) \<and> r_start m + (sz - 1) \<le> r_end m"
      using True by (intro gap_end) auto
    then have e: "r_start m \<le> r_start m + sz - 1" "r_start m + sz - 1 \<le> r_start t - 1" using m(4) by (auto simp: add_diff_eq)
    then have "r_start m + sz - 1 < r_start t" using gap_before(2) ty(2) by blast
    moreover from this have "r_start m + sz - 1 < r_start (nd h z)" if "z \<in> set ys" for z
      using ty(1,5) that by (meson order.strict_trans order.strict_trans2)
    moreover have "r_start m + sz - 1 \<le> r_end (nd h root)"
      using calculation(3) ty(1,3) by (meson order.strict_implies_order order_trans)
    ultimately show ?thesis using m(3) e t(1) nd' by (intro exI [of _ h']) (auto simp: nd_def [of h])
  next
    case False
    then have "\<not> a + (sz - 1) < r_start t" using m(5) gap_before(1) ty(2) by blast
    then have ta: "r_end t < a" using sl t(1) by (auto simp: free_slot_def nd_def)
    define h2 where "h2 = h(new \<mapsto> m\<lparr>r_start := r_end t + 1\<rparr>)"
    have mv: "moved new h h2" unfolding h2_def
      using moved_trans [OF m(2) moved_start [where h = "h(new \<mapsto> m)" and new = new and n = m]] by simp
    have nd: "nd h2 root = nd h root" "\<And>z. z \<in> set ys \<Longrightarrow> nd h2 z = nd h z"
      using Cons.prems(4,5) by (auto simp: nd_def h2_def)
    have h2: "h2 root \<noteq> None" "h2 new = Some (m\<lparr>r_start := r_end t + 1\<rparr>)" "new \<notin> set ys" "r_start (m\<lparr>r_start := r_end t + 1\<rparr>) \<le> a"
      using Cons.prems(2,4,5) gap_next(1) [OF ta] by (auto simp: h2_def)
    have sg: "seg h2 (rn_sibling t) ys 0" using moved_seg [OF mv] t(2) Cons.prems(4) by simp
    have slot: "free_slot h2 root ys sz mn mx k a" using sl nd by (simp add: free_slot_def)
    have sorted: "sorted_wrt (\<lambda>x y. r_end (nd h2 x) < r_start (nd h2 y)) ys"
      by (rule sorted_wrt_mono_rel [of _ "\<lambda>x y. r_end (nd h x) < r_start (nd h y)"]) (use Cons.prems(7) nd in auto)
    have ok: "\<forall>z \<in> set ys. r_start (nd h2 z) \<le> r_end (nd h2 z) \<and> r_start (nd h2 z) \<noteq> 0 \<and>
       r_end (nd h2 z) \<le> r_end (nd h2 root) \<and> r_end t + 1 \<le> r_start (nd h2 z)"
      using Cons.prems(8) nd ty(5) gap_next(1) by auto
    obtain h' where h': "find_loop root new sz mn mx (2 ^ k) None data (rn_sibling t) h2 = Some (0, h')" "moved new h2 h'"
      "r_end t + 1 \<le> r_start (nd h' new)" "r_start (nd h' new) \<le> r_end (nd h' new)" "r_end (nd h' new) \<le> r_end (nd h2 root)"
      "\<forall>z \<in> set ys. r_end (nd h' new) < r_start (nd h2 z) \<or> r_end (nd h2 z) < r_start (nd h' new)"
      using Cons.IH [OF sg h2(1-3) Cons.prems(5) k sorted _ slot h2(4)] ok by auto
    have "r_end t < r_start (nd h' new)" using gap_next(2) [OF ta h'(3)] .
    moreover from this have "r_start n \<le> r_start (nd h' new)" using ty(1,4) by (meson order.strict_implies_order order_trans)
    moreover have "find_loop root new sz mn mx (2 ^ k) None data this h = Some (0, h')"
      using t m(1) False h'(1) by (subst find_loop.simps) (auto simp: h2_def)
    ultimately show ?thesis using h' nd t moved_trans [OF mv h'(2)] by (intro exI [of _ h']) (auto simp: nd_def)
  qed
qed

lemma find_loop_gap:
  assumes l: "level h root ys" and k: "k < 32" and sl: "free_slot h root ys sz mn mx k a"
    and new: "new \<notin> set ys" "new \<noteq> root" and m: "moved new h h1" and n: "h1 new = Some n" "r_start n \<le> a"
    and zs: "ys = xs @ zs" "seg h p zs 0" "\<forall>z \<in> set zs. r_start (nd h z) \<noteq> 0 \<and> r_start n \<le> r_start (nd h z)"
    and xs: "\<forall>x \<in> set xs. r_end (nd h x) < r_start n" and r: "r_start (nd h root) \<le> r_start n"
  shows "\<exists>h'. find_loop root new sz mn mx (2 ^ k) None data p h1 = Some (0, h') \<and> moved new h h' \<and>
    inside h' new root \<and> (\<forall>y \<in> set ys. \<not> overlaps h' y new)"
proof -
  have nd: "nd h1 root = nd h root" "\<And>z. z \<in> set ys \<Longrightarrow> nd h1 z = nd h z"
    using moved_nd [OF m] new by metis+
  have "seg h1 p zs 0" using moved_seg [OF m] zs(1,2) new(1) by simp
  moreover have "h1 root \<noteq> None" using moved_other [OF m] new(2) l by (auto simp: level_def)
  moreover have "sorted_wrt (\<lambda>x y. r_end (nd h x) < r_start (nd h y)) zs" using l zs(1) by (simp add: level_def sorted_wrt_append)
  then have "sorted_wrt (\<lambda>x y. r_end (nd h1 x) < r_start (nd h1 y)) zs"
    by (rule sorted_wrt_mono_rel [rotated]) (use zs(1) nd(2) in auto)
  moreover have "\<forall>y \<in> set zs. r_start (nd h1 y) \<le> r_end (nd h1 y) \<and> r_start (nd h1 y) \<noteq> 0 \<and>
       r_end (nd h1 y) \<le> r_end (nd h1 root) \<and> r_start n \<le> r_start (nd h1 y)"
    using l zs nd by (auto simp: level_def child_ok_def)
  moreover have "free_slot h1 root zs sz mn mx k a" using sl zs(1) nd by (auto simp: free_slot_def)
  ultimately obtain h' where h': "find_loop root new sz mn mx (2 ^ k) None data p h1 = Some (0, h')" "moved new h1 h'"
    "r_start n \<le> r_start (nd h' new)" "r_start (nd h' new) \<le> r_end (nd h' new)" "r_end (nd h' new) \<le> r_end (nd h1 root)"
    "\<forall>y \<in> set zs. r_end (nd h' new) < r_start (nd h1 y) \<or> r_end (nd h1 y) < r_start (nd h' new)"
    using find_loop_slot [of h1 p zs root new n k sz mn mx a data] n zs(1) new k by auto
  have mv: "moved new h h'" using moved_trans [OF m h'(2)] .
  have nd': "nd h' root = nd h root" "\<And>z. z \<in> set ys \<Longrightarrow> nd h' z = nd h z"
    using moved_nd [OF mv] new by metis+
  have "inside h' new root" using h'(3-5) nd nd' r by (auto simp: inside_def)
  moreover have "\<not> overlaps h' y new" if "y \<in> set ys" for y
  proof (cases "y \<in> set xs")
    case True
    then show ?thesis using xs h'(3) nd'(2) [OF that] by (auto simp: overlaps_def dest: order.strict_trans2)
  next
    case False
    then show ?thesis using that h'(6) nd(2) [OF that] nd'(2) [OF that] zs(1) by (auto simp: overlaps_def)
  qed
  ultimately show ?thesis using h'(1) mv by blast
qed

lemma find_resource_slot:
  assumes l: "level h root ys" and k: "k < 32" and sl: "free_slot h root ys sz mn mx k a"
    and new: "new \<notin> set ys" "new \<noteq> root" "h new \<noteq> None"
  shows "\<exists>h'. find_resource root new sz mn mx (2 ^ k) None data h = Some (0, h') \<and> moved new h h' \<and>
    inside h' new root \<and> (\<forall>y \<in> set ys. \<not> overlaps h' y new)"
proof -
  obtain r n where r: "h root = Some r" "seg h (rn_child r) ys 0" and n: "h new = Some n"
    using l new(3) by (auto simp: level_def nd_def)
  have nr: "nd h root = r" using r by (simp add: nd_def)
  define h1 where "h1 = h(new \<mapsto> n\<lparr>r_start := r_start r\<rparr>)"
  have h1: "moved new h h1" "h1 new = Some (n\<lparr>r_start := r_start r\<rparr>)"
    unfolding h1_def using moved_start [where h = h and new = new, OF n] by auto
  have up: "update_node new (\<lambda>n. n\<lparr>r_start := r_start r\<rparr>) h = Some h1" using n by (simp add: update_node_def h1_def)
  have ra: "r_start r \<le> a" using sl nr by (simp add: free_slot_def)
  have rz: "r_start r \<le> r_start (nd h z)" if "z \<in> set ys" for z using l nr that by (auto simp: level_def child_ok_def)
  note gap = find_loop_gap [OF l k sl new(1,2)]
  show ?thesis
  proof (cases "ys = [] \<or> r_start (nd h (hd ys)) \<noteq> 0")
    case True
    have "\<forall>z \<in> set ys. r_start (nd h z) \<noteq> 0"
      using True l by (cases ys) (auto simp: level_def)
    moreover have "find_resource root new sz mn mx (2 ^ k) None data h = find_loop root new sz mn mx (2 ^ k) None data (rn_child r) h1"
    proof (cases ys)
      case (Cons y zs)
      then obtain t where "h y = Some t" "rn_child r = y" "y \<noteq> 0" using r(2) by (auto split: option.splits)
      moreover from this have "h1 y = Some t" using Cons new(1) by (auto simp: h1_def)
      ultimately show ?thesis using True r up Cons by (simp add: find_resource_def nd_def)
    qed (use r up in \<open>simp add: find_resource_def\<close>)
    ultimately show ?thesis
      using gap [OF h1, of "[]" ys "rn_child r" data] ra rz r(2) nr by simp
  next
    case False
    then obtain y zs where y: "ys = y # zs" "r_start (nd h y) = 0" by (cases ys) auto
    then obtain t where t: "h y = Some t" "rn_child r = y" "y \<noteq> 0" "seg h (rn_sibling t) zs 0" "y \<noteq> new"
      using r(2) new(1) by (auto split: option.splits)
    have ty: "nd h y = t" using t(1) by (simp add: nd_def)
    define h2 where "h2 = h(new \<mapsto> n\<lparr>r_start := r_end t + 1\<rparr>)"
    have h2: "moved new h h2" "h2 new = Some (n\<lparr>r_start := r_end t + 1\<rparr>)"
      unfolding h2_def using moved_start [where h = h and new = new, OF n] by auto
    have "h1 y = Some t" "update_node new (\<lambda>n. n\<lparr>r_start := r_end t + 1\<rparr>) h1 = Some h2"
      using t by (simp_all add: h1_def h2_def update_node_def)
    then have run: "find_resource root new sz mn mx (2 ^ k) None data h = find_loop root new sz mn mx (2 ^ k) None data (rn_sibling t) h2"
      using r up t y ty by (simp add: find_resource_def)
    have ta: "r_end t < a" using sl y ty by (auto simp: free_slot_def)
    have z: "r_end t < r_start (nd h z)" if "z \<in> set zs" for z using l y that ty by (auto simp: level_def)
    have "r_end t < r_end t + 1" using gap_next(2) [OF ta] by auto
    moreover from this have "r_start r \<le> r_end t + 1"
      using rz [of y] y ty l by (auto simp: level_def child_ok_def intro: order_trans order.strict_implies_order)
    moreover have "r_start (nd h z) \<noteq> 0 \<and> r_end t + 1 \<le> r_start (nd h z)" if "z \<in> set zs" for z
      using z [OF that] gap_next(1) by auto
    ultimately show ?thesis
      using gap [OF h2, of "[y]" zs "rn_sibling t" data] y t ty nr gap_next(1) [OF ta] run by auto
  qed
qed

lemma allocate_finds_slot:
  assumes t: "res_tree h R kids" and root: "root \<in> R" and new: "new \<notin> R" "new \<noteq> 0" "h new \<noteq> None" "rn_child (nd h new) = 0"
    and k: "k < 32" and sl: "free_slot h root (kids root) sz mn mx k a"
  shows "\<exists>h'. allocate_resource root new sz mn mx (2 ^ k) None data h = Some (0, h')"
proof -
  have ne: "new \<notin> set (kids root)" "new \<noteq> root" using t root new(1) by (auto simp: res_tree_def)
  obtain h1 where f: "find_resource root new sz mn mx (2 ^ k) None data h = Some (0, h1)" "moved new h h1"
      "inside h1 new root" "\<forall>y \<in> set (kids root). \<not> overlaps h1 y new"
    using find_resource_slot [OF res_tree_level [OF t root] k sl ne new(3)] by blast
  have "h1 new \<noteq> None" "rn_child (nd h1 new) = 0" using moved_some [OF f(2)] new(4) by (auto simp: nd_def)
  from res_tree_moved [OF t f(2) new(1)] root new(1,2) this show ?thesis
  proof (cases rule: request_inner_cases)
    case (ok h2)
    then show ?thesis using f(1) by (simp add: allocate_resource_def)
  qed (use f in auto)
qed

section \<open>Properties\<close>

text \<open>A root with one child, and a third resource that is not part of the tree.\<close>

definition tree_example :: rheap where
  "tree_example = [1 \<mapsto> \<lparr>r_start = 0, r_end = 0xFFFF, r_flags = 0x100, rn_parent = 0, rn_sibling = 0, rn_child = 2\<rparr>,
     2 \<mapsto> \<lparr>r_start = 0x100, r_end = 0x1FF, r_flags = 0x100, rn_parent = 1, rn_sibling = 0, rn_child = 0\<rparr>,
     3 \<mapsto> \<lparr>r_start = 0x200, r_end = 0x20F, r_flags = 0x100, rn_parent = 0, rn_sibling = 0, rn_child = 0\<rparr>]"

definition tree_kids :: "addr \<Rightarrow> addr list" where
  "tree_kids = (\<lambda>_. [])(1 := [2])"

lemma tree_example_ok: "res_tree tree_example {1, 2} tree_kids" "tree_example 3 \<noteq> None" "rn_child (nd tree_example 3) = 0"
proof -
  have "ranked {1, 2} tree_kids" unfolding ranked_def tree_kids_def
    by (rule exI [of _ "\<lambda>x. if x = 1 then 1 else 0"]) auto
  then show "res_tree tree_example {1, 2} tree_kids"
    by (simp add: res_tree_def level_def child_ok_def tree_example_def tree_kids_def nd_def)
qed (simp_all add: tree_example_def nd_def)



lemma unlink_link:
  assumes "seg h (rn_child (nd h r)) (as @ bs) 0" "h r \<noteq> None" "new \<noteq> r" "new \<notin> set (as @ bs)" "x \<noteq> new"
  shows "unlinked_at r as bs (linked_at r new as bs h) x = h x"
proof (cases "as = []")
  case True
  then have "rn_child (nd h r) = hd0 bs" using seg_start [of h _ bs] assms(1) by (simp add: hd0_def)
  then show ?thesis using True assms by (auto simp: unlinked_at_def linked_at_def nd_def)
next
  case False
  then obtain xs l where as: "as = xs @ [l]" by (metis append_butlast_last_id)
  have "\<exists>n. h l = Some n \<and> rn_sibling n = hd0 bs" using seg_next [of h "rn_child (nd h r)" xs l bs] assms(1) as by simp
  then show ?thesis using as assms(4,5) by (auto simp: unlinked_at_def linked_at_def nd_def)
qed





end
