(* ===== verification/Resource_Insert.thy ===== *)
theory Resource_Insert
  imports Resource_Tree
begin

text \<open>
  The operations of \<open>kernel/resource.c\<close> that walk down the tree: \<open>insert_resource\<close>, which puts a resource above
  others, and \<open>adjust_resource\<close>, which changes the range of one.  Each is shown to end and to leave a
  well-formed tree behind.
\<close>

section \<open>The steps of an insertion\<close>

definition covered :: "rheap \<Rightarrow> addr \<Rightarrow> addr \<Rightarrow> bool" where
  "covered h new x \<longleftrightarrow> r_start (nd h new) \<le> r_start (nd h x) \<and> r_end (nd h x) \<le> r_end (nd h new)"

text \<open>The siblings from \<open>x\<close> on that do not start behind the new resource.\<close>

definition reach :: "rheap \<Rightarrow> addr \<Rightarrow> addr list \<Rightarrow> addr list" where
  "reach h new xs = takeWhile (\<lambda>y. r_start (nd h y) \<le> r_end (nd h new)) xs"

lemma insert_span_eq:
  assumes "seg h x (x # xs) 0" "h new \<noteq> None"
  shows "insert_span new h x =
    Some (if \<forall>y \<in> set (x # reach h new xs). covered h new y then last (x # reach h new xs) else 0)"
  using assms
proof (induction xs arbitrary: x)
  case Nil
  then obtain t n where "h x = Some t" "rn_sibling t = 0" "h new = Some n" by (auto split: option.splits)
  then show ?case by (subst insert_span.simps) (auto simp: reach_def covered_def nd_def)
next
  case (Cons y ys)
  then obtain t u n where t: "h x = Some t" "rn_sibling t = y" "h y = Some u" "y \<noteq> 0" "seg h y (y # ys) 0" "h new = Some n"
    by (auto split: option.splits)
  have nd: "nd h x = t" "nd h y = u" "nd h new = n" using t by (simp_all add: nd_def)
  have IH: "insert_span new h y =
    Some (if \<forall>z \<in> set (y # reach h new ys). covered h new z then last (y # reach h new ys) else 0)"
    using Cons.IH [OF t(5) Cons.prems(2)] .
  show ?case
  proof (cases "covered h new x")
    case cov: True
    then have c: "\<not> r_start t < r_start n" "\<not> r_end n < r_end t" using nd by (auto simp: covered_def)
    show ?thesis
    proof (cases "r_start u \<le> r_end n")
      case True
      then have "insert_span new h x = insert_span new h y" using c t by (subst insert_span.simps) auto
      moreover have "reach h new (y # ys) = y # reach h new ys" using True nd by (simp add: reach_def)
      ultimately show ?thesis using IH cov by simp
    next
      case False
      then have "insert_span new h x = Some x" using c t by (subst insert_span.simps) auto
      moreover have "reach h new (y # ys) = []" using False nd by (simp add: reach_def)
      ultimately show ?thesis using cov by simp
    qed
  next
    case False
    then have "insert_span new h x = Some 0" using t nd by (subst insert_span.simps) (auto simp: covered_def)
    then show ?thesis using False by simp
  qed
qed

lemma reparent_eq:
  assumes "seg h x mid 0" "distinct mid"
  shows "reparent new x h = Some (\<lambda>y. if y \<in> set mid then Some ((nd h y)\<lparr>rn_parent := new\<rparr>) else h y)"
  using assms
proof (induction mid arbitrary: x h)
  case Nil
  then show ?case by (subst reparent.simps) simp
next
  case (Cons y mid)
  then obtain t where t: "h y = Some t" "x = y" "y \<noteq> 0" "seg h (rn_sibling t) mid 0" "y \<notin> set mid" "distinct mid"
    by (auto split: option.splits)
  let ?h = "h(y \<mapsto> t\<lparr>rn_parent := new\<rparr>)"
  have "seg ?h (rn_sibling t) mid 0 = seg h (rn_sibling t) mid 0" by (rule seg_cong) (use t(5) in auto)
  then have "reparent new (rn_sibling t) ?h = Some (\<lambda>z. if z \<in> set mid then Some ((nd ?h z)\<lparr>rn_parent := new\<rparr>) else ?h z)"
    using Cons.IH t by simp
  moreover have "(\<lambda>z. if z \<in> set mid then Some ((nd ?h z)\<lparr>rn_parent := new\<rparr>) else ?h z)
      = (\<lambda>z. if z \<in> set (y # mid) then Some ((nd h z)\<lparr>rn_parent := new\<rparr>) else h z)"
    using t(1,5) by (auto simp: fun_eq_iff nd_def)
  ultimately show ?case using t by (subst reparent.simps) simp
qed

lemma find_prev_eq:
  assumes "seg h p (as @ [l]) f" "f \<notin> set (as @ [l])"
  shows "find_prev f h p = Some l"
  using assms
proof (induction as arbitrary: p)
  case Nil
  then show ?case by (subst find_prev.simps) (auto split: option.splits)
next
  case (Cons a as)
  then obtain t where t: "h a = Some t" "p = a" "seg h (rn_sibling t) (as @ [l]) f" by (auto split: option.splits)
  then have "rn_sibling t \<noteq> f" using Cons.prems(2) by (cases as) auto
  then show ?case using Cons t by (subst find_prev.simps) auto
qed

section \<open>Adoption\<close>

definition adopted :: "addr \<Rightarrow> addr list \<Rightarrow> rheap \<Rightarrow> rheap" where
  "adopted new mid h = (\<lambda>y. if y = new then Some ((nd h new)\<lparr>rn_child := hd mid\<rparr>)
     else if y \<in> set mid then Some ((nd h y)\<lparr>rn_parent := new, rn_sibling := (if y = last mid then 0 else rn_sibling (nd h y))\<rparr>)
     else h y)"

lemma adopted_fields [simp]:
  "r_start (nd (adopted new mid h) x) = r_start (nd h x)"
  "r_end (nd (adopted new mid h) x) = r_end (nd h x)"
  "r_flags (nd (adopted new mid h) x) = r_flags (nd h x)"
  by (auto simp: adopted_def nd_def)

lemma seg_adopted_other: "set xs \<inter> insert new (set mid) = {} \<Longrightarrow> seg (adopted new mid h) p xs q = seg h p xs q"
  by (rule seg_cong) (auto simp: adopted_def)

lemma seg_adopted_mid:
  assumes "seg h (hd mid) mid q" "distinct mid" "mid \<noteq> []" "new \<notin> set mid"
  shows "seg (adopted new mid h) (hd mid) mid 0"
proof -
  obtain xs l where m: "mid = xs @ [l]" using assms(3) by (metis append_butlast_last_id)
  have "\<exists>n. h x = Some n" if "x \<in> set xs" for x using seg_nonzero [OF assms(1), of x] that m by auto
  then have "map_option rn_sibling (adopted new mid h x) = map_option rn_sibling (h x)" if "x \<in> set xs" for x
    using m assms(2,4) that by (fastforce simp: adopted_def nd_def)
  then have "seg (adopted new mid h) p xs r = seg h p xs r" for p r by (rule seg_cong)
  moreover have "rn_sibling (nd (adopted new mid h) l) = 0" "adopted new mid h l \<noteq> None"
    using m assms(4) by (auto simp: adopted_def nd_def)
  ultimately show ?thesis using assms(1) m by (auto simp: seg_append nd_def)
qed

lemma level_segs:
  assumes "level h p (as @ mid @ bs)" "mid \<noteq> []"
  shows "seg h (rn_child (nd h p)) as (hd mid)" "seg h (hd mid) mid (hd0 bs)" "seg h (hd0 bs) bs 0"
    "rn_child (nd h p) = (if as = [] then hd mid else hd as)"
proof -
  have s: "seg h (rn_child (nd h p)) (as @ mid @ bs) 0" using assms(1) by (simp add: level_def)
  have h: "hd0 (mid @ bs) = hd mid" using assms(2) by (cases mid) (auto simp: hd0_def)
  show "seg h (rn_child (nd h p)) as (hd mid)" using seg_split(1) [OF s] h by simp
  have m: "seg h (hd mid) (mid @ bs) 0" using seg_split(2) [OF s] h by simp
  show "seg h (hd mid) mid (hd0 bs)" "seg h (hd0 bs) bs 0" using seg_split [OF m] by auto
  show "rn_child (nd h p) = (if as = [] then hd mid else hd as)" using s assms(2) by (cases as; cases mid) auto
qed

lemma adopt_eq:
  assumes l: "level h p (as @ mid @ bs)" and mid: "mid \<noteq> []" and p: "p \<notin> set (as @ mid @ bs)"
    and new: "new \<notin> set (as @ mid @ bs)" "new \<noteq> p" "h new \<noteq> None"
  shows "adopt p new (hd mid) (last mid) h = Some (linked_at p new as bs (adopted new mid h))"
proof -
  note sg = level_segs [OF l mid]
  have dist: "distinct (as @ mid @ bs)" using level_distinct [OF l] .
  obtain xs z where m: "mid = xs @ [z]" using mid by (metis append_butlast_last_id)
  have dom: "h x = Some (nd h x)" if "x \<in> set (as @ mid @ bs) \<or> x = p \<or> x = new" for x
    using that l new(3) by (auto simp: level_def child_ok_def nd_def)
  have z: "h z = Some (nd h z)" "rn_sibling (nd h z) = hd0 bs"
    using dom [of z] seg_next [of h "rn_child (nd h p)" "as @ xs" z bs] l m by (auto simp: level_def)
  have zn: "z \<noteq> new" "z \<noteq> p" "hd mid \<noteq> new" using new(1) p m mid by (auto simp: hd_append)
  define h1 where "h1 = h(new \<mapsto> (nd h new)\<lparr>rn_parent := p, rn_sibling := hd0 bs, rn_child := hd mid\<rparr>)"
  define h2 where "h2 = h1(z \<mapsto> (nd h z)\<lparr>rn_sibling := 0\<rparr>)"
  define h3 where "h3 = (\<lambda>y. if y \<in> set mid then Some ((nd h2 y)\<lparr>rn_parent := new\<rparr>) else h2 y)"
  have "seg h2 q xs r = seg h q xs r" for q r
    by (rule seg_cong) (use dist new(1) m in \<open>auto simp: h2_def h1_def\<close>)
  then have "seg h2 (hd mid) mid 0" using sg(2) m zn(1) by (auto simp: seg_append h2_def split: option.splits)
  then have r: "reparent new (hd mid) h2 = Some h3" using dist unfolding h3_def by (intro reparent_eq) auto
  have h3p: "h3 p = Some (nd h p)" using p new(2) zn dom [of p] by (auto simp: h3_def h2_def h1_def)
  have u: "update_node new (\<lambda>n. n\<lparr>rn_parent := p, rn_sibling := hd0 bs, rn_child := hd mid\<rparr>) h = Some h1"
      "update_node z (\<lambda>n. n\<lparr>rn_sibling := 0\<rparr>) h1 = Some h2"
    using dom [of new] z(1) zn(1) by (simp_all add: update_node_def h1_def h2_def)
  have run: "adopt p new (hd mid) (last mid) h = (if as = [] then assign (Child p) new h3
      else do { prev \<leftarrow> find_prev (hd mid) h3 (hd as); assign (Sibling prev) new h3 })"
  proof -
    have "as \<noteq> [] \<Longrightarrow> hd as \<noteq> hd mid" using dist mid by (cases as; cases mid) auto
    then show ?thesis using z u r h3p sg(4) m by (simp add: adopt_def)
  qed
  have h3: "h3 y = (if y = new then Some ((nd h new)\<lparr>rn_parent := p, rn_sibling := hd0 bs, rn_child := hd mid\<rparr>)
      else adopted new mid h y)" for y
  proof (cases "y \<in> set mid")
    case True
    then have "y \<noteq> new" using new(1) by auto
    moreover from this have "nd h2 y = (if y = z then (nd h z)\<lparr>rn_sibling := 0\<rparr> else nd h y)"
      by (simp add: h2_def h1_def nd_def)
    ultimately show ?thesis using True m by (simp add: h3_def adopted_def)
  next
    case False
    then show ?thesis using m by (auto simp: h3_def h2_def h1_def adopted_def)
  qed
  have own: "(if as = [] then p else last as) \<noteq> new" "(if as = [] then p else last as) \<notin> set mid"
    using new(1,2) p dist by (cases as rule: rev_cases; auto)+
  then have A: "nd (adopted new mid h) (if as = [] then p else last as) = nd h (if as = [] then p else last as)"
    by (simp add: adopted_def nd_def)
  have N: "nd (adopted new mid h) new = (nd h new)\<lparr>rn_child := hd mid\<rparr>" by (simp add: adopted_def nd_def)
  have fin: "h3((if as = [] then p else last as) \<mapsto> (if as = [] then (nd h p)\<lparr>rn_child := new\<rparr> else (nd h (last as))\<lparr>rn_sibling := new\<rparr>))
      = linked_at p new as bs (adopted new mid h)"
    using own A N by (auto simp: linked_at_def h3 fun_eq_iff split: if_splits)
  show ?thesis
  proof (cases "as = []")
    case True
    then show ?thesis using run fin h3p by simp
  next
    case False
    then obtain ys a where as: "as = ys @ [a]" by (metis append_butlast_last_id)
    have "map_option rn_sibling (h3 x) = map_option rn_sibling (h x)" if "x \<in> set as" for x
      using that dist new(1) m by (auto simp: h3_def h2_def h1_def)
    then have "seg h3 (hd as) as (hd mid) = seg h (hd as) as (hd mid)" by (rule seg_cong)
    then have "seg h3 (hd as) as (hd mid)" using sg(1,4) False by simp
    moreover have "hd mid \<notin> set as" using dist mid by (cases mid) auto
    ultimately have "find_prev (hd mid) h3 (hd as) = Some a" using as by (intro find_prev_eq [of _ _ ys]) auto
    moreover have "h3 a = Some (nd h a)" using dom [of a] as own False by (auto simp: h3 adopted_def)
    ultimately show ?thesis using run fin False as by simp
  qed
qed

lemma ranked_adopt:
  assumes "ranked R kids" "p \<in> R" "new \<notin> R" "kids p = as @ mid @ bs" "mid \<noteq> []" "\<forall>r \<in> R. set (kids r) \<subseteq> R"
  shows "ranked (insert new R) (kids(p := as @ new # bs, new := mid))"
proof -
  obtain d :: "addr \<Rightarrow> nat" where d: "\<And>r x. r \<in> R \<Longrightarrow> x \<in> set (kids r) \<Longrightarrow> d x < d r" using assms(1) by (auto simp: ranked_def)
  define e where "e = (\<lambda>x. 2 * d x)(new := 2 * d p - 1)"
  have p: "d x < d p" if "x \<in> set (as @ mid @ bs)" for x using d [of p x] assms(2,4) that by simp
  have "0 < d p" using p [of "hd mid"] assms(5) by auto
  have n: "x \<noteq> new" if "r \<in> R" "x \<in> set (kids r)" for r x using that assms(3,6) by auto
  have pn: "p \<noteq> new" using assms(2,3) by auto
  have "e x < e r" if rx: "r \<in> insert new R" "x \<in> set ((kids(p := as @ new # bs, new := mid)) r)" for r x
  proof -
    consider "r = new" | "r = p" "r \<noteq> new" | "r \<noteq> p" "r \<noteq> new" "r \<in> R" using rx(1) by blast
    then show ?thesis
    proof cases
      case 1
      then have "x \<in> set mid" using rx(2) by simp
      then show ?thesis using 1 p [of x] n [of p x] assms(2,4) by (auto simp: e_def)
    next
      case 2
      then have "x = new \<or> x \<in> set (as @ mid @ bs)" using rx(2) by auto
      then show ?thesis using 2 p [of x] \<open>0 < d p\<close> by (auto simp: e_def)
    next
      case 3
      then have "x \<in> set (kids r)" using rx(2) by simp
      then show ?thesis using 3 d [of r x] n [of r x] by (simp add: e_def)
    qed
  qed
  then show ?thesis unfolding ranked_def by blast
qed

lemma res_tree_adopt:
  assumes t: "res_tree h R kids" and p: "p \<in> R" and k: "kids p = as @ mid @ bs" and mid: "mid \<noteq> []"
    and new: "new \<notin> R" "new \<noteq> 0" "h new \<noteq> None" and ins: "inside h new p" and cov: "\<forall>x \<in> set mid. covered h new x"
    and ab: "\<forall>a \<in> set as. r_end (nd h a) < r_start (nd h new)" "\<forall>b \<in> set bs. r_end (nd h new) < r_start (nd h b)"
  shows "res_tree (linked_at p new as bs (adopted new mid h)) (insert new R) (kids(p := as @ new # bs, new := mid))"
proof -
  let ?A = "adopted new mid h" and ?kids = "kids(p := as @ new # bs, new := mid)"
  let ?h = "linked_at p new as bs ?A"
  have l: "level h p (as @ mid @ bs)" using res_tree_level [OF t p] k by simp
  have dist: "distinct (as @ mid @ bs)" using level_distinct [OF l] .
  note sg = level_segs [OF l mid]
  have sub: "set (kids r) \<subseteq> R" if "r \<in> R" for r using t that by (simp add: res_tree_def)
  have ne: "new \<noteq> p" "new \<notin> set as" "new \<notin> set mid" "new \<notin> set bs" using p new(1) sub [OF p] k by auto
  have pk: "p \<notin> set (as @ mid @ bs)" using res_tree_kid(2) [OF t p] k by auto
  have own: "(if as = [] then p else last as) \<notin> set mid" "(if as = [] then p else last as) \<noteq> new"
    using ne pk dist by (cases as rule: rev_cases; auto)+
  have Adom: "?A x \<noteq> None" if "h x \<noteq> None" for x using that by (simp add: adopted_def)
  have dom: "?h x \<noteq> None" if "h x \<noteq> None" for x using that Adom [of x] by (simp add: linked_at_def)
  have par: "rn_parent (nd ?h x) = (if x = new then p else if x \<in> set mid then new else rn_parent (nd h x))" for x
    using linked_at_parent [of new p as bs ?A x] ne by (auto simp: adopted_def nd_def)
  have lp: "level ?h p (as @ new # bs)"
  proof -
    have "nd ?A p = nd h p" using ne(1) pk by (simp add: adopted_def nd_def)
    moreover have "seg ?A q as r = seg h q as r" "seg ?A q bs r = seg h q bs r" for q r
      using ne dist by (auto intro!: seg_adopted_other)
    ultimately have "seg ?h (rn_child (nd ?h p)) (as @ new # bs) 0"
      using sg(1,3) dist pk ne new(2) by (intro seg_linked [where m = "hd mid"]) auto
    moreover have "child_ok ?h p x" if "x \<in> set (as @ new # bs)" for x
      using that l ins new(3) dom [of x] dist ne par [of x] by (auto simp: child_ok_def level_def inside_def)
    moreover have "sorted_wrt (\<lambda>x y. r_end (nd ?h x) < r_start (nd ?h y)) (as @ new # bs)"
      using l ab by (auto simp: level_def sorted_wrt_append)
    ultimately show ?thesis using dom [of p] l by (simp add: level_def)
  qed
  have ln: "level ?h new mid"
  proof -
    have "seg ?h (hd mid) mid 0 = seg ?A (hd mid) mid 0"
      by (rule seg_cong) (use own ne in \<open>auto simp: linked_at_def\<close>)
    moreover have "seg ?A (hd mid) mid 0" using sg(2) dist mid ne(3) by (intro seg_adopted_mid) auto
    moreover have "rn_child (nd ?h new) = hd mid" using own(2) by (auto simp: linked_at_def adopted_def nd_def)
    moreover have "child_ok ?h new x" if "x \<in> set mid" for x
      using that l cov dom [of x] ne par [of x] by (auto simp: child_ok_def level_def covered_def)
    moreover have "sorted_wrt (\<lambda>x y. r_end (nd ?h x) < r_start (nd ?h y)) mid"
      using l by (auto simp: level_def sorted_wrt_append)
    ultimately show ?thesis using dom [OF new(3)] by (simp add: level_def)
  qed
  have lo: "level ?h r (kids r)" if r: "r \<in> R" "r \<noteq> p" for r
  proof (rule level_frame [OF res_tree_level [OF t r(1)]])
    have rn: "r \<noteq> new" using r(1) new(1) by auto
    obtain n where hr: "h r = Some n" using res_tree_level [OF t r(1)] by (auto simp: level_def)
    show "map_option (\<lambda>n. (rn_child n, r_start n, r_end n)) (?h r) = map_option (\<lambda>n. (rn_child n, r_start n, r_end n)) (h r)"
      using rn r(2) hr own(1) by (auto simp: linked_at_def adopted_def nd_def)
    fix x assume x: "x \<in> set (kids r)"
    have "x \<notin> set (kids p)" using res_tree_kid(3) [OF t r(1) x] res_tree_kid(3) [OF t p] r(2) by auto
    moreover have "x \<noteq> new" using x sub [OF r(1)] new(1) by auto
    moreover obtain m where "h x = Some m" using res_tree_kid(5) [OF t r(1) x] by (auto simp: child_ok_def)
    ultimately show "map_option (\<lambda>n. (rn_sibling n, rn_parent n, r_start n, r_end n)) (?h x)
        = map_option (\<lambda>n. (rn_sibling n, rn_parent n, r_start n, r_end n)) (h x)"
      using k by (cases as rule: rev_cases) (auto simp: linked_at_def adopted_def nd_def)
  qed
  have "level ?h r (?kids r)" if "r \<in> insert new R" for r
    using that lp ln lo ne(1) by auto
  moreover have "set (?kids r) \<subseteq> insert new R" if "r \<in> insert new R" for r
    using that sub [OF p] sub [of r] k by (auto split: if_splits)
  moreover have "ranked (insert new R) ?kids"
    using t p new(1) k mid by (intro ranked_adopt) (auto simp: res_tree_def)
  ultimately show ?thesis using t new(2) by (simp add: res_tree_def)
qed

section \<open>The descent\<close>

definition fresh_node :: "rheap \<Rightarrow> addr set \<Rightarrow> addr \<Rightarrow> bool" where
  "fresh_node h R new \<longleftrightarrow> new \<notin> R \<and> new \<noteq> 0 \<and> h new \<noteq> None \<and> rn_child (nd h new) = 0"

text \<open>Where the descent ends: the resource is linked as a leaf, refused, or to be put above others.\<close>

definition descended :: "rheap \<Rightarrow> addr set \<Rightarrow> (addr \<Rightarrow> addr list) \<Rightarrow> addr \<Rightarrow> (int + addr \<times> addr) \<Rightarrow> rheap \<Rightarrow> bool" where
  "descended h R kids new out h' \<longleftrightarrow> (case out of
     Inl r \<Rightarrow> r = 0 \<and> (\<exists>p \<in> R. inside h new p \<and> res_tree h' (insert new R) (kids(p := placed h new (kids p), new := []))) \<or>
       r = - EBUSY \<and> h' = h
   | Inr (p, f) \<Rightarrow> h' = h \<and> p \<in> R \<and> inside h new p \<and> (\<exists>cs. rest h (r_start (nd h new)) (kids p) = f # cs))"

lemma insert_descend_result:
  assumes t: "res_tree h R kids" and "root \<in> R" and new: "fresh_node h R new"
  shows "\<exists>out h'. insert_descend root new h = Some (out, h') \<and> descended h R kids new out h'"
proof -
  obtain d :: "addr \<Rightarrow> nat" where d: "\<And>r x. r \<in> R \<Longrightarrow> x \<in> set (kids r) \<Longrightarrow> d x < d r"
    using t unfolding res_tree_def ranked_def by blast
  obtain n where n: "h new = Some n" using new by (auto simp: fresh_node_def)
  show ?thesis
    using assms(2)
  proof (induction "d root" arbitrary: root rule: less_induct)
    case less
    note root = less.prems
    have fn: "new \<notin> R" "new \<noteq> 0" "h new \<noteq> None" "rn_child (nd h new) = 0" using new by (auto simp: fresh_node_def)
    from t root fn show ?case
    proof (cases rule: request_inner_cases)
      case outside
      moreover have "root \<noteq> 0" using t root by (auto simp: res_tree_def)
      ultimately show ?thesis by (subst insert_descend.simps) (simp add: descended_def)
    next
      case (conflict c)
      have c: "c \<in> R" "c \<noteq> root" "c \<noteq> 0" using res_tree_kid [OF t root conflict(3)] by auto
      obtain f where f: "h c = Some f" using res_tree_kid(5) [OF t root conflict(3)] by (auto simp: child_ok_def)
      show ?thesis
      proof (cases "(r_start n < r_start f \<or> r_end f < r_end n) \<or> (r_start f = r_start n \<and> r_end f = r_end n)")
        case True
        then have "insert_descend root new h = Some (Inr (root, c), h)"
          using conflict(1) c f n by (subst insert_descend.simps) auto
        then show ?thesis using conflict root by (auto simp: descended_def)
      next
        case False
        then have "insert_descend root new h = insert_descend c new h"
          using conflict(1) c f n by (subst insert_descend.simps) auto
        then show ?thesis using less.hyps [OF d [OF root conflict(3)] c(1)] by simp
      qed
    next
      case (ok h')
      then have "insert_descend root new h = Some (Inl 0, h')" by (subst insert_descend.simps) simp
      then show ?thesis using ok root by (auto simp: descended_def)
    qed
  qed
qed

section \<open>Insertion\<close>

text \<open>\<open>tree_insert\<close>: the new resource is a child of \<open>p\<close> in place of the children \<open>mid\<close> of \<open>p\<close>, which are now its own.\<close>

definition tree_insert :: "(addr \<Rightarrow> addr list) \<Rightarrow> addr \<Rightarrow> addr list \<Rightarrow> addr \<Rightarrow> addr list \<Rightarrow> addr list \<Rightarrow> (addr \<Rightarrow> addr list)" where
  "tree_insert kids p as new mid bs = kids(p := as @ new # bs, new := mid)"

lemma insert_above:
  assumes t: "res_tree h R kids" and p: "p \<in> R" and new: "fresh_node h R new" and ins: "inside h new p"
    and f: "rest h (r_start (nd h new)) (kids p) = f # cs"
  obtains (partial) "insert_span new h f = Some 0"
  | (above) as mid bs h' where "insert_span new h f = Some (last mid)" "last mid \<noteq> 0" "adopt p new f (last mid) h = Some h'"
      "kids p = as @ mid @ bs" "\<forall>x \<in> set mid. covered h new x" "res_tree h' (insert new R) (tree_insert kids p as new mid bs)"
proof -
  let ?as = "before h (r_start (nd h new)) (kids p)" and ?mid = "f # reach h new cs"
  let ?bs = "dropWhile (\<lambda>y. r_start (nd h y) \<le> r_end (nd h new)) cs"
  have fn: "new \<notin> R" "new \<noteq> 0" "h new \<noteq> None" using new by (auto simp: fresh_node_def)
  have k: "kids p = ?as @ ?mid @ ?bs" using before_rest [of h "r_start (nd h new)" "kids p"] f by (simp add: reach_def)
  have l: "level h p (?as @ ?mid @ ?bs)" using res_tree_level [OF t p] k by simp
  have sg: "seg h f (f # cs) 0"
    using level_segs [of h p ?as "f # cs" "[]"] res_tree_level [OF t p] k by (simp add: hd0_def reach_def)
  have sub: "set (kids p) \<subseteq> R" using t p by (simp add: res_tree_def)
  have ne: "new \<notin> set (?as @ ?mid @ ?bs)" "new \<noteq> p" "p \<notin> set (?as @ ?mid @ ?bs)"
    using sub k fn(1) p res_tree_kid(2) [OF t p] by auto
  note span = insert_span_eq [OF sg fn(3)]
  show ?thesis
  proof (cases "\<forall>y \<in> set ?mid. covered h new y")
    case True
    have "last ?mid \<in> set (kids p)" using k last_in_set [of ?mid] by (metis Un_iff list.discI set_append)
    then have z: "last ?mid \<noteq> 0" using res_tree_kid(4) [OF t p] by blast
    have ad: "adopt p new f (last ?mid) h = Some (linked_at p new ?as ?bs (adopted new ?mid h))"
      using adopt_eq [OF l _ ne(3,1,2) fn(3)] by simp
    have "\<forall>a \<in> set ?as. r_end (nd h a) < r_start (nd h new)" by (auto simp: before_def dest: set_takeWhileD)
    moreover have "\<forall>b \<in> set ?bs. r_end (nd h new) < r_start (nd h b)"
    proof (cases ?bs)
      case (Cons b bs)
      then have b: "r_end (nd h new) < r_start (nd h b)" using hd_dropWhile [of "\<lambda>y. r_start (nd h y) \<le> r_end (nd h new)" cs] by auto
      have "sorted_wrt (\<lambda>x y. r_end (nd h x) < r_start (nd h y)) (b # bs)" "child_ok h p b"
        using l Cons by (auto simp: level_def sorted_wrt_append)
      then show ?thesis using Cons b by (auto simp: child_ok_def intro: order.strict_trans order.strict_trans2)
    next
      case Nil
      then show ?thesis unfolding Nil by simp
    qed
    ultimately have "res_tree (linked_at p new ?as ?bs (adopted new ?mid h)) (insert new R) (tree_insert kids p ?as new ?mid ?bs)"
      unfolding tree_insert_def using res_tree_adopt [OF t p k _ fn ins True] by simp
    then show ?thesis using span True z ad k by (intro above [of ?mid _ ?as ?bs]) auto
  next
    case False
    then show ?thesis using span by (intro partial) auto
  qed
qed

lemma insert_resource_result:
  assumes t: "res_tree h R kids" and root: "root \<in> R" and new: "fresh_node h R new"
  shows "\<exists>err h'. insert_resource root new h = Some (err, h') \<and>
    (err = 0 \<and> (\<exists>p \<in> R. \<exists>as mid bs. kids p = as @ mid @ bs \<and> inside h new p \<and> (\<forall>x \<in> set mid. covered h new x) \<and>
       res_tree h' (insert new R) (tree_insert kids p as new mid bs)) \<or>
     err = - EBUSY \<and> h' = h)"
proof -
  obtain out h1 where o: "insert_descend root new h = Some (out, h1)" "descended h R kids new out h1"
    using insert_descend_result [OF assms] by blast
  show ?thesis
  proof (cases out)
    case (Inl r)
    then consider p where "r = 0" "p \<in> R" "inside h new p" "res_tree h1 (insert new R) (kids(p := placed h new (kids p), new := []))"
      | "r = - EBUSY" "h1 = h" using o(2) by (auto simp: descended_def)
    then show ?thesis
    proof cases
      case (1 p)
      have "kids p = before h (r_start (nd h new)) (kids p) @ [] @ rest h (r_start (nd h new)) (kids p)" by simp
      moreover have "insert_resource root new h = Some (0, h1)" using 1(1) o(1) Inl by (simp add: insert_resource_def)
      moreover have "res_tree h1 (insert new R) (tree_insert kids p (before h (r_start (nd h new)) (kids p)) new []
          (rest h (r_start (nd h new)) (kids p)))" using 1(4) by (simp add: tree_insert_def placed_def)
      ultimately show ?thesis using 1(2,3) by (metis empty_iff list.set(1))
    next
      case 2
      then show ?thesis using o(1) Inl by (simp add: insert_resource_def)
    qed
  next
    case (Inr pf)
    then obtain p f cs where p: "pf = (p, f)" "h1 = h" "p \<in> R" "inside h new p" "rest h (r_start (nd h new)) (kids p) = f # cs"
      using o(2) by (cases pf) (auto simp: descended_def)
    from t p(3) new p(4,5) show ?thesis
    proof (cases rule: insert_above)
      case partial
      then show ?thesis using o(1) Inr p by (simp add: insert_resource_def)
    next
      case (above as mid bs h')
      then show ?thesis using o(1) Inr p by (auto simp: insert_resource_def)
    qed
  qed
qed

section \<open>Adjusting\<close>

lemma children_fit_eq:
  "seg h p xs 0 \<Longrightarrow> children_fit start fin h p = Some (\<forall>y \<in> set xs. start \<le> r_start (nd h y) \<and> r_end (nd h y) \<le> fin)"
proof (induction xs arbitrary: p)
  case Nil
  then show ?case by (subst children_fit.simps) simp
next
  case (Cons x xs)
  then obtain t where "h x = Some t" "p = x" "x \<noteq> 0" "seg h (rn_sibling t) xs 0" by (auto split: option.splits)
  then show ?case using Cons.IH [of "rn_sibling t"] by (subst children_fit.simps) (auto simp: nd_def not_less)
qed

text \<open>The range fits between the neighbours and around the children.\<close>

definition adjustable :: "rheap \<Rightarrow> addr \<Rightarrow> addr list \<Rightarrow> addr list \<Rightarrow> addr list \<Rightarrow> u32 \<Rightarrow> u32 \<Rightarrow> bool" where
  "adjustable h r as cs bs start fin \<longleftrightarrow> r_start (nd h r) \<le> start \<and> fin \<le> r_end (nd h r) \<and>
     (\<forall>y \<in> set cs. start \<le> r_start (nd h y) \<and> r_end (nd h y) \<le> fin) \<and>
     (bs \<noteq> [] \<longrightarrow> fin < r_start (nd h (hd bs))) \<and> (as \<noteq> [] \<longrightarrow> r_end (nd h (last as)) < start)"

lemma adjust_resource_eq:
  assumes t: "res_tree h R kids" and r: "r \<in> R" and k: "kids r = as @ x # bs"
  shows "adjust_resource x start sz h = Some (if adjustable h r as (kids x) bs start (start + sz - 1)
    then (0, h(x \<mapsto> (nd h x)\<lparr>r_start := start, r_end := start + sz - 1\<rparr>)) else (- EBUSY, h))"
proof -
  have x: "x \<in> set (kids r)" using k by simp
  have l: "level h r (as @ x # bs)" using res_tree_level [OF t r] k by simp
  have lx: "level h x (kids x)" using res_tree_level [OF t res_tree_kid(1) [OF t r x]] .
  have h: "h x = Some (nd h x)" "h r = Some (nd h r)" "rn_parent (nd h x) = r"
    using res_tree_kid [OF t r x] l by (auto simp: child_ok_def level_def nd_def)
  have sib: "rn_sibling (nd h x) = hd0 bs" using seg_next [of h "rn_child (nd h r)" as x bs] l h(1) by (auto simp: level_def)
  have fit: "children_fit start fin h (rn_child (nd h x)) = Some (\<forall>y \<in> set (kids x). start \<le> r_start (nd h y) \<and> r_end (nd h y) \<le> fin)" for fin
    using lx by (intro children_fit_eq) (simp add: level_def)
  have dom: "h y = Some (nd h y) \<and> y \<noteq> 0" if "y \<in> set (as @ x # bs)" for y
    using that l seg_nonzero [of h "rn_child (nd h r)" "as @ x # bs" 0 y] by (auto simp: level_def nd_def)
  have aft: "(if rn_sibling (nd h x) \<noteq> 0 then map_option (\<lambda>t. r_start t \<le> fin) (h (rn_sibling (nd h x))) else Some False)
      = Some (bs \<noteq> [] \<and> r_start (nd h (hd bs)) \<le> fin)" for fin
    using sib dom [of "hd bs"] by (cases bs) (auto simp: hd0_def)
  have bef: "(if rn_child (nd h r) \<noteq> x then do { prev \<leftarrow> find_prev x h (rn_child (nd h r)); map_option (\<lambda>t. start \<le> r_end t) (h prev) }
      else Some False) = Some (as \<noteq> [] \<and> start \<le> r_end (nd h (last as)))"
  proof (cases as rule: rev_cases)
    case Nil
    then show ?thesis using level_segs(4) [of h r as "[x]" bs] l by simp
  next
    case (snoc ys a)
    have "rn_child (nd h r) \<noteq> x" using level_segs(4) [of h r as "[x]" bs] l level_distinct [OF l] snoc by (cases ys) auto
    moreover have "find_prev x h (rn_child (nd h r)) = Some a"
      using level_segs(1) [of h r as "[x]" bs] l level_distinct [OF l] snoc by (intro find_prev_eq [of _ _ ys]) auto
    ultimately show ?thesis using snoc dom [of a] by simp
  qed
  show ?thesis
    using h fit aft bef unfolding adjust_resource_def adjustable_def
    by (simp add: Let_def not_less not_le flip: not_le)
qed

lemma res_tree_adjust:
  assumes t: "res_tree h R kids" and r: "r \<in> R" and k: "kids r = as @ x # bs"
    and a: "adjustable h r as (kids x) bs start fin" and se: "start \<le> fin"
  shows "res_tree (h(x \<mapsto> (nd h x)\<lparr>r_start := start, r_end := fin\<rparr>)) R kids"
proof -
  let ?h = "h(x \<mapsto> (nd h x)\<lparr>r_start := start, r_end := fin\<rparr>)"
  have x: "x \<in> set (kids r)" using k by simp
  have xr: "x \<in> R" "x \<noteq> r" "rn_parent (nd h x) = r" "h x \<noteq> None" using res_tree_kid [OF t r x] by (auto simp: child_ok_def)
  have l: "level h r (as @ x # bs)" using res_tree_level [OF t r] k by simp
  have dist: "distinct (as @ x # bs)" using level_distinct [OF l] .
  have seg: "seg ?h p xs q = seg h p xs q" for p xs q by (rule seg_cong) (use xr(4) in \<open>auto simp: nd_def\<close>)
  have nd: "nd ?h y = (if y = x then (nd h x)\<lparr>r_start := start, r_end := fin\<rparr> else nd h y)" for y by (simp add: nd_def)
  have so: "sorted_wrt (\<lambda>x y. r_end (nd h x) < r_start (nd h y)) as" "sorted_wrt (\<lambda>x y. r_end (nd h x) < r_start (nd h y)) bs"
      "\<forall>y \<in> set as. \<forall>z \<in> set bs. r_end (nd h y) < r_start (nd h z)"
      "\<forall>y \<in> set as \<union> set bs. r_start (nd h y) \<le> r_end (nd h y)"
    using l by (auto simp: level_def sorted_wrt_append child_ok_def)
  have as: "r_end (nd h y) < start" if "y \<in> set as" for y
    using that so(1,4) a by (cases as rule: rev_cases)
      (auto simp: adjustable_def sorted_wrt_append dest: order.strict_trans2 order.strict_trans)
  have bs: "fin < r_start (nd h y)" if "y \<in> set bs" for y
    using that so(2,4) a by (cases bs) (auto simp: adjustable_def dest: order.strict_trans2 order.strict_trans)
  have lr: "level ?h r (kids r)"
  proof -
    have "child_ok ?h r y" if "y \<in> set (kids r)" for y
      using that l k xr a se by (auto simp: level_def child_ok_def nd adjustable_def)
    moreover have "sorted_wrt (\<lambda>x y. r_end (nd ?h x) < r_start (nd ?h y)) (as @ x # bs)"
    proof -
      have "sorted_wrt (\<lambda>y z. r_end (nd ?h y) < r_start (nd ?h z)) as" "sorted_wrt (\<lambda>y z. r_end (nd ?h y) < r_start (nd ?h z)) bs"
        by (rule sorted_wrt_mono_rel [of _ "\<lambda>y z. r_end (nd h y) < r_start (nd h z)"], use so dist in \<open>auto simp: nd\<close>)+
      then show ?thesis using so(3) as bs dist by (auto simp: sorted_wrt_append nd)
    qed
    ultimately show ?thesis using l k xr(2) by (simp add: level_def seg nd)
  qed
  have lx: "level ?h x (kids x)"
  proof -
    have lx: "level h x (kids x)" using res_tree_level [OF t xr(1)] .
    have nx: "x \<notin> set (kids x)" using res_tree_kid(2) [OF t xr(1)] by blast
    have "child_ok ?h x y" if "y \<in> set (kids x)" for y
      using that lx a nx by (auto simp: level_def child_ok_def nd adjustable_def)
    moreover have "sorted_wrt (\<lambda>y z. r_end (nd ?h y) < r_start (nd ?h z)) (kids x)"
      by (rule sorted_wrt_mono_rel [of _ "\<lambda>y z. r_end (nd h y) < r_start (nd h z)"]) (use lx nx in \<open>auto simp: nd level_def\<close>)
    ultimately show ?thesis using lx by (simp add: level_def seg nd)
  qed
  have lo: "level ?h q (kids q)" if q: "q \<in> R" "q \<noteq> r" "q \<noteq> x" for q
  proof (rule level_frame [OF res_tree_level [OF t q(1)]])
    fix y assume "y \<in> set (kids q)"
    then have "y \<noteq> x" using res_tree_kid(3) [OF t q(1)] xr(3) q(2) by auto
    then show "map_option (\<lambda>n. (rn_sibling n, rn_parent n, r_start n, r_end n)) (?h y)
        = map_option (\<lambda>n. (rn_sibling n, rn_parent n, r_start n, r_end n)) (h y)" by simp
  qed (use q in simp)
  have "level ?h q (kids q)" if "q \<in> R" for q using that lr lx lo by (cases "q = r"; cases "q = x") auto
  then show ?thesis using t by (simp add: res_tree_def)
qed

section \<open>Properties\<close>

lemma insert_at_root:
  assumes "res_tree h R kids" "root \<in> R" "fresh_node h R new" "inside h new root" "\<forall>x \<in> set (kids root). \<not> overlaps h x new"
  shows "\<exists>h'. insert_resource root new h = Some (0, h')"
proof -
  have fn: "new \<notin> R" "new \<noteq> 0" "h new \<noteq> None" "rn_child (nd h new) = 0" using assms(3) by (auto simp: fresh_node_def)
  with assms(1,2) show ?thesis
  proof (cases rule: request_inner_cases)
    case (ok h')
    then show ?thesis by (simp add: insert_resource_def insert_descend.simps [of root])
  qed (use assms(4,5) in auto)
qed


text \<open>The resource 4 covers the child 2 of the example.\<close>

definition cover_example :: rheap where
  "cover_example = tree_example(4 \<mapsto> \<lparr>r_start = 0x80, r_end = 0x2FF, r_flags = 0x100, rn_parent = 0, rn_sibling = 0, rn_child = 0\<rparr>)"

lemma cover_example_ok: "res_tree cover_example {1, 2} tree_kids" "fresh_node cover_example {1, 2} 4"
proof -
  show "res_tree cover_example {1, 2} tree_kids"
    by (rule res_tree_agree [OF tree_example_ok(1)]) (auto simp: cover_example_def)
qed (simp add: fresh_node_def cover_example_def nd_def)

lemmas insert_eval = insert_resource_def request_resource_inner_def request_loop.simps insert_descend.simps insert_span.simps
  adopt_def reparent.simps find_prev.simps link_node_def update_node_def tree_example_def cover_example_def


text \<open>
  \<open>adjust_resource\<close> moves a child to a new range exactly when the range lies inside the parent, still
  contains the child's own children and stays clear of both neighbours; otherwise the result is \<open>-EBUSY\<close> and
  nothing changes.  A new range that is not empty keeps the tree well formed.
\<close>

theorem adjust_resource_keeps_tree:
  assumes "res_tree h R kids" "r \<in> R" "kids r = as @ x # bs"
  shows "\<exists>err h'. adjust_resource x start sz h = Some (err, h') \<and>
    (err = 0 \<longleftrightarrow> adjustable h r as (kids x) bs start (start + sz - 1)) \<and>
    (err = 0 \<or> err = - EBUSY \<and> h' = h) \<and>
    (err = 0 \<longrightarrow> r_start (nd h' x) = start \<and> r_end (nd h' x) = start + sz - 1 \<and> (\<forall>y. y \<noteq> x \<longrightarrow> h' y = h y)) \<and>
    (start \<le> start + sz - 1 \<longrightarrow> res_tree h' R kids)"
proof (cases "adjustable h r as (kids x) bs start (start + sz - 1)")
  case True
  then show ?thesis
    using adjust_resource_eq [OF assms, of start sz] res_tree_adjust [OF assms True] by (simp add: nd_def)
next
  case False
  then show ?thesis using adjust_resource_eq [OF assms, of start sz] assms(1) by simp
qed

theorem adjust_resource_keeps_tree_witness:
  "\<exists>h'. adjust_resource 2 0x180 0x200 tree_example = Some (0, h') \<and> r_end (nd h' 2) = 0x37F \<and> res_tree h' {1, 2} tree_kids"
proof -
  have "adjustable tree_example 1 [] (tree_kids 2) [] 0x180 (0x180 + 0x200 - 1)"
    by (simp add: adjustable_def tree_kids_def tree_example_def nd_def)
  moreover have "tree_kids 1 = [] @ 2 # []" by (simp add: tree_kids_def)
  ultimately show ?thesis using adjust_resource_keeps_tree [OF tree_example_ok(1), of 1 "[]" 2 "[]" "0x180" "0x200"] by auto
qed

end
