(* ===== verification/Resource_Region.thy ===== *)
theory Resource_Region
  imports Resource_Insert
begin

text \<open>
  The busy regions of \<open>kernel/resource.c\<close>: \<open>__request_region\<close> goes down through resources that are not busy and
  links a freshly allocated busy leaf, \<open>__release_region\<close> finds that leaf again, unlinks and frees it.
\<close>

section \<open>Busy regions\<close>

abbreviation (input) busy :: "rheap \<Rightarrow> addr \<Rightarrow> bool" where
  "busy h x \<equiv> r_flags (nd h x) AND IORESOURCE_BUSY \<noteq> 0"

text \<open>Child and parent, and the same for children that are not busy.\<close>

definition kid_rel :: "(addr \<Rightarrow> addr list) \<Rightarrow> (addr \<times> addr) set" where
  "kid_rel kids = {(x, r). x \<in> set (kids r)}"

definition free_rel :: "rheap \<Rightarrow> (addr \<Rightarrow> addr list) \<Rightarrow> (addr \<times> addr) set" where
  "free_rel h kids = {(x, r). x \<in> set (kids r) \<and> \<not> busy h x}"

lemma below_inside:
  assumes "(b, r) \<in> (kid_rel kids)\<^sup>+" "res_tree h R kids" "r \<in> R"
  shows "b \<in> R \<and> r_start (nd h r) \<le> r_start (nd h b) \<and> r_start (nd h b) \<le> r_end (nd h b) \<and> r_end (nd h b) \<le> r_end (nd h r)"
  using assms
proof (induction rule: trancl_induct)
  case (base y)
  then show ?case using res_tree_kid [of h R kids y b] by (auto simp: kid_rel_def child_ok_def)
next
  case (step y z)
  then have y: "y \<in> set (kids z)" by (simp add: kid_rel_def)
  show ?case
    using step.IH [OF step.prems(1) res_tree_kid(1) [OF step.prems y]] res_tree_kid(5) [OF step.prems y]
    by (auto simp: child_ok_def)
qed

lemma siblings_disjoint:
  assumes "level h r xs" "x \<in> set xs" "y \<in> set xs" "x \<noteq> y"
  shows "r_end (nd h x) < r_start (nd h y) \<or> r_end (nd h y) < r_start (nd h x)"
proof -
  obtain i j where "i < length xs" "xs ! i = x" "j < length xs" "xs ! j = y" "i \<noteq> j"
    using assms(2-4) by (metis in_set_conv_nth)
  then show ?thesis
    using assms(1) sorted_wrt_nth_less [of "\<lambda>x y. r_end (nd h x) < r_start (nd h y)" xs i j]
      sorted_wrt_nth_less [of "\<lambda>x y. r_end (nd h x) < r_start (nd h y)" xs j i]
    by (cases "i < j") (auto simp: level_def)
qed

text \<open>The descent to the place of a region, and its refusal next to a busy resource.\<close>

lemma region_descend_result:
  assumes t: "res_tree h R kids" and "root \<in> R" and new: "fresh_node h R new"
  shows "region_descend root new h = Some (False, h) \<or>
    (\<exists>p h'. region_descend root new h = Some (True, h') \<and> p \<in> R \<and> (p, root) \<in> (free_rel h kids)\<^sup>* \<and> inside h new p \<and>
       (\<forall>x \<in> set (kids p). \<not> overlaps h x new) \<and>
       h' = linked_at p new (before h (r_start (nd h new)) (kids p)) (rest h (r_start (nd h new)) (kids p)) h \<and>
       res_tree h' (insert new R) (kids(p := placed h new (kids p), new := [])))"
proof -
  obtain d :: "addr \<Rightarrow> nat" where d: "\<And>r x. r \<in> R \<Longrightarrow> x \<in> set (kids r) \<Longrightarrow> d x < d r"
    using t unfolding res_tree_def ranked_def by blast
  have fn: "new \<notin> R" "new \<noteq> 0" "h new \<noteq> None" "rn_child (nd h new) = 0" using new by (auto simp: fresh_node_def)
  show ?thesis
    using assms(2)
  proof (induction "d root" arbitrary: root rule: less_induct)
    case less
    note root = less.prems
    from t root fn show ?case
    proof (cases rule: request_inner_cases)
      case outside
      moreover have "root \<noteq> 0" using t root by (auto simp: res_tree_def)
      ultimately show ?thesis by (subst region_descend.simps) auto
    next
      case (conflict c)
      have c: "c \<in> R" "c \<noteq> root" "c \<noteq> 0" "h c = Some (nd h c)"
        using res_tree_kid [OF t root conflict(3)] by (auto simp: child_ok_def nd_def)
      show ?thesis
      proof (cases "busy h c")
        case True
        then have "region_descend root new h = Some (False, h)"
          using conflict(1) c by (subst region_descend.simps) simp
        then show ?thesis by blast
      next
        case False
        then have e: "region_descend root new h = region_descend c new h"
          using conflict(1) c by (subst region_descend.simps) simp
        have cr: "(c, root) \<in> free_rel h kids" using False conflict(3) by (simp add: free_rel_def)
        show ?thesis
          using less.hyps [OF d [OF root conflict(3)] c(1)] rtrancl_into_rtrancl [OF _ cr] unfolding e by blast
      qed
    next
      case (ok h')
      then have "region_descend root new h = Some (True, h')" by (subst region_descend.simps) simp
      then show ?thesis using ok root by auto
    qed
  qed
qed

lemma region_blocked:
  assumes t: "res_tree h R kids" and "root \<in> R" and new: "fresh_node h R new"
    and "(b, root) \<in> (kid_rel kids)\<^sup>+" and b: "busy h b" "overlaps h b new"
  shows "region_descend root new h = Some (False, h)"
proof -
  obtain d :: "addr \<Rightarrow> nat" where d: "\<And>r x. r \<in> R \<Longrightarrow> x \<in> set (kids r) \<Longrightarrow> d x < d r"
    using t unfolding res_tree_def ranked_def by blast
  have fn: "new \<notin> R" "new \<noteq> 0" "h new \<noteq> None" "rn_child (nd h new) = 0" using new by (auto simp: fresh_node_def)
  have outer: "region_descend r new h = Some (False, h)" if "r \<in> R" "\<not> inside h new r" for r
    using t that(1) fn
  proof (cases rule: request_inner_cases)
    case outside
    moreover have "r \<noteq> 0" using t that(1) by (auto simp: res_tree_def)
    ultimately show ?thesis by (subst region_descend.simps) simp
  qed (use that in auto)
  show ?thesis
    using assms(2,4)
  proof (induction "d root" arbitrary: root rule: less_induct)
    case less
    note root = less.prems(1)
    obtain k where k: "k \<in> set (kids root)" "b = k \<or> (b, k) \<in> (kid_rel kids)\<^sup>+"
      using less.prems(2) by (cases rule: trancl.cases) (auto simp: kid_rel_def)
    have kr: "k \<in> R" using res_tree_kid(1) [OF t root k(1)] .
    have kb: "overlaps h k new" using k(2) below_inside [OF _ t kr] b(2) by (auto simp: overlaps_def intro: order_trans)
    from t root fn show ?case
    proof (cases rule: request_inner_cases)
      case outside
      then show ?thesis using outer [OF root] by blast
    next
      case (conflict c)
      have c: "c \<in> R" "c \<noteq> root" "c \<noteq> 0" "h c = Some (nd h c)"
        using res_tree_kid [OF t root conflict(3)] by (auto simp: child_ok_def nd_def)
      show ?thesis
      proof (cases "busy h c")
        case True
        then show ?thesis using conflict(1) c by (subst region_descend.simps) simp
      next
        case False
        then have e: "region_descend root new h = region_descend c new h"
          using conflict(1) c by (subst region_descend.simps) simp
        show ?thesis
        proof (cases "inside h new c")
          case True
          have "c = k"
          proof (rule ccontr)
            assume "c \<noteq> k"
            then show False
              using siblings_disjoint [OF res_tree_level [OF t root] conflict(3) k(1)] True kb
              by (auto simp: inside_def overlaps_def dest: order.strict_trans2 order.strict_trans1)
          qed
          then have "(b, c) \<in> (kid_rel kids)\<^sup>+" using k(2) b(1) False by auto
          then show ?thesis using less.hyps [OF d [OF root conflict(3)] c(1)] e by simp
        next
          case False
          then show ?thesis using outer [OF c(1)] e by simp
        qed
      qed
    next
      case (ok h')
      then show ?thesis using k(1) kb by auto
    qed
  qed
qed

text \<open>The search of \<open>__release_region\<close> passes the siblings in front and goes down through resources that are not busy.\<close>

lemma release_skip:
  assumes "deref h q = Some tmp" "seg h tmp (as @ c # bs) 0" "\<forall>a \<in> set as. \<not> (r_start (nd h a) \<le> start \<and> fin \<le> r_end (nd h a))"
  shows "region_release_loop start fin h q = region_release_loop start fin h (link_of q as)" "deref h (link_of q as) = Some c"
  using assms
proof (induction as arbitrary: q tmp)
  case Nil
  {
    case 1
    then show ?case by (simp add: link_of_def)
  next
    case 2
    then show ?case by (simp add: link_of_def)
  }
next
  case (Cons a as)
  {
    case 1
    then obtain t where t: "h a = Some t" "tmp = a" "a \<noteq> 0" "seg h (rn_sibling t) (as @ c # bs) 0"
      by (auto split: option.splits)
    have "region_release_loop start fin h q = region_release_loop start fin h (Sibling a)"
      using 1 t by (subst region_release_loop.simps) (auto simp: nd_def)
    also have "\<dots> = region_release_loop start fin h (link_of (Sibling a) as)"
      using Cons.IH(1) [of "Sibling a" "rn_sibling t"] t 1(3) by simp
    finally show ?case by (simp add: link_of_def)
  next
    case 2
    then obtain t where t: "h a = Some t" "tmp = a" "a \<noteq> 0" "seg h (rn_sibling t) (as @ c # bs) 0"
      by (auto split: option.splits)
    then show ?case using Cons.IH(2) [of "Sibling a" "rn_sibling t"] 2(3) by (auto simp: link_of_def)
  }
qed

lemma release_at_level:
  assumes l: "level h r (as @ c # bs)" and c: "r_start (nd h c) \<le> start" "fin \<le> r_end (nd h c)" "start \<le> fin"
  shows "region_release_loop start fin h (Child r) = region_release_loop start fin h (link_of (Child r) as)"
    "deref h (link_of (Child r) as) = Some c" "c \<noteq> 0" "h c = Some (nd h c)"
proof -
  have "\<not> (r_start (nd h a) \<le> start \<and> fin \<le> r_end (nd h a))" if "a \<in> set as" for a
  proof -
    have "r_end (nd h a) < r_start (nd h c)" using l that by (auto simp: level_def sorted_wrt_append)
    then show ?thesis using c by auto
  qed
  moreover have "deref h (Child r) = Some (rn_child (nd h r))" "seg h (rn_child (nd h r)) (as @ c # bs) 0"
    using l by (auto simp: level_def nd_def)
  ultimately show "region_release_loop start fin h (Child r) = region_release_loop start fin h (link_of (Child r) as)"
    "deref h (link_of (Child r) as) = Some c" using release_skip [of h "Child r" _ as c bs start fin] by auto
  show "c \<noteq> 0" "h c = Some (nd h c)"
    using seg_nonzero [of h "rn_child (nd h r)" "as @ c # bs" 0 c] l by (auto simp: level_def nd_def)
qed

lemma free_rel_below: "(p, r) \<in> (free_rel h kids)\<^sup>* \<Longrightarrow> (p, r) \<in> (kid_rel kids)\<^sup>*"
  by (rule rtrancl_mono [THEN subsetD, of "free_rel h kids"]) (auto simp: free_rel_def kid_rel_def)

lemma release_path:
  assumes "(p, r) \<in> (free_rel h kids)\<^sup>*" and t: "res_tree h R kids" and "r \<in> R"
    and x: "x \<in> set (kids p)" "r_start (nd h x) \<le> start" "fin \<le> r_end (nd h x)" "start \<le> fin"
  shows "region_release_loop start fin h (Child r) = region_release_loop start fin h (Child p)"
  using assms(1,3)
proof (induction rule: rtrancl_induct)
  case base
  then show ?case by simp
next
  case (step y z)
  then have y: "y \<in> set (kids z)" "\<not> busy h y" by (auto simp: free_rel_def)
  have yr: "y \<in> R" using res_tree_kid(1) [OF t step.prems y(1)] .
  have "(x, y) \<in> (kid_rel kids)\<^sup>+" using free_rel_below [OF step.hyps(1)] x(1) by (auto simp: kid_rel_def intro: rtrancl_into_trancl2)
  then have "r_start (nd h y) \<le> start" "fin \<le> r_end (nd h y)" using below_inside [OF _ t yr] x(2,3) by (auto intro: order_trans)
  moreover obtain as bs where k: "kids z = as @ y # bs" using split_list [OF y(1)] by blast
  ultimately have e: "region_release_loop start fin h (Child z) = region_release_loop start fin h (link_of (Child z) as)"
    "deref h (link_of (Child z) as) = Some y" "y \<noteq> 0" "h y = Some (nd h y)" "r_start (nd h y) \<le> start" "fin \<le> r_end (nd h y)"
    using release_at_level [of h z as y bs start fin] res_tree_level [OF t step.prems] x(4) by auto
  have "region_release_loop start fin h (link_of (Child z) as) = region_release_loop start fin h (Child y)"
    using e(2-6) y(2) by (subst region_release_loop.simps) simp
  with e(1) have "region_release_loop start fin h (Child z) = region_release_loop start fin h (Child y)" by simp
  then show ?case using step.IH [OF yr] by simp
qed

lemma release_found:
  assumes t: "res_tree h R kids" and r: "root \<in> R" and pr: "(p, root) \<in> (free_rel h kids)\<^sup>*" and p: "p \<in> R"
    and k: "kids p = as @ x # bs" and x: "busy h x" "r_start (nd h x) = start" "r_end (nd h x) = fin"
  shows "region_release_loop start fin h (Child root) = Some (x, unlinked_at p as bs h)"
proof -
  have l: "level h p (as @ x # bs)" using res_tree_level [OF t p] k by simp
  have se: "start \<le> fin" using l x(2,3) by (auto simp: level_def child_ok_def)
  have "h (last as) \<noteq> None" if "as \<noteq> []" using l last_in_set [OF that] by (auto simp: level_def child_ok_def)
  then have a: "assign (link_of (Child p) as) (hd0 bs) h = Some (unlinked_at p as bs h)"
    using l by (intro assign_unlinked) (auto simp: level_def)
  have sib: "rn_sibling (nd h x) = hd0 bs" using seg_next [of h "rn_child (nd h p)" as x bs] l by (auto simp: level_def nd_def)
  have "region_release_loop start fin h (Child root) = region_release_loop start fin h (Child p)"
    using release_path [OF pr t r, of x] k x se by simp
  also have "\<dots> = region_release_loop start fin h (link_of (Child p) as)"
    using release_at_level(1) [OF l] x se by simp
  also have "\<dots> = Some (x, unlinked_at p as bs h)"
    using release_at_level(2-4) [OF l, of start fin] x se a sib by (subst region_release_loop.simps) simp
  finally show ?thesis .
qed

section \<open>Regions and the kernel heap\<close>

lemma load32_memset_behind:
  fixes p n :: u32
  assumes "n \<le> ULONG_MAX - 4"
  shows "load32 (memset p 0 n m) (p - 4) = load32 m (p - 4)"
proof -
  have "\<not> p - 4 - p < n" "\<not> p - 4 + 1 - p < n" "\<not> p - 4 + 2 - p < n" "\<not> p - 4 + 3 - p < n"
    using assms by (simp_all add: not_less) (unat_arith+)?
  then show ?thesis by (simp add: load32_def memset_def)
qed

lemma kzalloc_result:
  assumes "kmalloc_inv s" "n \<le> ULONG_MAX - 4" "kmalloc K n f s = Some (p, s1)"
  obtains s2 where "kzalloc K n f s = Some (p, s2)" "kmalloc_inv s2" "resources s2 = resources s" "p \<noteq> 0 \<longrightarrow> kmalloc_block s2 p"
proof -
  let ?s = "if p \<noteq> 0 then mem_update (memset p 0 n) s1 else s1"
  have "kmalloc_inv s1" "kmem_state.more s1 = kmem_state.more s" "p \<noteq> 0 \<longrightarrow> kmalloc_block s1 p"
    using kheap.alloc_inv [OF assms(1,3)] kheap.alloc_view [OF assms(1,3)] kheap.alloc_block [OF assms(1,3)] by auto
  moreover from this(2) have "resources s1 = resources s" by (cases s; cases s1; simp)
  ultimately show ?thesis
    using assms(3) by (intro that [of ?s])
      (auto simp: kzalloc_def kmalloc_inv_def cache_matches_def kmalloc_block_def load32_memset_behind [OF assms(2)])
qed

lemma kfree_region:
  assumes "kmalloc_inv s" "kmalloc_block s p"
  obtains s' where "kfree K p s = Some s'" "kmalloc_inv s'" "resources s' = resources s"
proof -
  obtain k where "kfree K p s = Some (s\<lparr>kit := k\<rparr>)" using kfree_block [OF assms] by blast
  then show ?thesis using assms(1) by (intro that [of "s\<lparr>kit := k\<rparr>"]) (simp_all add: kmalloc_inv_def cache_matches_def)
qed

text \<open>The node that \<open>__request_region\<close> fills in.\<close>

abbreviation (input) region_node :: "u32 \<Rightarrow> u32 \<Rightarrow> resource_node" where
  "region_node start n \<equiv> \<lparr>r_start = start, r_end = start + n - 1, r_flags = IORESOURCE_BUSY,
     rn_parent = 0, rn_sibling = 0, rn_child = 0\<rparr>"

text \<open>A state with a well-formed tree, and an allocator that does not hand out memory of one of its resources.\<close>

definition region_ready :: "('k, 'z) tkit \<Rightarrow> ('k, 'z) tstate \<Rightarrow> addr set \<Rightarrow> (addr \<Rightarrow> addr list) \<Rightarrow> bool" where
  "region_ready K s R kids \<longleftrightarrow> kmalloc_inv s \<and> res_tree (resources s) R kids \<and> sizeof K ''resource'' \<le> ULONG_MAX - 4 \<and>
     (\<forall>p s'. kmalloc K (sizeof K ''resource'') GFP_KERNEL s = Some (p, s') \<longrightarrow> p \<notin> R)"

lemma request_busy_cases:
  assumes "region_ready K s R kids" "root \<in> R"
  obtains (memory) s1 s' where "kmalloc K (sizeof K ''resource'') GFP_KERNEL s = Some (0, s1)"
      "request_busy_region K root start n s = Some (0, s')" "kmalloc_inv s'" "resources s' = resources s"
  | (node) res s1 h0 where "kmalloc K (sizeof K ''resource'') GFP_KERNEL s = Some (res, s1)" "res \<noteq> 0"
      "h0 = (resources s)(res \<mapsto> region_node start n)" "fresh_node h0 R res" "res_tree h0 R kids"
      "region_descend root res h0 = Some (False, h0) \<longrightarrow>
         (\<exists>s'. request_busy_region K root start n s = Some (0, s') \<and> kmalloc_inv s' \<and> (\<forall>x. x \<noteq> res \<longrightarrow> resources s' x = resources s x))"
      "\<forall>h1. region_descend root res h0 = Some (True, h1) \<longrightarrow>
         (\<exists>s'. request_busy_region K root start n s = Some (res, s') \<and> kmalloc_inv s' \<and> resources s' = h1 \<and> kmalloc_block s' res)"
proof -
  have inv: "kmalloc_inv s" and t: "res_tree (resources s) R kids" and sz: "sizeof K ''resource'' \<le> ULONG_MAX - 4"
    and fresh: "\<And>p s'. kmalloc K (sizeof K ''resource'') GFP_KERNEL s = Some (p, s') \<Longrightarrow> p \<notin> R"
    using assms(1) by (auto simp: region_ready_def)
  obtain res s1 where k: "kmalloc K (sizeof K ''resource'') GFP_KERNEL s = Some (res, s1)" using kmalloc_total [OF inv] by blast
  obtain s2 where z: "kzalloc K (sizeof K ''resource'') GFP_KERNEL s = Some (res, s2)" "kmalloc_inv s2"
    "resources s2 = resources s" "res \<noteq> 0 \<longrightarrow> kmalloc_block s2 res" using kzalloc_result [OF inv sz k] by blast
  show ?thesis
  proof (cases "res = 0")
    case True
    then show ?thesis using k z by (intro memory [of s1 s2]) (simp_all add: request_busy_region_def)
  next
    case False
    let ?h0 = "(resources s)(res \<mapsto> region_node start n)"
    have upd: "kmalloc_inv (s2\<lparr>resources := h\<rparr>)" "kmalloc_block (s2\<lparr>resources := h\<rparr>) res" for h
      using z(2,4) False by (simp_all add: kmalloc_inv_def cache_matches_def kmalloc_block_def)
    have fl: "\<exists>s'. request_busy_region K root start n s = Some (0, s') \<and> kmalloc_inv s' \<and> (\<forall>x. x \<noteq> res \<longrightarrow> resources s' x = resources s x)"
      if d: "region_descend root res ?h0 = Some (False, ?h0)"
    proof -
      obtain s3 where "kfree K res (s2\<lparr>resources := ?h0\<rparr>) = Some s3" "kmalloc_inv s3" "resources s3 = ?h0"
        using kfree_region [OF upd(1) [of ?h0] upd(2), of K] by auto
      then show ?thesis using z False d by (auto simp: request_busy_region_def kmalloc_inv_def cache_matches_def)
    qed
    have su: "\<forall>h1. region_descend root res ?h0 = Some (True, h1) \<longrightarrow>
         (\<exists>s'. request_busy_region K root start n s = Some (res, s') \<and> kmalloc_inv s' \<and> resources s' = h1 \<and> kmalloc_block s' res)"
      using z upd False by (auto simp: request_busy_region_def)
    have fr: "fresh_node ?h0 R res" using fresh [OF k] False by (simp add: fresh_node_def nd_def)
    have "res_tree ?h0 R kids" by (rule res_tree_agree [OF t]) (use fresh [OF k] in auto)
    from node [OF k False refl fr this] fl su show ?thesis by blast
  qed
qed

section \<open>Properties\<close>

lemma region_at_root:
  assumes "res_tree h R kids" "root \<in> R" "fresh_node h R new" "inside h new root" "\<forall>x \<in> set (kids root). \<not> overlaps h x new"
  shows "\<exists>h'. region_descend root new h = Some (True, h')"
proof -
  have fn: "new \<notin> R" "new \<noteq> 0" "h new \<noteq> None" "rn_child (nd h new) = 0" using assms(3) by (auto simp: fresh_node_def)
  with assms(1,2) show ?thesis
  proof (cases rule: request_inner_cases)
    case (ok h')
    then show ?thesis by (simp add: region_descend.simps [of root])
  qed (use assms(4,5) in auto)
qed

lemma free_path_mono:
  assumes "(p, r) \<in> (free_rel h kids)\<^sup>*" "r \<in> R" "res_tree h R kids" "\<And>r. r \<in> R \<Longrightarrow> set (kids r) \<subseteq> set (kids' r)"
    "\<And>x. r_flags (nd h' x) = r_flags (nd h x)"
  shows "(p, r) \<in> (free_rel h' kids')\<^sup>*"
  using assms(1,2)
proof (induction rule: rtrancl_induct)
  case (step y z)
  then have "y \<in> set (kids z)" "\<not> busy h y" by (auto simp: free_rel_def)
  then have "(y, z) \<in> free_rel h' kids'" using assms(4,5) step.prems by (auto simp: free_rel_def)
  then show ?case using step res_tree_kid(1) [OF assms(3) step.prems \<open>y \<in> set (kids z)\<close>] by (auto intro: rtrancl_into_rtrancl)
qed simp

text \<open>Where \<open>__request_region\<close> links its node.\<close>

definition region_linked :: "rheap \<Rightarrow> addr set \<Rightarrow> (addr \<Rightarrow> addr list) \<Rightarrow> addr \<Rightarrow> addr \<Rightarrow> addr \<Rightarrow> addr list \<Rightarrow> addr list \<Rightarrow> rheap \<Rightarrow> bool" where
  "region_linked h R kids root res p as bs h1 \<longleftrightarrow> p \<in> R \<and> kids p = as @ bs \<and> (p, root) \<in> (free_rel h kids)\<^sup>* \<and> inside h res p \<and>
     h1 = linked_at p res as bs h \<and> res_tree h1 (insert res R) (kids(p := as @ res # bs, res := []))"

lemma region_descend_cases:
  assumes "res_tree h R kids" "root \<in> R" "fresh_node h R res"
  obtains (refused) "region_descend root res h = Some (False, h)"
  | (linked) p as bs h1 where "region_descend root res h = Some (True, h1)" "region_linked h R kids root res p as bs h1"
  using region_descend_result [OF assms] before_rest [of h "r_start (nd h res)"]
  unfolding region_linked_def placed_def by metis

text \<open>A resource overlaps a range, and contains one that is not empty.\<close>

definition meets :: "rheap \<Rightarrow> addr \<Rightarrow> u32 \<Rightarrow> u32 \<Rightarrow> bool" where
  "meets h x start fin \<longleftrightarrow> r_start (nd h x) \<le> fin \<and> start \<le> r_end (nd h x)"

definition contains :: "rheap \<Rightarrow> addr \<Rightarrow> u32 \<Rightarrow> u32 \<Rightarrow> bool" where
  "contains h x start fin \<longleftrightarrow> start \<le> fin \<and> r_start (nd h x) \<le> start \<and> fin \<le> r_end (nd h x)"

lemma region_overlap:
  assumes "b \<in> R" "res \<notin> R"
  shows "overlaps (h(res \<mapsto> region_node start n)) b res \<longleftrightarrow> meets h b start (start + n - 1)"
    "busy (h(res \<mapsto> region_node start n)) b \<longleftrightarrow> busy h b"
    "inside (h(res \<mapsto> region_node start n)) res b \<longleftrightarrow> contains h b start (start + n - 1)"
  using assms by (auto simp: overlaps_def inside_def meets_def contains_def nd_def)


text \<open>The example tree, with a general cache of 32 bytes behind \<open>kmalloc\<close>.\<close>

abbreviation region_sim_kit :: "(sim, unit) tkit" where
  "region_sim_kit \<equiv> sim_kit"

definition region_example :: "(sim, unit) tstate" where
  "region_example = \<lparr>kit = sim_init, mem = (\<lambda>_. 0),
     caches = [0x100 \<mapsto> \<lparr>kc_name = 1, kc_size = 32, kc_slab = 0x200, kc_lock = 0x300, kc_ctor = 0, kc_dtor = 0\<rparr>],
     malloc_sizes = (32, 0x100) # tl malloc_sizes_boot, resources = tree_example\<rparr>"

lemmas region_example_simps = region_example_def malloc_sizes_boot_def kmalloc_size_list_def kmem_defs sim_defs

lemma region_example_alloc:
  "\<exists>s'. kmalloc region_sim_kit (sizeof region_sim_kit ''resource'') GFP_KERNEL region_example = Some (0x10004, s')"
  by (simp add: region_example_simps)

lemma region_example_ready: "region_ready region_sim_kit region_example {1, 2} tree_kids"
proof -
  have "kmalloc_inv region_example"
    by (simp add: kmalloc_inv_def region_example_def malloc_sizes_boot_def kmalloc_size_list_def cache_matches_def)
  moreover have "res_tree (resources region_example) {1, 2} tree_kids" using tree_example_ok(1) by (simp add: region_example_def)
  moreover have "sizeof region_sim_kit ''resource'' \<le> ULONG_MAX - 4" by (simp add: sim_defs)
  ultimately show ?thesis unfolding region_ready_def using region_example_alloc by force
qed


lemma release_linked:
  assumes t: "res_tree h R kids" and r: "root \<in> R" and res: "fresh_node h R res" "busy h res"
    and l: "region_linked h R kids root res p as bs h1" and x: "r_start (nd h res) = start" "r_end (nd h res) = fin"
  shows "region_release_loop start fin h1 (Child root) = Some (res, unlinked_at p as bs h1)"
    "y \<noteq> res \<Longrightarrow> unlinked_at p as bs h1 y = h y"
proof -
  let ?kids = "kids(p := as @ res # bs, res := [])"
  have p: "p \<in> R" "kids p = as @ bs" "(p, root) \<in> (free_rel h kids)\<^sup>*" "h1 = linked_at p res as bs h"
    "res_tree h1 (insert res R) ?kids" using l by (auto simp: region_linked_def)
  have nR: "res \<notin> R" using res(1) by (simp add: fresh_node_def)
  have "(p, root) \<in> (free_rel h1 ?kids)\<^sup>*"
    by (rule free_path_mono [OF p(3) r t]) (use p(2,4) nR in \<open>auto simp: subset_iff\<close>)
  then show "region_release_loop start fin h1 (Child root) = Some (res, unlinked_at p as bs h1)"
    using p nR r res(2) x by (intro release_found [OF p(5)]) auto
  have lv: "level h p (as @ bs)" using res_tree_level [OF t p(1)] p(2) by simp
  have "res \<notin> set (as @ bs)" using res_tree_kid(1) [OF t p(1)] nR p(2) by auto
  then show "y \<noteq> res \<Longrightarrow> unlinked_at p as bs h1 y = h y"
    using unlink_link [of h p as bs res y] lv nR p(1,4) by (auto simp: level_def nd_def)
qed



end
