(* ===== verification/Bit_Search.thy ===== *)
theory Bit_Search
  imports DDE_Prelude
begin

text \<open>
  Bit arrays and the search in them: \<open>lib/find_next_bit.c\<close> of the environment and the bit operations of
  \<open>asm/bitops.h\<close>.  An array of \<open>unsigned long\<close> is a list of words; an access outside of it is \<open>None\<close>.  Bit numbers
  and sizes are natural numbers: the C functions take non-negative values of type \<open>int\<close>.
\<close>

unbundle bit_operations_syntax

section \<open>Single bits\<close>

definition word_at :: "u32 list \<Rightarrow> nat \<Rightarrow> u32 option" where
  "word_at ws k = (if k < length ws then Some (ws ! k) else None)"

definition test_bit :: "nat \<Rightarrow> u32 list \<Rightarrow> bool option" where
  "test_bit nr ws = do {
     w \<leftarrow> word_at ws (nr div 32);
     Some ((push_bit (nr mod 32) 1) AND w \<noteq> 0) }"

definition set_bit_in :: "nat \<Rightarrow> u32 list \<Rightarrow> u32 list option" where
  "set_bit_in nr ws = do {
     w \<leftarrow> word_at ws (nr div 32);
     Some (ws[nr div 32 := w OR push_bit (nr mod 32) 1]) }"

definition clear_bit_in :: "nat \<Rightarrow> u32 list \<Rightarrow> u32 list option" where
  "clear_bit_in nr ws = do {
     w \<leftarrow> word_at ws (nr div 32);
     Some (ws[nr div 32 := w AND NOT (push_bit (nr mod 32) 1)]) }"

text \<open>The instruction \<open>bsfl\<close>: the index of the lowest bit that is set.\<close>

definition bsfl :: "u32 \<Rightarrow> nat" where
  "bsfl w = length (takeWhile (\<lambda>i. \<not> bit w i) [0..<32])"

definition ffs_word :: "u32 \<Rightarrow> nat" where
  "ffs_word w = bsfl w"

definition ffz :: "u32 \<Rightarrow> nat" where
  "ffz w = bsfl (NOT w)"

section \<open>Searching\<close>

text \<open>\<open>(size & ~31) != 0\<close> is \<open>32 \<le> size\<close>.  The labels \<open>found_first\<close> and \<open>found_middle\<close> are functions.\<close>

definition found_middle :: "u32 \<Rightarrow> nat \<Rightarrow> nat" where
  "found_middle tmp result = result + ffs_word tmp"

definition found_first :: "u32 \<Rightarrow> nat \<Rightarrow> nat \<Rightarrow> nat" where
  "found_first tmp result sz =
     (if tmp AND drop_bit (32 - sz) (- 1) = 0 then result + sz
      else found_middle (tmp AND drop_bit (32 - sz) (- 1)) result)"

fun next_bit_words :: "u32 list \<Rightarrow> nat \<Rightarrow> nat \<Rightarrow> nat \<Rightarrow> nat option" where
  "next_bit_words ws p result sz =
     (if 32 \<le> sz then do {
        tmp \<leftarrow> word_at ws p;
        if tmp \<noteq> 0 then Some (found_middle tmp result) else next_bit_words ws (p + 1) (result + 32) (sz - 32) }
      else if sz = 0 then Some result
      else do {
        tmp \<leftarrow> word_at ws p;
        Some (found_first tmp result sz) })"

declare next_bit_words.simps [simp del]

definition find_next_bit :: "u32 list \<Rightarrow> nat \<Rightarrow> nat \<Rightarrow> nat option" where
  "find_next_bit ws sz offset =
     (if sz \<le> offset then Some sz
      else if offset mod 32 \<noteq> 0 then do {
        tmp \<leftarrow> word_at ws (offset div 32);
        if sz - 32 * (offset div 32) < 32
        then Some (found_first (tmp AND push_bit (offset mod 32) (- 1)) (32 * (offset div 32)) (sz - 32 * (offset div 32)))
        else if tmp AND push_bit (offset mod 32) (- 1) \<noteq> 0
        then Some (found_middle (tmp AND push_bit (offset mod 32) (- 1)) (32 * (offset div 32)))
        else next_bit_words ws (offset div 32 + 1) (32 * (offset div 32) + 32) (sz - 32 * (offset div 32) - 32) }
      else next_bit_words ws (offset div 32) (32 * (offset div 32)) (sz - 32 * (offset div 32)))"

definition found_middle_zero :: "u32 \<Rightarrow> nat \<Rightarrow> nat" where
  "found_middle_zero tmp result = result + ffz tmp"

definition found_first_zero :: "u32 \<Rightarrow> nat \<Rightarrow> nat \<Rightarrow> nat" where
  "found_first_zero tmp result sz =
     (if tmp OR push_bit sz (- 1) = - 1 then result + sz
      else found_middle_zero (tmp OR push_bit sz (- 1)) result)"

fun next_zero_words :: "u32 list \<Rightarrow> nat \<Rightarrow> nat \<Rightarrow> nat \<Rightarrow> nat option" where
  "next_zero_words ws p result sz =
     (if 32 \<le> sz then do {
        tmp \<leftarrow> word_at ws p;
        if NOT tmp \<noteq> 0 then Some (found_middle_zero tmp result) else next_zero_words ws (p + 1) (result + 32) (sz - 32) }
      else if sz = 0 then Some result
      else do {
        tmp \<leftarrow> word_at ws p;
        Some (found_first_zero tmp result sz) })"

declare next_zero_words.simps [simp del]

definition find_next_zero_bit :: "u32 list \<Rightarrow> nat \<Rightarrow> nat \<Rightarrow> nat option" where
  "find_next_zero_bit ws sz offset =
     (if sz \<le> offset then Some sz
      else if offset mod 32 \<noteq> 0 then do {
        tmp \<leftarrow> word_at ws (offset div 32);
        if sz - 32 * (offset div 32) < 32
        then Some (found_first_zero (tmp OR drop_bit (32 - offset mod 32) (- 1)) (32 * (offset div 32)) (sz - 32 * (offset div 32)))
        else if NOT (tmp OR drop_bit (32 - offset mod 32) (- 1)) \<noteq> 0
        then Some (found_middle_zero (tmp OR drop_bit (32 - offset mod 32) (- 1)) (32 * (offset div 32)))
        else next_zero_words ws (offset div 32 + 1) (32 * (offset div 32) + 32) (sz - 32 * (offset div 32) - 32) }
      else next_zero_words ws (offset div 32) (32 * (offset div 32)) (sz - 32 * (offset div 32)))"

definition find_first_zero_bit :: "u32 list \<Rightarrow> nat \<Rightarrow> nat option" where
  "find_first_zero_bit ws sz = find_next_zero_bit ws sz 0"

function first_bit_words :: "u32 list \<Rightarrow> nat \<Rightarrow> nat \<Rightarrow> nat \<Rightarrow> nat option" where
  "first_bit_words ws p x sz =
     (if x < sz then do {
        val \<leftarrow> word_at ws p;
        if val \<noteq> 0 then Some (ffs_word val + x) else first_bit_words ws (p + 1) (x + 32) sz }
      else Some x)"
  by auto
termination
  by (relation "measure (\<lambda>(ws, p, x, sz). sz - x)") auto

declare first_bit_words.simps [simp del]

definition find_first_bit :: "u32 list \<Rightarrow> nat \<Rightarrow> nat option" where
  "find_first_bit ws sz = first_bit_words ws 0 0 sz"

section \<open>The bits of an array\<close>

definition bit_at :: "u32 list \<Rightarrow> nat \<Rightarrow> bool" where
  "bit_at ws i = bit (ws ! (i div 32)) (i mod 32)"

text \<open>The reference for every search: the first index from \<open>a\<close> on with the property, or \<open>n\<close>.\<close>

definition next_such :: "(nat \<Rightarrow> bool) \<Rightarrow> nat \<Rightarrow> nat \<Rightarrow> nat" where
  "next_such P n a = hd (filter P [a..<n] @ [n])"

lemma next_suchI:
  assumes "a \<le> r" "r \<le> n" "r < n \<Longrightarrow> P r" "\<And>i. a \<le> i \<Longrightarrow> i < r \<Longrightarrow> \<not> P i"
  shows "next_such P n a = r"
proof -
  have "[a..<n] = [a..<r] @ [r..<n]" using assms(1,2) by (metis upt_add_eq_append le_add_diff_inverse)
  moreover have "filter P [a..<r] = []" using assms(4) by (simp add: filter_empty_conv)
  ultimately show ?thesis using assms(2,3) by (cases "r < n") (auto simp: next_such_def upt_conv_Cons)
qed

lemma next_such_props:
  assumes "a \<le> n"
  shows "a \<le> next_such P n a" "next_such P n a \<le> n" "next_such P n a < n \<Longrightarrow> P (next_such P n a)"
    "a \<le> i \<Longrightarrow> i < next_such P n a \<Longrightarrow> \<not> P i"
proof -
  obtain r where r: "a \<le> r" "r \<le> n" "r < n \<Longrightarrow> P r" "\<And>i. a \<le> i \<Longrightarrow> i < r \<Longrightarrow> \<not> P i"
  proof (cases "\<exists>i. a \<le> i \<and> i < n \<and> P i")
    case True
    define r where "r = (LEAST i. a \<le> i \<and> i < n \<and> P i)"
    have "a \<le> r \<and> r < n \<and> P r" unfolding r_def by (rule LeastI_ex [OF True])
    moreover have "\<not> P i" if "a \<le> i" "i < r" for i
      using that not_less_Least [of i "\<lambda>i. a \<le> i \<and> i < n \<and> P i"] calculation by (auto simp: r_def)
    ultimately show ?thesis by (intro that [of r]) auto
  next
    case False
    then show ?thesis using assms by (intro that [of n]) auto
  qed
  then have e: "next_such P n a = r" by (rule next_suchI) auto
  show "a \<le> next_such P n a" "next_such P n a \<le> n" using r by (simp_all add: e)
  show "next_such P n a < n \<Longrightarrow> P (next_such P n a)" using r by (simp add: e)
  show "a \<le> i \<Longrightarrow> i < next_such P n a \<Longrightarrow> \<not> P i" using r by (simp add: e)
qed

lemma bsfl_props:
  assumes "w \<noteq> 0"
  shows "bsfl w < 32" "bit w (bsfl w)" "j < bsfl w \<Longrightarrow> \<not> bit w j"
proof -
  let ?P = "\<lambda>i. \<not> bit w i"
  have "\<exists>i < 32. bit w i"
  proof (rule ccontr)
    assume "\<not> ?thesis"
    then have "w = 0" by (intro bit_word_eqI) simp
    with assms show False by simp
  qed
  then have "takeWhile ?P [0..<32] \<noteq> [0..<32]" by (metis atLeastLessThan_iff set_takeWhileD set_upt zero_le)
  then show l: "bsfl w < 32" unfolding bsfl_def
    by (metis length_takeWhile_le length_upt minus_nat.diff_0 nat_less_le takeWhile_eq_take take_all le_refl)
  then have "\<not> ?P ([0..<32] ! length (takeWhile ?P [0..<32]))"
    by (intro nth_length_takeWhile) (simp add: bsfl_def)
  then show "bit w (bsfl w)" using l by (simp add: bsfl_def)
  assume "j < bsfl w"
  then have "j \<in> set (takeWhile ?P [0..<32])" using l
    by (metis add_0 bsfl_def in_set_conv_nth nth_upt takeWhile_nth less_trans diff_zero)
  then show "\<not> bit w j" using set_takeWhileD by fastforce
qed

lemma bit_at_word: "j < 32 \<Longrightarrow> bit_at ws (32 * p + j) = bit (ws ! p) j"
  by (simp add: bit_at_def)

lemma div32_word: fixes i p :: nat assumes "32 * p \<le> i" "i < 32 * p + 32" obtains j where "i = 32 * p + j" "j < 32"
  using assms by (intro that [of "i - 32 * p"]) auto

lemma upper_mask: "j < 32 \<Longrightarrow> bit (push_bit k (- 1 :: u32)) j \<longleftrightarrow> k \<le> j"
  by (auto simp: bit_simps)

lemma lower_mask: "j < 32 \<Longrightarrow> k \<le> 32 \<Longrightarrow> bit (drop_bit (32 - k) (- 1 :: u32)) j \<longleftrightarrow> j < k"
  by (auto simp: bit_simps)

text \<open>One word of the search: from bit \<open>a\<close> of the word on, the first set bit below \<open>n\<close>.\<close>

lemma found_middle_next:
  assumes "w \<noteq> 0" "\<And>j. j < 32 \<Longrightarrow> bit w j \<longleftrightarrow> a \<le> j \<and> P (32 * p + j)" "a \<le> 32" "32 * p + 32 \<le> n"
  shows "found_middle w (32 * p) = next_such P n (32 * p + a)"
proof (rule sym, rule next_suchI)
  have b: "bsfl w < 32" "bit w (bsfl w)" "\<And>j. j < bsfl w \<Longrightarrow> \<not> bit w j" using bsfl_props [OF assms(1)] by auto
  then have a: "a \<le> bsfl w" "P (32 * p + bsfl w)" using assms(2) by auto
  then show "32 * p + a \<le> found_middle w (32 * p)" "found_middle w (32 * p) < n \<Longrightarrow> P (found_middle w (32 * p))"
    by (simp_all add: found_middle_def ffs_word_def)
  show "found_middle w (32 * p) \<le> n" using b(1) assms(4) by (simp add: found_middle_def ffs_word_def)
  fix i assume i: "32 * p + a \<le> i" "i < found_middle w (32 * p)"
  then have "i < 32 * p + 32" "32 * p \<le> i" using b(1) by (auto simp: found_middle_def ffs_word_def)
  then obtain j where j: "i = 32 * p + j" "j < 32" by (elim div32_word) auto
  then show "\<not> P i" using i b(3) [of j] assms(2) [of j] by (auto simp: found_middle_def ffs_word_def)
qed

lemma found_first_next:
  assumes "\<And>j. j < 32 \<Longrightarrow> bit w j \<longleftrightarrow> a \<le> j \<and> P (32 * p + j)" "a \<le> sz" "sz \<le> 32"
  shows "found_first w (32 * p) sz = next_such P (32 * p + sz) (32 * p + a)"
proof -
  let ?w = "w AND drop_bit (32 - sz) (- 1)"
  have bit: "bit ?w j \<longleftrightarrow> a \<le> j \<and> j < sz \<and> P (32 * p + j)" if "j < 32" for j
    using that assms(1) [OF that] lower_mask [OF that assms(3)] by (auto simp: bit_and_iff)
  show ?thesis
  proof (cases "?w = 0")
    case True
    have "\<not> P i" if i: "32 * p + a \<le> i" "i < 32 * p + sz" for i
    proof -
      obtain j where "i = 32 * p + j" "j < 32" using i assms(3) by (elim div32_word [of p i, rotated 2]) auto
      then show ?thesis using bit [of j] True i by simp
    qed
    then show ?thesis using True assms(2) by (intro next_suchI [symmetric]) (auto simp: found_first_def)
  next
    case False
    let ?b = "bsfl ?w"
    have b: "?b < 32" "bit ?w ?b" "\<And>j. j < ?b \<Longrightarrow> \<not> bit ?w j" using bsfl_props [OF False] by auto
    then have h: "a \<le> ?b" "?b < sz" "P (32 * p + ?b)" using bit [of ?b] by auto
    have "\<not> P i" if i: "32 * p + a \<le> i" "i < 32 * p + ?b" for i
    proof -
      obtain j where "i = 32 * p + j" "j < 32" using i b(1) by (elim div32_word [of p i, rotated 2]) auto
      then show ?thesis using bit [of j] b(3) [of j] i h(2) by simp
    qed
    then show ?thesis using False h
      by (intro next_suchI [symmetric]) (auto simp: found_first_def found_middle_def ffs_word_def)
  qed
qed

lemma next_such_skip:
  assumes "\<And>i. a \<le> i \<Longrightarrow> i < b \<Longrightarrow> \<not> P i" "a \<le> b" "b \<le> n"
  shows "next_such P n a = next_such P n b"
proof (rule next_suchI)
  note b = next_such_props [OF assms(3), where P = P]
  show "a \<le> next_such P n b" "next_such P n b \<le> n" "next_such P n b < n \<Longrightarrow> P (next_such P n b)"
    using assms(2) b by auto
  fix i assume "a \<le> i" "i < next_such P n b"
  then show "\<not> P i" using assms(1) [of i] b(4) [of i] by (cases "i < b") auto
qed

lemma next_bit_words_next:
  assumes "32 * p + sz \<le> 32 * length ws"
  shows "next_bit_words ws p (32 * p) sz = Some (next_such (bit_at ws) (32 * p + sz) (32 * p))"
  using assms
proof (induction sz arbitrary: p rule: less_induct)
  case (less sz)
  show ?case
  proof (cases "sz = 0")
    case True
    then show ?thesis by (simp add: next_bit_words.simps [of ws p] next_such_def)
  next
    case sz: False
    then have w: "word_at ws p = Some (ws ! p)" using less.prems by (simp add: word_at_def)
    have bits: "\<And>j. j < 32 \<Longrightarrow> bit (ws ! p) j \<longleftrightarrow> 0 \<le> j \<and> bit_at ws (32 * p + j)" by (simp add: bit_at_word)
    consider (last) "sz < 32" | (hit) "32 \<le> sz" "ws ! p \<noteq> 0" | (skip) "32 \<le> sz" "ws ! p = 0" by linarith
    then show ?thesis
    proof cases
      case last
      then show ?thesis using w sz found_first_next [OF bits, of sz] by (simp add: next_bit_words.simps [of ws p])
    next
      case hit
      then show ?thesis
        using w found_middle_next [OF hit(2) bits, where n = "32 * p + sz"] by (simp add: next_bit_words.simps [of ws p])
    next
      case skip
      have "next_such (bit_at ws) (32 * p + sz) (32 * p) = next_such (bit_at ws) (32 * p + sz) (32 * p + 32)"
      proof (rule next_such_skip)
        fix i assume "32 * p \<le> i" "i < 32 * p + 32"
        then obtain j where "i = 32 * p + j" "j < 32" by (elim div32_word)
        then show "\<not> bit_at ws i" using skip by (simp add: bit_at_word)
      qed (use skip in auto)
      moreover have "next_bit_words ws (p + 1) (32 * (p + 1)) (sz - 32) =
          Some (next_such (bit_at ws) (32 * (p + 1) + (sz - 32)) (32 * (p + 1)))"
        using less.prems skip by (intro less.IH) auto
      ultimately show ?thesis using skip w by (simp add: next_bit_words.simps [of ws p] add.commute add.left_commute)
    qed
  qed
qed

lemma next_such_over [simp]: "n \<le> a \<Longrightarrow> next_such P n a = n"
  by (simp add: next_such_def)

lemma find_next_bit_next:
  assumes "n \<le> 32 * length ws"
  shows "find_next_bit ws n a = Some (next_such (bit_at ws) n a)"
proof (cases "n \<le> a")
  case True
  then show ?thesis by (simp add: find_next_bit_def)
next
  case an: False
  let ?p = "a div 32" and ?j = "a mod 32"
  let ?w = "ws ! ?p AND push_bit ?j (- 1)"
  have a: "32 * ?p + ?j = a" "?j < 32" by simp_all
  have p: "?p < length ws" "32 * ?p \<le> n" using an assms a by linarith+
  have rest: "next_bit_words ws q (32 * q) (n - 32 * q) = Some (next_such (bit_at ws) n (32 * q))" if "32 * q \<le> n" for q
    using next_bit_words_next [of q "n - 32 * q" ws] that assms by simp
  have w: "word_at ws ?p = Some (ws ! ?p)" using p by (simp add: word_at_def)
  have bits: "bit ?w j \<longleftrightarrow> ?j \<le> j \<and> bit_at ws (32 * ?p + j)" if "j < 32" for j
    using that upper_mask [of j ?j] by (auto simp: bit_and_iff bit_at_word)
  consider (aligned) "?j = 0" | (last) "?j \<noteq> 0" "n - 32 * ?p < 32" | (hit) "?j \<noteq> 0" "32 \<le> n - 32 * ?p" "?w \<noteq> 0"
    | (skip) "?j \<noteq> 0" "32 \<le> n - 32 * ?p" "?w = 0" by linarith
  then show ?thesis
  proof cases
    case aligned
    then show ?thesis using rest [OF p(2)] an a(1) by (simp add: find_next_bit_def)
  next
    case last
    moreover have "?j \<le> n - 32 * ?p" using an a(1) by linarith
    ultimately show ?thesis
      using found_first_next [OF bits, where sz = "n - 32 * ?p"] an w a p by (simp add: find_next_bit_def)
  next
    case hit
    then show ?thesis using found_middle_next [OF hit(3) bits, of n] an w a by (simp add: find_next_bit_def)
  next
    case skip
    have "next_such (bit_at ws) n a = next_such (bit_at ws) n (32 * (?p + 1))"
    proof (rule next_such_skip)
      fix i assume i: "a \<le> i" "i < 32 * (?p + 1)"
      have "32 * ?p \<le> i" using i(1) a(1) by linarith
      moreover have "i < 32 * ?p + 32" using i(2) by simp
      ultimately obtain j where "i = 32 * ?p + j" "j < 32" by (elim div32_word)
      then show "\<not> bit_at ws i" using bits [of j] skip(3) i a by simp
    next
      show "a \<le> 32 * (?p + 1)" using a by simp
      show "32 * (?p + 1) \<le> n" using skip(2) by simp
    qed
    moreover have "32 * (?p + 1) \<le> n" using skip(2) by simp
    ultimately show ?thesis using rest [of "?p + 1"] skip an w by (simp add: find_next_bit_def add.commute)
  qed
qed

section \<open>Searching for zeros\<close>

lemma shift_complements: "k < 32 \<Longrightarrow> NOT (drop_bit (32 - k) (- 1 :: u32)) = push_bit k (- 1)"
  "k \<le> 32 \<Longrightarrow> NOT (push_bit k (- 1 :: u32)) = drop_bit (32 - k) (- 1)"
  by (rule bit_word_eqI; auto simp: bit_simps)+

lemma word_at_not: "word_at (map (\<lambda>w. NOT w) ws) k = map_option (\<lambda>w. NOT w) (word_at ws k)"
  by (simp add: word_at_def)

lemma not_eq_minus_one: "(w :: u32) = - 1 \<longleftrightarrow> NOT w = 0"
  by (metis bit.compl_one bit.compl_zero bit.double_compl)

lemma found_middle_zero_eq: "found_middle_zero w r = found_middle (NOT w) r"
  by (simp add: found_middle_zero_def found_middle_def ffz_def ffs_word_def)

lemma found_first_zero_eq: "sz \<le> 32 \<Longrightarrow> found_first_zero w r sz = found_first (NOT w) r sz"
  by (simp add: found_first_zero_def found_first_def not_eq_minus_one found_middle_zero_eq shift_complements)

lemma next_zero_words_eq: "next_zero_words ws p r sz = next_bit_words (map (\<lambda>w. NOT w) ws) p r sz"
proof (induction ws p r sz rule: next_zero_words.induct)
  case (1 ws p r sz)
  then show ?case
    by (cases "word_at ws p")
      (simp_all add: next_zero_words.simps [of ws] next_bit_words.simps [of "map _ ws"] word_at_not found_middle_zero_eq found_first_zero_eq)
qed

lemma find_next_zero_bit_eq: "find_next_zero_bit ws n a = find_next_bit (map (\<lambda>w. NOT w) ws) n a"
proof -
  have "a mod 32 < 32" by simp
  then show ?thesis
    by (cases "word_at ws (a div 32)")
      (simp_all add: find_next_zero_bit_def find_next_bit_def word_at_not next_zero_words_eq found_middle_zero_eq found_first_zero_eq
        shift_complements)
qed

lemma bit_at_not: "i < 32 * length ws \<Longrightarrow> bit_at (map (\<lambda>w. NOT w) ws) i = (\<not> bit_at ws i)"
  by (simp add: bit_at_def bit_not_iff less_mult_imp_div_less mult.commute)

lemma next_such_cong: "(\<And>i. i < n \<Longrightarrow> P i = Q i) \<Longrightarrow> next_such P n a = next_such Q n a"
  unfolding next_such_def by (metis (mono_tags, lifting) atLeastLessThan_iff filter_cong set_upt)

lemma find_next_zero_bit_next:
  assumes "n \<le> 32 * length ws"
  shows "find_next_zero_bit ws n a = Some (next_such (\<lambda>i. \<not> bit_at ws i) n a)"
proof -
  have "find_next_zero_bit ws n a = Some (next_such (bit_at (map (\<lambda>w. NOT w) ws)) n a)"
    using find_next_bit_next [of n "map (\<lambda>w. NOT w) ws" a] assms by (simp add: find_next_zero_bit_eq)
  also have "\<dots> = Some (next_such (\<lambda>i. \<not> bit_at ws i) n a)"
    using assms by (auto intro!: next_such_cong simp: bit_at_not)
  finally show ?thesis .
qed

section \<open>The interface\<close>

text \<open>
  What the users of a search rely on: it finds the first index with the property it looks for.  The bits of an array
  that lie behind the given size play no role.
\<close>

locale bit_search =
  fixes search :: "u32 list \<Rightarrow> nat \<Rightarrow> nat \<Rightarrow> nat option"
    and hit :: "u32 list \<Rightarrow> nat \<Rightarrow> bool"
  assumes search_next: "n \<le> 32 * length ws \<Longrightarrow> search ws n a = Some (next_such (hit ws) n a)"
begin

lemma search_none:
  "n \<le> 32 * length ws \<Longrightarrow> a \<le> n \<Longrightarrow> search ws n a = Some n \<longleftrightarrow> (\<forall>i. a \<le> i \<and> i < n \<longrightarrow> \<not> hit ws i)"
  using next_such_props [where a = a and n = n and P = "hit ws"] by (auto simp: search_next intro!: next_suchI)

lemma search_hit:
  "n \<le> 32 * length ws \<Longrightarrow> a \<le> n \<Longrightarrow> search ws n a = Some r \<Longrightarrow> r < n \<Longrightarrow>
    a \<le> r \<and> hit ws r \<and> (\<forall>i. a \<le> i \<and> i < r \<longrightarrow> \<not> hit ws i)"
  using next_such_props [where a = a and n = n and P = "hit ws"] by (auto simp: search_next)

end

interpretation set_bits: bit_search find_next_bit bit_at
  by unfold_locales (rule find_next_bit_next)

interpretation zero_bits: bit_search find_next_zero_bit "\<lambda>ws i. \<not> bit_at ws i"
  by unfold_locales (rule find_next_zero_bit_next)

text \<open>
  \<open>find_first_bit\<close> looks at whole words: it may report a bit behind the size, and without any it returns the size
  rounded up to whole words.
\<close>

lemma first_bit_words_next:
  assumes "32 * k \<le> 32 * length ws" "32 * p \<le> 32 * k" "n \<le> 32 * k" "32 * k < n + 32"
  shows "first_bit_words ws p (32 * p) n = Some (next_such (bit_at ws) (32 * k) (32 * p))"
  using assms(2)
proof (induction "k - p" arbitrary: p)
  case 0
  then show ?case using assms by (simp add: first_bit_words.simps [of ws k])
next
  case (Suc m)
  then have pk: "p < k" by simp
  then have w: "word_at ws p = Some (ws ! p)" and x: "32 * p < n" using assms by (auto simp: word_at_def)
  show ?case
  proof (cases "ws ! p = 0")
    case True
    have "next_such (bit_at ws) (32 * k) (32 * p) = next_such (bit_at ws) (32 * k) (32 * (p + 1))"
    proof (rule next_such_skip)
      fix i assume "32 * p \<le> i" "i < 32 * (p + 1)"
      then obtain j where "i = 32 * p + j" "j < 32" by (elim div32_word) auto
      then show "\<not> bit_at ws i" using True by (simp add: bit_at_word)
    qed (use pk in auto)
    moreover have "first_bit_words ws (p + 1) (32 * (p + 1)) n = Some (next_such (bit_at ws) (32 * k) (32 * (p + 1)))"
      using Suc.hyps(2) pk by (intro Suc.hyps(1)) auto
    ultimately show ?thesis using True w x by (simp add: first_bit_words.simps [of ws p] add.commute)
  next
    case False
    have "found_middle (ws ! p) (32 * p) = next_such (bit_at ws) (32 * k) (32 * p + 0)"
      using pk by (intro found_middle_next [OF False]) (auto simp: bit_at_word)
    then show ?thesis using False w x by (simp add: first_bit_words.simps [of ws p] found_middle_def add.commute)
  qed
qed

lemma find_first_bit_next:
  assumes "n \<le> 32 * length ws"
  shows "find_first_bit ws n = Some (next_such (bit_at ws) (32 * ((n + 31) div 32)) 0)"
  using first_bit_words_next [of "(n + 31) div 32" ws 0 n] assms by (simp add: find_first_bit_def)

section \<open>Setting and clearing\<close>

lemma test_bit_eq: "nr < 32 * length ws \<Longrightarrow> test_bit nr ws = Some (bit_at ws nr)"
proof -
  assume nr: "nr < 32 * length ws"
  have "(push_bit (nr mod 32) (1 :: u32) AND w \<noteq> 0) = bit w (nr mod 32)" for w
    by (simp add: push_bit_of_1 and_exp_eq_0_iff_not_bit and.commute)
  then show ?thesis using nr by (simp add: test_bit_def word_at_def bit_at_def less_mult_imp_div_less mult.commute)
qed

lemma bit_at_update:
  assumes "k < length ws"
  shows "bit_at (ws[k := w]) i = (if i div 32 = k then bit w (i mod 32) else bit_at ws i)"
  using assms by (simp add: bit_at_def nth_list_update)

lemma div_mod_eq: fixes i n :: nat shows "i div 32 = n div 32 \<Longrightarrow> i mod 32 = n mod 32 \<longleftrightarrow> i = n"
  by (metis div_mult_mod_eq)

lemma set_bit_in_bits:
  assumes "nr < 32 * length ws"
  obtains ws' where "set_bit_in nr ws = Some ws'" "length ws' = length ws" "\<And>i. bit_at ws' i \<longleftrightarrow> i = nr \<or> bit_at ws i"
proof -
  have k: "nr div 32 < length ws" using assms by (simp add: less_mult_imp_div_less mult.commute)
  show ?thesis
    by (rule that [of "ws[nr div 32 := ws ! (nr div 32) OR push_bit (nr mod 32) 1]"])
      (use k div_mod_eq in \<open>auto simp: set_bit_in_def word_at_def bit_at_def nth_list_update bit_simps\<close>)
qed

lemma clear_bit_in_bits:
  assumes "nr < 32 * length ws"
  obtains ws' where "clear_bit_in nr ws = Some ws'" "length ws' = length ws" "\<And>i. bit_at ws' i \<longleftrightarrow> i \<noteq> nr \<and> bit_at ws i"
proof -
  have k: "nr div 32 < length ws" using assms by (simp add: less_mult_imp_div_less mult.commute)
  show ?thesis
    by (rule that [of "ws[nr div 32 := ws ! (nr div 32) AND NOT (push_bit (nr mod 32) 1)]"])
      (use k div_mod_eq in \<open>auto simp: clear_bit_in_def word_at_def bit_at_def nth_list_update bit_simps\<close>)
qed

section \<open>Properties\<close>

text \<open>
  Property C13.  \<open>find_next_bit\<close> and \<open>find_next_zero_bit\<close> read no word outside the array and return the first index
  from the offset on whose bit is set or clear, respectively, and the size if there is none, for every size and
  offset, aligned to words or not.
\<close>

theorem find_next_bits_first:
  assumes "n \<le> 32 * length ws" "a \<le> n"
  shows "\<exists>r z. find_next_bit ws n a = Some r \<and> find_next_zero_bit ws n a = Some z \<and>
    a \<le> r \<and> r \<le> n \<and> (r < n \<longrightarrow> bit_at ws r) \<and> (\<forall>i. a \<le> i \<and> i < r \<longrightarrow> \<not> bit_at ws i) \<and>
    a \<le> z \<and> z \<le> n \<and> (z < n \<longrightarrow> \<not> bit_at ws z) \<and> (\<forall>i. a \<le> i \<and> i < z \<longrightarrow> bit_at ws i)"
  using set_bits.search_next [OF assms(1)] zero_bits.search_next [OF assms(1)]
    next_such_props [OF assms(2), where P = "bit_at ws"] next_such_props [OF assms(2), where P = "\<lambda>i. \<not> bit_at ws i"]
  by auto

theorem find_next_bits_first_witness:
  "find_next_bit [0x10, 0, 8] 80 5 = Some 67 \<and> find_next_zero_bit [0x10, 0, 8] 80 4 = Some 5 \<and>
   (\<exists>r. find_next_bit [0x10, 0, 8] 80 5 = Some r \<and> (\<forall>i. 5 \<le> i \<and> i < r \<longrightarrow> \<not> bit_at [0x10, 0, 8] i))"
proof -
  have "find_next_bit [0x10, 0, 8] 80 5 = Some 67" "find_next_zero_bit [0x10, 0, 8] 80 4 = Some 5"
    by code_simp+
  then show ?thesis using find_next_bits_first [of 80 "[0x10, 0, 8]" 5] by auto
qed

end
