(* ===== verification/Bitmap.thy ===== *)
theory Bitmap
  imports Bit_Search
begin

text \<open>
  Bitmaps, \<open>lib/bitmap.c\<close>: tests, logical operations, shifts, the ordinals of set bits and the allocation of aligned
  regions, against the sequence of bits \<open>bit_at\<close>.  The destination of an operation is the list of its words; the
  sources are other arrays, as \<open>const\<close> says.  The text formats of bitmaps are not modelled.
\<close>

section \<open>Loops over words\<close>

definition BITS_TO_LONGS :: "nat \<Rightarrow> nat" where
  "BITS_TO_LONGS bits = (bits + 32 - 1) div 32"

definition LAST_WORD_MASK :: "nat \<Rightarrow> u32" where
  "LAST_WORD_MASK bits = (if bits mod 32 \<noteq> 0 then push_bit (bits mod 32) 1 - 1 else - 1)"

text \<open>The loop that all tests share: \<open>for (k = 0; k < lim; ++k) if (f(k)) return 0;\<close> and the masked last word.\<close>

fun words_zero :: "(nat \<Rightarrow> u32 option) \<Rightarrow> nat \<Rightarrow> nat \<Rightarrow> bool option" where
  "words_zero f 0 k = Some True"
| "words_zero f (Suc n) k = do {
     w \<leftarrow> f k;
     if w \<noteq> 0 then Some False else words_zero f n (k + 1) }"

definition all_zero :: "(nat \<Rightarrow> u32 option) \<Rightarrow> nat \<Rightarrow> bool option" where
  "all_zero f bits = do {
     z \<leftarrow> words_zero f (bits div 32) 0;
     if \<not> z then Some False
     else if bits mod 32 \<noteq> 0 then do {
       w \<leftarrow> f (bits div 32);
       Some (w AND LAST_WORD_MASK bits = 0) }
     else Some True }"

definition word_at2 :: "(u32 \<Rightarrow> u32 \<Rightarrow> u32) \<Rightarrow> u32 list \<Rightarrow> u32 list \<Rightarrow> nat \<Rightarrow> u32 option" where
  "word_at2 f a b k = do {
     x \<leftarrow> word_at a k;
     y \<leftarrow> word_at b k;
     Some (f x y) }"

definition bitmap_empty :: "u32 list \<Rightarrow> nat \<Rightarrow> bool option" where
  "bitmap_empty bitmap bits = all_zero (word_at bitmap) bits"

definition bitmap_full :: "u32 list \<Rightarrow> nat \<Rightarrow> bool option" where
  "bitmap_full bitmap bits = all_zero (\<lambda>k. map_option (\<lambda>w. NOT w) (word_at bitmap k)) bits"

definition bitmap_equal :: "u32 list \<Rightarrow> u32 list \<Rightarrow> nat \<Rightarrow> bool option" where
  "bitmap_equal bitmap1 bitmap2 bits = all_zero (word_at2 (\<lambda>x y. x XOR y) bitmap1 bitmap2) bits"

definition bitmap_intersects :: "u32 list \<Rightarrow> u32 list \<Rightarrow> nat \<Rightarrow> bool option" where
  "bitmap_intersects bitmap1 bitmap2 bits = map_option Not (all_zero (word_at2 (\<lambda>x y. x AND y) bitmap1 bitmap2) bits)"

definition bitmap_subset :: "u32 list \<Rightarrow> u32 list \<Rightarrow> nat \<Rightarrow> bool option" where
  "bitmap_subset bitmap1 bitmap2 bits = all_zero (word_at2 (\<lambda>x y. x AND NOT y) bitmap1 bitmap2) bits"

text \<open>The loop of the operations with a destination: \<open>for (k = 0; k < nr; k++) dst[k] = g(k);\<close>.\<close>

definition store_at :: "u32 list \<Rightarrow> nat \<Rightarrow> u32 \<Rightarrow> u32 list option" where
  "store_at dst k v = (if k < length dst then Some (dst[k := v]) else None)"

fun store_words :: "(nat \<Rightarrow> u32 option) \<Rightarrow> nat \<Rightarrow> nat \<Rightarrow> u32 list \<Rightarrow> u32 list option" where
  "store_words g 0 k dst = Some dst"
| "store_words g (Suc n) k dst = do {
     v \<leftarrow> g k;
     dst \<leftarrow> store_at dst k v;
     store_words g n (k + 1) dst }"

definition bitmap_complement :: "u32 list \<Rightarrow> u32 list \<Rightarrow> nat \<Rightarrow> u32 list option" where
  "bitmap_complement dst src bits = do {
     dst \<leftarrow> store_words (\<lambda>k. map_option (\<lambda>w. NOT w) (word_at src k)) (bits div 32) 0 dst;
     if bits mod 32 \<noteq> 0 then do {
       w \<leftarrow> word_at src (bits div 32);
       store_at dst (bits div 32) (NOT w AND LAST_WORD_MASK bits) }
     else Some dst }"

definition bitmap_and :: "u32 list \<Rightarrow> u32 list \<Rightarrow> u32 list \<Rightarrow> nat \<Rightarrow> u32 list option" where
  "bitmap_and dst bitmap1 bitmap2 bits = store_words (word_at2 (\<lambda>x y. x AND y) bitmap1 bitmap2) (BITS_TO_LONGS bits) 0 dst"

definition bitmap_or :: "u32 list \<Rightarrow> u32 list \<Rightarrow> u32 list \<Rightarrow> nat \<Rightarrow> u32 list option" where
  "bitmap_or dst bitmap1 bitmap2 bits = store_words (word_at2 (\<lambda>x y. x OR y) bitmap1 bitmap2) (BITS_TO_LONGS bits) 0 dst"

definition bitmap_xor :: "u32 list \<Rightarrow> u32 list \<Rightarrow> u32 list \<Rightarrow> nat \<Rightarrow> u32 list option" where
  "bitmap_xor dst bitmap1 bitmap2 bits = store_words (word_at2 (\<lambda>x y. x XOR y) bitmap1 bitmap2) (BITS_TO_LONGS bits) 0 dst"

definition bitmap_andnot :: "u32 list \<Rightarrow> u32 list \<Rightarrow> u32 list \<Rightarrow> nat \<Rightarrow> u32 list option" where
  "bitmap_andnot dst bitmap1 bitmap2 bits =
     store_words (word_at2 (\<lambda>x y. x AND NOT y) bitmap1 bitmap2) (BITS_TO_LONGS bits) 0 dst"

section \<open>Shifts\<close>

text \<open>The word with the bits behind the end of the bitmap cleared, when it is the last one.\<close>

definition clip_last :: "nat \<Rightarrow> nat \<Rightarrow> u32 \<Rightarrow> u32" where
  "clip_last bits k w = (if bits mod 32 \<noteq> 0 \<and> k + 1 = BITS_TO_LONGS bits then w AND (push_bit (bits mod 32) 1 - 1) else w)"

text \<open>A shift by 32 bits happens only to a zero word: the upper part is 0 when \<open>rem\<close> is.\<close>

definition shift_right_word :: "u32 list \<Rightarrow> nat \<Rightarrow> nat \<Rightarrow> nat \<Rightarrow> u32 option" where
  "shift_right_word src shift bits k = do {
     upper \<leftarrow> (if shift mod 32 = 0 \<or> BITS_TO_LONGS bits \<le> shift div 32 + k + 1 then Some 0
       else map_option (clip_last bits (shift div 32 + k + 1)) (word_at src (shift div 32 + k + 1)));
     lower \<leftarrow> map_option (clip_last bits (shift div 32 + k)) (word_at src (shift div 32 + k));
     Some (clip_last bits k (push_bit (32 - shift mod 32) upper OR drop_bit (shift mod 32) lower)) }"

fun zero_words :: "nat \<Rightarrow> nat \<Rightarrow> u32 list \<Rightarrow> u32 list option" where
  "zero_words 0 k dst = Some dst"
| "zero_words (Suc n) k dst = do {
     dst \<leftarrow> store_at dst k 0;
     zero_words n (k + 1) dst }"

definition bitmap_shift_right :: "u32 list \<Rightarrow> u32 list \<Rightarrow> nat \<Rightarrow> nat \<Rightarrow> u32 list option" where
  "bitmap_shift_right dst src shift bits = do {
     dst \<leftarrow> store_words (shift_right_word src shift bits) (BITS_TO_LONGS bits - shift div 32) 0 dst;
     if shift div 32 = 0 then Some dst
     else if BITS_TO_LONGS bits < shift div 32 then None
     else zero_words (shift div 32) (BITS_TO_LONGS bits - shift div 32) dst }"

definition shift_left_word :: "u32 list \<Rightarrow> nat \<Rightarrow> nat \<Rightarrow> nat \<Rightarrow> u32 option" where
  "shift_left_word src shift bits k = do {
     lower \<leftarrow> (if shift mod 32 \<noteq> 0 \<and> 0 < k then word_at src (k - 1) else Some 0);
     upper \<leftarrow> map_option (clip_last bits k) (word_at src k);
     Some (clip_last bits (k + shift div 32) (drop_bit (32 - shift mod 32) lower OR push_bit (shift mod 32) upper)) }"

text \<open>The loop of the left shift goes down from the last word.\<close>

fun store_down :: "(nat \<Rightarrow> u32 option) \<Rightarrow> nat \<Rightarrow> nat \<Rightarrow> u32 list \<Rightarrow> u32 list option" where
  "store_down g off 0 dst = Some dst"
| "store_down g off (Suc k) dst = do {
     v \<leftarrow> g k;
     dst \<leftarrow> store_at dst (k + off) v;
     store_down g off k dst }"

definition bitmap_shift_left :: "u32 list \<Rightarrow> u32 list \<Rightarrow> nat \<Rightarrow> nat \<Rightarrow> u32 list option" where
  "bitmap_shift_left dst src shift bits = do {
     dst \<leftarrow> store_down (shift_left_word src shift bits) (shift div 32) (BITS_TO_LONGS bits - shift div 32) dst;
     zero_words (shift div 32) 0 dst }"

section \<open>Regions\<close>

datatype reg_op_kind = REG_OP_ISFREE | REG_OP_ALLOC | REG_OP_RELEASE

definition region_mask :: "nat \<Rightarrow> nat \<Rightarrow> u32" where
  "region_mask pos order = (let msk = push_bit (min (2 ^ order) 32 - 1) 1 in
     push_bit (pos - pos div 32 * 32) (msk + (msk - 1)))"

fun region_words :: "reg_op_kind \<Rightarrow> u32 \<Rightarrow> nat \<Rightarrow> nat \<Rightarrow> u32 list \<Rightarrow> (bool \<times> u32 list) option" where
  "region_words r msk 0 k bitmap = Some (r = REG_OP_ISFREE, bitmap)"
| "region_words r msk (Suc n) k bitmap = do {
     w \<leftarrow> word_at bitmap k;
     case r of
       REG_OP_ISFREE \<Rightarrow> if w AND msk \<noteq> 0 then Some (False, bitmap) else region_words r msk n (k + 1) bitmap
     | REG_OP_ALLOC \<Rightarrow> region_words r msk n (k + 1) (bitmap[k := w OR msk])
     | REG_OP_RELEASE \<Rightarrow> region_words r msk n (k + 1) (bitmap[k := w AND NOT msk]) }"

definition reg_op :: "u32 list \<Rightarrow> nat \<Rightarrow> nat \<Rightarrow> reg_op_kind \<Rightarrow> (bool \<times> u32 list) option" where
  "reg_op bitmap pos order r = region_words r (region_mask pos order) (BITS_TO_LONGS (2 ^ order)) (pos div 32) bitmap"

function find_free_loop :: "u32 list \<Rightarrow> nat \<Rightarrow> nat \<Rightarrow> nat \<Rightarrow> nat option" where
  "find_free_loop bitmap bits order pos =
     (if pos < bits then do {
        (free, b) \<leftarrow> reg_op bitmap pos order REG_OP_ISFREE;
        if free then Some pos else find_free_loop bitmap bits order (pos + 2 ^ order) }
      else Some pos)"
  by auto
termination
  by (relation "measure (\<lambda>(bitmap, bits, order, pos). bits - pos)") (auto intro: diff_less_mono2)

declare find_free_loop.simps [simp del]

definition bitmap_find_free_region :: "u32 list \<Rightarrow> nat \<Rightarrow> nat \<Rightarrow> (int \<times> u32 list) option" where
  "bitmap_find_free_region bitmap bits order = do {
     pos \<leftarrow> find_free_loop bitmap bits order 0;
     if pos = bits then Some (- ENOMEM, bitmap)
     else do {
       (r, bitmap) \<leftarrow> reg_op bitmap pos order REG_OP_ALLOC;
       Some (int pos, bitmap) } }"

definition bitmap_release_region :: "u32 list \<Rightarrow> nat \<Rightarrow> nat \<Rightarrow> u32 list option" where
  "bitmap_release_region bitmap pos order = map_option snd (reg_op bitmap pos order REG_OP_RELEASE)"

definition bitmap_allocate_region :: "u32 list \<Rightarrow> nat \<Rightarrow> nat \<Rightarrow> (int \<times> u32 list) option" where
  "bitmap_allocate_region bitmap pos order = do {
     (free, b) \<leftarrow> reg_op bitmap pos order REG_OP_ISFREE;
     if \<not> free then Some (- EBUSY, bitmap)
     else do {
       (r, bitmap) \<leftarrow> reg_op bitmap pos order REG_OP_ALLOC;
       Some (0, bitmap) } }"

section \<open>Tests\<close>

lemma bits_to_longs: "BITS_TO_LONGS bits = bits div 32 + (if bits mod 32 = 0 then 0 else 1)"
proof -
  let ?r = "bits mod 32"
  have "bits + 32 - 1 = ?r + 31 + bits div 32 * 32" by simp
  then have "BITS_TO_LONGS bits = bits div 32 + (?r + 31) div 32"
    unfolding BITS_TO_LONGS_def by (metis add.commute div_mult_self1 zero_neq_numeral)
  moreover have "(?r + 31) div 32 = (if ?r = 0 then 0 else 1)"
    using mod_less_divisor [of 32 bits] by (auto intro!: div_nat_eqI)
  ultimately show ?thesis by simp
qed

lemma word_index: "i < bits \<Longrightarrow> i div 32 < BITS_TO_LONGS bits"
proof -
  assume i: "i < bits"
  show ?thesis
  proof (cases "bits mod 32 = 0")
    case True
    then have "bits = bits div 32 * 32" by auto
    then show ?thesis using i True by (metis add.right_neutral bits_to_longs less_mult_imp_div_less)
  next
    case False
    then show ?thesis using i by (simp add: bits_to_longs div_le_mono less_Suc_eq_le)
  qed
qed

lemma last_mask_bit: "j < 32 \<Longrightarrow> bit (LAST_WORD_MASK bits) j \<longleftrightarrow> bits mod 32 = 0 \<or> j < bits mod 32"
  by (auto simp: LAST_WORD_MASK_def push_bit_of_1 bit_simps simp flip: mask_eq_exp_minus_1)

lemma zero_iff_bits: "(w :: u32) = 0 \<longleftrightarrow> (\<forall>j < 32. \<not> bit w j)"
  by (auto intro: bit_word_eqI)

lemma upt_first: "{k..<k + Suc n} = insert k {k + 1..<k + 1 + n}"
  by auto

lemma words_zero_eq:
  assumes "\<And>i. i \<in> {k..<k + n} \<Longrightarrow> f i = Some (g i)"
  shows "words_zero f n k = Some (\<forall>i \<in> {k..<k + n}. g i = 0)"
  using assms
proof (induction n arbitrary: k)
  case (Suc n)
  have "words_zero f n (k + 1) = Some (\<forall>i \<in> {k + 1..<k + 1 + n}. g i = 0)"
    using Suc.prems by (intro Suc.IH) auto
  moreover have "f k = Some (g k)" using Suc.prems by simp
  ultimately show ?case unfolding upt_first by simp
qed simp

lemma full_words_bits: "(\<forall>i < 32 * q. \<not> bit (g (i div 32)) (i mod 32)) \<longleftrightarrow> (\<forall>k < q. g k = (0 :: u32))"
proof (intro iffI allI impI)
  fix k assume a: "\<forall>i < 32 * q. \<not> bit (g (i div 32)) (i mod 32)" and k: "k < q"
  have "\<not> bit (g k) j" if "j < 32" for j
    using a [rule_format, of "32 * k + j"] k that by simp
  then show "g k = 0" by (simp add: zero_iff_bits)
next
  fix i assume "\<forall>k < q. g k = 0" "i < 32 * q"
  then show "\<not> bit (g (i div 32)) (i mod 32)" by (simp add: less_mult_imp_div_less mult.commute)
qed

lemma last_word_index:
  fixes bits i :: nat
  assumes "32 * (bits div 32) \<le> i" "i < bits"
  obtains j where "i = 32 * (bits div 32) + j" "j < bits mod 32" "j < 32"
proof -
  have "bits mod 32 < 32" "32 * (bits div 32) + bits mod 32 = bits" by simp_all
  then show ?thesis using assms by (intro that [of "i - 32 * (bits div 32)"]) linarith+
qed

lemma last_word_bits:
  assumes "bits mod 32 \<noteq> 0"
  shows "(\<forall>i. 32 * (bits div 32) \<le> i \<and> i < bits \<longrightarrow> \<not> bit (g (i div 32)) (i mod 32)) \<longleftrightarrow>
    g (bits div 32) AND LAST_WORD_MASK bits = 0"
proof -
  have r: "j < 32 \<and> 32 * (bits div 32) + j < bits" if "j < bits mod 32" for j
  proof -
    have "bits mod 32 < 32" "32 * (bits div 32) + bits mod 32 = bits" by simp_all
    then show ?thesis using that by linarith
  qed
  have "g (bits div 32) AND LAST_WORD_MASK bits = 0 \<longleftrightarrow> (\<forall>j < bits mod 32. \<not> bit (g (bits div 32)) j)"
    using assms r by (auto simp: zero_iff_bits bit_and_iff last_mask_bit)
  also have "\<dots> \<longleftrightarrow> (\<forall>i. 32 * (bits div 32) \<le> i \<and> i < bits \<longrightarrow> \<not> bit (g (i div 32)) (i mod 32))"
  proof (intro iffI allI impI)
    fix i assume a: "\<forall>j < bits mod 32. \<not> bit (g (bits div 32)) j" and "32 * (bits div 32) \<le> i \<and> i < bits"
    then obtain j where "i = 32 * (bits div 32) + j" "j < bits mod 32" "j < 32" using last_word_index by blast
    then show "\<not> bit (g (i div 32)) (i mod 32)" using a by simp
  next
    fix j assume a: "\<forall>i. 32 * (bits div 32) \<le> i \<and> i < bits \<longrightarrow> \<not> bit (g (i div 32)) (i mod 32)" and "j < bits mod 32"
    then show "\<not> bit (g (bits div 32)) j" using a [rule_format, of "32 * (bits div 32) + j"] r [of j] by simp
  qed
  finally show ?thesis by simp
qed

text \<open>The value of the loop in terms of bits: no bit below \<open>bits\<close> is set in the words it looks at.\<close>

lemma all_zero_eq:
  assumes "\<And>k. k < BITS_TO_LONGS bits \<Longrightarrow> f k = Some (g k)"
  shows "all_zero f bits = Some (\<forall>i < bits. \<not> bit (g (i div 32)) (i mod 32))"
proof -
  let ?q = "bits div 32"
  have wz: "words_zero f ?q 0 = Some (\<forall>k < ?q. g k = 0)"
    using words_zero_eq [of 0 ?q f g] assms by (auto simp: bits_to_longs)
  have "32 * ?q \<le> bits" by simp
  then have split: "(\<forall>i < bits. P i) \<longleftrightarrow> (\<forall>i < 32 * ?q. P i) \<and> (\<forall>i. 32 * ?q \<le> i \<and> i < bits \<longrightarrow> P i)" for P
    by (meson leI less_le_trans)
  show ?thesis
  proof (cases "bits mod 32 = 0")
    case True
    then have "32 * ?q = bits" by auto
    then show ?thesis using True wz full_words_bits [of ?q g] by (simp add: all_zero_def)
  next
    case False
    then have "f ?q = Some (g ?q)" using assms by (simp add: bits_to_longs)
    then show ?thesis unfolding split full_words_bits last_word_bits [OF False] using False wz by (auto simp: all_zero_def)
  qed
qed

lemma longs_bound: "bits \<le> 32 * length ws \<Longrightarrow> BITS_TO_LONGS bits \<le> length ws"
proof -
  assume a: "bits \<le> 32 * length ws"
  have "bits + 32 - 1 < (length ws + 1) * 32" using a by simp
  then have "BITS_TO_LONGS bits < length ws + 1" unfolding BITS_TO_LONGS_def by (rule less_mult_imp_div_less)
  then show ?thesis by simp
qed

lemma word_at_long: "bits \<le> 32 * length ws \<Longrightarrow> k < BITS_TO_LONGS bits \<Longrightarrow> word_at ws k = Some (ws ! k)"
  using longs_bound [of bits ws] by (simp add: word_at_def)

lemma word_at2_long:
  "bits \<le> 32 * length a \<Longrightarrow> bits \<le> 32 * length b \<Longrightarrow> k < BITS_TO_LONGS bits \<Longrightarrow> word_at2 f a b k = Some (f (a ! k) (b ! k))"
  by (simp add: word_at2_def word_at_long)

lemma bitmap_tests:
  assumes "bits \<le> 32 * length a" "bits \<le> 32 * length b"
  shows "bitmap_empty a bits = Some (\<forall>i < bits. \<not> bit_at a i)"
    "bitmap_full a bits = Some (\<forall>i < bits. bit_at a i)"
    "bitmap_equal a b bits = Some (\<forall>i < bits. bit_at a i = bit_at b i)"
    "bitmap_intersects a b bits = Some (\<exists>i < bits. bit_at a i \<and> bit_at b i)"
    "bitmap_subset a b bits = Some (\<forall>i < bits. bit_at a i \<longrightarrow> bit_at b i)"
  unfolding bitmap_empty_def bitmap_full_def bitmap_equal_def bitmap_intersects_def bitmap_subset_def
  using all_zero_eq [of bits "word_at a" "\<lambda>k. a ! k"]
    all_zero_eq [of bits "\<lambda>k. map_option (\<lambda>w. NOT w) (word_at a k)" "\<lambda>k. NOT (a ! k)"]
    all_zero_eq [of bits "word_at2 (\<lambda>x y. x XOR y) a b" "\<lambda>k. a ! k XOR b ! k"]
    all_zero_eq [of bits "word_at2 (\<lambda>x y. x AND y) a b" "\<lambda>k. a ! k AND b ! k"]
    all_zero_eq [of bits "word_at2 (\<lambda>x y. x AND NOT y) a b" "\<lambda>k. a ! k AND NOT (b ! k)"]
  by (simp_all add: word_at_long [OF assms(1)] word_at2_long [OF assms] bit_at_def bit_not_iff bit_xor_iff bit_and_iff)

section \<open>Destinations\<close>

lemma bit_at_store: "k < length ws \<Longrightarrow> bit_at (ws[k := w]) i = (if i div 32 = k then bit w (i mod 32) else bit_at ws i)"
  by (rule bit_at_update)

lemma store_words_ok:
  assumes "\<And>i. i \<in> {k..<k + n} \<Longrightarrow> g i = Some (v i)" "k + n \<le> length dst"
  obtains dst' where "store_words g n k dst = Some dst'" "length dst' = length dst"
    "\<And>i. dst' ! i = (if i \<in> {k..<k + n} then v i else dst ! i)"
  using assms
proof (induction n arbitrary: k dst thesis)
  case 0
  then show ?case by simp
next
  case (Suc n)
  have k: "k < length dst" "g k = Some (v k)" using Suc.prems by auto
  obtain d where d: "store_words g n (k + 1) (dst[k := v k]) = Some d" "length d = length dst"
    "\<And>i. d ! i = (if i \<in> {k + 1..<k + 1 + n} then v i else dst[k := v k] ! i)"
    by (rule Suc.IH [of "k + 1" "dst[k := v k]"]) (use Suc.prems in auto)
  show ?case
    by (rule Suc.prems(1) [of d]) (use k d in \<open>auto simp: store_at_def nth_list_update\<close>)
qed

lemma zero_words_ok:
  assumes "k + n \<le> length dst"
  obtains dst' where "zero_words n k dst = Some dst'" "length dst' = length dst"
    "\<And>i. dst' ! i = (if i \<in> {k..<k + n} then 0 else dst ! i)"
proof -
  have "zero_words n k dst = store_words (\<lambda>_. Some 0) n k dst" by (induction n k dst rule: zero_words.induct) (auto simp: store_at_def)
  then show ?thesis using store_words_ok [of k n "\<lambda>_. Some 0" "\<lambda>_. 0" dst] assms that by auto
qed

lemma store_down_ok:
  assumes "\<And>i. i < k \<Longrightarrow> g i = Some (v i)" "k + off \<le> length dst"
  obtains dst' where "store_down g off k dst = Some dst'" "length dst' = length dst"
    "\<And>i. dst' ! i = (if off \<le> i \<and> i < k + off then v (i - off) else dst ! i)"
  using assms
proof (induction k arbitrary: dst thesis)
  case 0
  show ?case by (rule 0(1) [of dst]) auto
next
  case (Suc k)
  obtain d where d: "store_down g off k (dst[k + off := v k]) = Some d" "length d = length dst"
    "\<And>i. d ! i = (if off \<le> i \<and> i < k + off then v (i - off) else dst[k + off := v k] ! i)"
    by (rule Suc.IH [of "dst[k + off := v k]"]) (use Suc.prems in auto)
  show ?case
    by (rule Suc.prems(1) [of d]) (use Suc.prems(2,3) d in \<open>auto simp: store_at_def nth_list_update\<close>)
qed

text \<open>A logical operation works bit by bit on the words that hold the bitmap and leaves the others alone.\<close>

lemma store_words_bits:
  assumes "bits \<le> 32 * length a" "bits \<le> 32 * length b" "bits \<le> 32 * length dst"
    and "\<And>x y j. bit (f x y) j \<longleftrightarrow> P (bit x j) (bit y j)"
  shows "\<exists>dst'. store_words (word_at2 f a b) (BITS_TO_LONGS bits) 0 dst = Some dst' \<and> length dst' = length dst \<and>
    (\<forall>i < bits. bit_at dst' i = P (bit_at a i) (bit_at b i)) \<and>
    (\<forall>i \<ge> 32 * BITS_TO_LONGS bits. bit_at dst' i = bit_at dst i)"
proof -
  obtain d where d: "store_words (word_at2 f a b) (BITS_TO_LONGS bits) 0 dst = Some d" "length d = length dst"
    "\<And>i. d ! i = (if i \<in> {0..<0 + BITS_TO_LONGS bits} then f (a ! i) (b ! i) else dst ! i)"
    by (rule store_words_ok [of 0 "BITS_TO_LONGS bits" "word_at2 f a b" "\<lambda>k. f (a ! k) (b ! k)" dst])
      (use word_at2_long [OF assms(1,2)] longs_bound [OF assms(3)] in auto)
  have "\<not> i div 32 < BITS_TO_LONGS bits" if "32 * BITS_TO_LONGS bits \<le> i" for i
    using that by (simp add: not_less less_eq_div_iff_mult_less_eq mult.commute)
  then show ?thesis using d word_index by (auto simp: bit_at_def assms(4))
qed

lemma bits_le_longs: "bits \<le> 32 * BITS_TO_LONGS bits"
proof -
  have "bits = 32 * (bits div 32) + bits mod 32" "bits mod 32 < 32" by simp_all
  then show ?thesis by (cases "bits mod 32 = 0") (simp_all add: bits_to_longs)
qed

lemma clip_last_bit:
  assumes "k < BITS_TO_LONGS bits" "j < 32"
  shows "bit (clip_last bits k w) j \<longleftrightarrow> bit w j \<and> 32 * k + j < bits"
proof (cases "bits mod 32 \<noteq> 0 \<and> k + 1 = BITS_TO_LONGS bits")
  case True
  then have k: "k = bits div 32" by (auto simp: bits_to_longs)
  have "32 * k + j < bits \<longleftrightarrow> j < bits mod 32" using mult_div_mod_eq [of 32 bits] unfolding k by linarith
  moreover have "bit (push_bit (bits mod 32) 1 - 1 :: u32) j \<longleftrightarrow> j < bits mod 32"
    using assms(2) by (auto simp: push_bit_of_1 bit_simps simp flip: mask_eq_exp_minus_1)
  ultimately show ?thesis using True by (auto simp: clip_last_def bit_and_iff)
next
  case False
  then have "k + 1 \<le> bits div 32" using assms(1) by (auto simp: bits_to_longs split: if_splits)
  then have "32 * (k + 1) \<le> bits" by (rule order_trans [OF mult_le_mono2 times_div_less_eq_dividend])
  then show ?thesis using False assms(2) by (auto simp: clip_last_def)
qed

lemma shift_index: "(32 * k + j + shift) = 32 * (shift div 32 + k) + (j + shift mod 32)" for k j shift :: nat
  using mult_div_mod_eq [of 32 shift] by (simp add: algebra_simps)

lemma shift_right_word_bits:
  assumes "bits \<le> 32 * length src" "shift div 32 + k < BITS_TO_LONGS bits"
  obtains v where "shift_right_word src shift bits k = Some v"
    "\<And>j. j < 32 \<Longrightarrow> bit v j \<longleftrightarrow> 32 * k + j + shift < bits \<and> bit_at src (32 * k + j + shift)"
proof -
  let ?o = "shift div 32 + k" and ?r = "shift mod 32"
  let ?u = "if ?r = 0 \<or> BITS_TO_LONGS bits \<le> ?o + 1 then 0 else clip_last bits (?o + 1) (src ! (?o + 1))"
  let ?l = "clip_last bits ?o (src ! ?o)"
  let ?v = "push_bit (32 - ?r) ?u OR drop_bit ?r ?l"
  have run: "shift_right_word src shift bits k = Some (clip_last bits k ?v)"
    using word_at_long [OF assms(1)] assms(2) by (simp add: shift_right_word_def)
  have "bit (clip_last bits k ?v) j \<longleftrightarrow> 32 * k + j + shift < bits \<and> bit_at src (32 * k + j + shift)" if j: "j < 32" for j
  proof (cases "j + ?r < 32")
    case True
    have "bit ?v j \<longleftrightarrow> bit ?l (j + ?r)" using True j by (auto simp: bit_simps add.commute)
    also have "\<dots> \<longleftrightarrow> 32 * ?o + (j + ?r) < bits \<and> bit_at src (32 * ?o + (j + ?r))"
      using clip_last_bit [OF assms(2) True] bit_at_word [OF True, of src ?o] by auto
    finally show ?thesis using clip_last_bit [of k bits j ?v] assms(2) j unfolding shift_index by auto
  next
    case False
    then have r: "?r \<noteq> 0" "j + ?r - 32 < 32" "j - (32 - ?r) = j + ?r - 32" "32 - ?r \<le> j" using j by auto
    have i: "32 * ?o + (j + ?r) = 32 * (?o + 1) + (j + ?r - 32)" using False by simp
    have "\<not> bit (drop_bit ?r ?l) j" using False by (auto simp: bit_simps dest: bit_imp_le_length)
    then have "bit ?v j \<longleftrightarrow> bit ?u (j + ?r - 32)" using r j by (auto simp: bit_simps)
    also have "\<dots> \<longleftrightarrow> 32 * (?o + 1) + (j + ?r - 32) < bits \<and> bit_at src (32 * (?o + 1) + (j + ?r - 32))"
    proof (cases "BITS_TO_LONGS bits \<le> ?o + 1")
      case True
      then have "32 * BITS_TO_LONGS bits \<le> 32 * (?o + 1)" by (rule mult_le_mono2)
      then show ?thesis using True bits_le_longs [of bits] by simp
    next
      case False
      then show ?thesis using r clip_last_bit [of "?o + 1" bits "j + ?r - 32"] bit_at_word [OF r(2), of src "?o + 1"] by auto
    qed
    finally show ?thesis using clip_last_bit [of k bits j ?v] assms(2) j unfolding shift_index i by auto
  qed
  then show ?thesis using run that by blast
qed

lemma bitmap_shift_right_ok:
  assumes "bits \<le> 32 * length src" "bits \<le> 32 * length dst" "shift div 32 \<le> BITS_TO_LONGS bits"
  obtains dst' where "bitmap_shift_right dst src shift bits = Some dst'" "length dst' = length dst"
    "\<And>i. i < 32 * BITS_TO_LONGS bits \<Longrightarrow> bit_at dst' i \<longleftrightarrow> i + shift < bits \<and> bit_at src (i + shift)"
    "\<And>i. 32 * BITS_TO_LONGS bits \<le> i \<Longrightarrow> bit_at dst' i = bit_at dst i"
proof -
  let ?n = "BITS_TO_LONGS bits" and ?o = "shift div 32"
  define v where "v k = the (shift_right_word src shift bits k)" for k
  have "shift_right_word src shift bits k = Some (v k) \<and>
    (\<forall>j < 32. bit (v k) j \<longleftrightarrow> 32 * k + j + shift < bits \<and> bit_at src (32 * k + j + shift))" if "k < ?n - ?o" for k
    by (rule shift_right_word_bits [OF assms(1), of shift k]) (use that in \<open>auto simp: v_def\<close>)
  then have w: "\<And>k. k < ?n - ?o \<Longrightarrow> shift_right_word src shift bits k = Some (v k)"
    "\<And>k j. k < ?n - ?o \<Longrightarrow> j < 32 \<Longrightarrow> bit (v k) j \<longleftrightarrow> 32 * k + j + shift < bits \<and> bit_at src (32 * k + j + shift)" by auto
  obtain d where d: "store_words (shift_right_word src shift bits) (?n - ?o) 0 dst = Some d" "length d = length dst"
    "\<And>i. d ! i = (if i \<in> {0..<0 + (?n - ?o)} then v i else dst ! i)"
    by (rule store_words_ok [of 0 "?n - ?o" "shift_right_word src shift bits" v dst])
      (use w(1) longs_bound [OF assms(2)] in auto)
  obtain e where e: "zero_words ?o (?n - ?o) d = Some e" "length e = length dst"
    "\<And>i. e ! i = (if i \<in> {?n - ?o..<?n - ?o + ?o} then 0 else d ! i)"
    using zero_words_ok [of "?n - ?o" ?o d] d(2) assms(3) longs_bound [OF assms(2)] by auto
  have run: "bitmap_shift_right dst src shift bits = Some e"
  proof (cases "?o = 0")
    case True
    then have "d = e" using e(1) by simp
    then show ?thesis using d(1) True by (simp add: bitmap_shift_right_def)
  next
    case False
    then show ?thesis using d(1) e(1) assms(3) by (simp add: bitmap_shift_right_def)
  qed
  have low: "bit_at e i \<longleftrightarrow> i + shift < bits \<and> bit_at src (i + shift)" if i: "i < 32 * ?n" for i
  proof (cases "i div 32 < ?n - ?o")
    case True
    then have "e ! (i div 32) = v (i div 32)" using d(3) e(3) by simp
    then show ?thesis using w(2) [OF True, of "i mod 32"] by (simp add: bit_at_def mult_div_mod_eq)
  next
    case False
    have "i div 32 < ?n" using i by (simp add: less_mult_imp_div_less mult.commute)
    then have "e ! (i div 32) = 0" using False e(3) assms(3) by simp
    moreover have "32 * (?n - ?o) \<le> i"
      using False by (simp add: not_less less_eq_div_iff_mult_less_eq mult.commute)
    then have "32 * ?n \<le> i + 32 * ?o" using assms(3) by (simp add: diff_mult_distrib2)
    then have "bits \<le> i + shift" using bits_le_longs [of bits] times_div_less_eq_dividend [of 32 shift] by linarith
    ultimately show ?thesis by (simp add: bit_at_def)
  qed
  have "bit_at e i = bit_at dst i" if "32 * ?n \<le> i" for i
  proof -
    have "?n \<le> i div 32" using that by (simp add: less_eq_div_iff_mult_less_eq mult.commute)
    then have "e ! (i div 32) = dst ! (i div 32)" using d(3) [of "i div 32"] e(3) [of "i div 32"] assms(3) by auto
    then show ?thesis by (simp add: bit_at_def)
  qed
  with run e(2) low show ?thesis by (rule that)
qed

lemma shift_left_word_bits:
  assumes "bits \<le> 32 * length src" "k + shift div 32 < BITS_TO_LONGS bits"
  obtains v where "shift_left_word src shift bits k = Some v"
    "\<And>j. j < 32 \<Longrightarrow> bit v j \<longleftrightarrow> 32 * (k + shift div 32) + j < bits \<and> shift \<le> 32 * (k + shift div 32) + j \<and>
       bit_at src (32 * (k + shift div 32) + j - shift)"
proof -
  define q r where q: "q = shift div 32" and r: "r = shift mod 32"
  let ?o = "k + q" and ?r = r
  let ?l = "if ?r \<noteq> 0 \<and> 0 < k then src ! (k - 1) else 0"
  let ?u = "clip_last bits k (src ! k)"
  let ?v = "drop_bit (32 - ?r) ?l OR push_bit ?r ?u"
  have kn: "k < BITS_TO_LONGS bits" using assms(2) by simp
  have sh: "r < 32" "shift = 32 * q + r" by (simp_all add: q r)
  note on = assms(2) [folded q]
  have run: "shift_left_word src shift bits k = Some (clip_last bits ?o ?v)"
    using word_at_long [OF assms(1)] kn by (simp add: shift_left_word_def q r)
  have "bit (clip_last bits ?o ?v) j \<longleftrightarrow> 32 * ?o + j < bits \<and> shift \<le> 32 * ?o + j \<and> bit_at src (32 * ?o + j - shift)"
    if j: "j < 32" for j
  proof (cases "?r \<le> j")
    case True
    have "\<not> bit (drop_bit (32 - ?r) ?l) j" using True sh(1) by (auto simp: bit_simps dest: bit_imp_le_length)
    then have "bit ?v j \<longleftrightarrow> bit ?u (j - ?r)" using True j by (auto simp: bit_simps)
    moreover have "bit ?u (j - ?r) \<longleftrightarrow> bit_at src (32 * k + (j - ?r)) \<and> 32 * k + (j - ?r) < bits"
      using clip_last_bit [OF kn, of "j - ?r"] bit_at_word [of "j - ?r" src k] j by simp
    moreover have "32 * ?o + j - shift = 32 * k + (j - ?r)" "shift \<le> 32 * ?o + j" using True sh(2) by auto
    ultimately show ?thesis using clip_last_bit [OF on j, of ?v] by auto
  next
    case False
    then have s: "\<not> bit (push_bit ?r ?u) j" by (auto simp: bit_simps)
    show ?thesis
    proof (cases "k = 0")
      case True
      then show ?thesis using s False clip_last_bit [OF on j, of ?v] sh(2) by (auto simp: bit_simps)
    next
      case k: False
      have j': "32 - ?r + j < 32" using False sh(1) by linarith
      have "bit ?v j \<longleftrightarrow> bit (src ! (k - 1)) (32 - ?r + j)" using s k False j by (auto simp: bit_simps)
      moreover have "32 * ?o + j - shift = 32 * (k - 1) + (32 - ?r + j)" "shift \<le> 32 * ?o + j"
        using False k sh by (cases k; simp)+
      ultimately show ?thesis
        using clip_last_bit [OF on j, of ?v] bit_at_word [OF j', of src "k - 1"] by auto
    qed
  qed
  then show ?thesis using run that unfolding q by blast
qed

lemma bitmap_shift_left_ok:
  assumes "bits \<le> 32 * length src" "bits \<le> 32 * length dst" "shift div 32 \<le> BITS_TO_LONGS bits"
  obtains dst' where "bitmap_shift_left dst src shift bits = Some dst'" "length dst' = length dst"
    "\<And>i. i < 32 * BITS_TO_LONGS bits \<Longrightarrow> bit_at dst' i \<longleftrightarrow> i < bits \<and> shift \<le> i \<and> bit_at src (i - shift)"
    "\<And>i. 32 * BITS_TO_LONGS bits \<le> i \<Longrightarrow> bit_at dst' i = bit_at dst i"
proof -
  let ?n = "BITS_TO_LONGS bits" and ?o = "shift div 32"
  define v where "v k = the (shift_left_word src shift bits k)" for k
  have "shift_left_word src shift bits k = Some (v k) \<and>
    (\<forall>j < 32. bit (v k) j \<longleftrightarrow> 32 * (k + ?o) + j < bits \<and> shift \<le> 32 * (k + ?o) + j \<and> bit_at src (32 * (k + ?o) + j - shift))"
    if "k < ?n - ?o" for k
    by (rule shift_left_word_bits [OF assms(1), of k shift]) (use that in \<open>auto simp: v_def\<close>)
  then have w: "\<And>k. k < ?n - ?o \<Longrightarrow> shift_left_word src shift bits k = Some (v k)"
    "\<And>k j. k < ?n - ?o \<Longrightarrow> j < 32 \<Longrightarrow> bit (v k) j \<longleftrightarrow>
      32 * (k + ?o) + j < bits \<and> shift \<le> 32 * (k + ?o) + j \<and> bit_at src (32 * (k + ?o) + j - shift)" by auto
  obtain d where d: "store_down (shift_left_word src shift bits) ?o (?n - ?o) dst = Some d" "length d = length dst"
    "\<And>i. d ! i = (if ?o \<le> i \<and> i < ?n - ?o + ?o then v (i - ?o) else dst ! i)"
    by (rule store_down_ok [of "?n - ?o" "shift_left_word src shift bits" v ?o dst])
      (use w(1) longs_bound [OF assms(2)] assms(3) in auto)
  obtain e where e: "zero_words ?o 0 d = Some e" "length e = length dst"
    "\<And>i. e ! i = (if i \<in> {0..<0 + ?o} then 0 else d ! i)"
    using zero_words_ok [of 0 ?o d] d(2) assms(3) longs_bound [OF assms(2)] by auto
  have run: "bitmap_shift_left dst src shift bits = Some e" using d(1) e(1) by (simp add: bitmap_shift_left_def)
  have low: "bit_at e i \<longleftrightarrow> i < bits \<and> shift \<le> i \<and> bit_at src (i - shift)" if i: "i < 32 * ?n" for i
  proof (cases "i div 32 < ?o")
    case True
    then have "i < 32 * ?o" by (simp add: div_less_iff_less_mult mult.commute)
    then have "i < shift" using times_div_less_eq_dividend [of 32 shift] by linarith
    then show ?thesis using True e(3) by (simp add: bit_at_def)
  next
    case False
    have "i div 32 < ?n" using i by (simp add: less_mult_imp_div_less mult.commute)
    then have "e ! (i div 32) = v (i div 32 - ?o)" "i div 32 - ?o < ?n - ?o" "i div 32 - ?o + ?o = i div 32"
      using False d(3) e(3) by auto
    then show ?thesis using w(2) [of "i div 32 - ?o" "i mod 32"] by (simp add: bit_at_def mult_div_mod_eq)
  qed
  have "bit_at e i = bit_at dst i" if "32 * ?n \<le> i" for i
  proof -
    have "?n \<le> i div 32" using that by (simp add: less_eq_div_iff_mult_less_eq mult.commute)
    then have "e ! (i div 32) = dst ! (i div 32)" using d(3) [of "i div 32"] e(3) [of "i div 32"] assms(3) by auto
    then show ?thesis by (simp add: bit_at_def)
  qed
  with run e(2) low show ?thesis by (rule that)
qed

section \<open>Regions\<close>

text \<open>A region is aligned to its size: it is a part of one word, or consists of whole words.\<close>

lemma aligned_word:
  assumes "order < 5" "2 ^ order dvd (pos :: nat)"
  shows "pos mod 32 + 2 ^ order \<le> 32"
proof -
  have "(2 :: nat) ^ order dvd 32" using le_imp_power_dvd [of order 5 "2 :: nat"] assms(1) by simp
  then obtain b where b: "32 = (2 :: nat) ^ order * b" by (elim dvdE)
  have "2 ^ order dvd pos mod 32" using assms(2) \<open>2 ^ order dvd 32\<close> by (simp add: dvd_mod)
  then obtain a where a: "pos mod 32 = 2 ^ order * a" by (elim dvdE)
  have "(2 :: nat) ^ order * a < 2 ^ order * b" using mod_less_divisor [of 32 pos] unfolding a [symmetric] b [symmetric] by simp
  then have "Suc a \<le> b" by simp
  then have "2 ^ order * Suc a \<le> (2 :: nat) ^ order * b" by (rule mult_le_mono2)
  then show ?thesis unfolding a b [symmetric] by simp
qed

lemma region_mask_bit:
  assumes "2 ^ order dvd pos" "j < 32"
  shows "bit (region_mask pos order) j \<longleftrightarrow> (if order < 5 then pos mod 32 \<le> j \<and> j < pos mod 32 + 2 ^ order else True)"
proof -
  have m: "region_mask pos order = push_bit (pos mod 32) (mask (min (2 ^ order) 32))"
  proof -
    have "min (2 ^ order) 32 - 1 + 1 = (min (2 ^ order) 32 :: nat)" by (simp add: min_def)
    moreover have "push_bit k (1 :: u32) + (push_bit k 1 - 1) = mask (k + 1)" for k
      by (simp add: mask_eq_exp_minus_1 push_bit_of_1)
    moreover have "pos - pos div 32 * 32 = pos mod 32" by (simp add: minus_div_mult_eq_mod)
    ultimately show ?thesis unfolding region_mask_def Let_def by simp
  qed
  show ?thesis
  proof (cases "order < 5")
    case True
    then have "(2 :: nat) ^ order < 2 ^ 5" by (rule power_strict_increasing) simp
    then have "min (2 ^ order) 32 = (2 ^ order :: nat)" by simp
    then show ?thesis using True assms(2) by (auto simp: m bit_simps)
  next
    case False
    then have "(2 :: nat) ^ 5 dvd 2 ^ order" by (intro le_imp_power_dvd) simp
    then have "(32 :: nat) dvd pos" "min (2 ^ order) 32 = (32 :: nat)"
      using assms(1) dvd_imp_le [of "32 :: nat" "2 ^ order"] by (auto intro: dvd_trans)
    then show ?thesis using False assms(2) by (auto simp: m bit_simps)
  qed
qed

lemma region_longs: "BITS_TO_LONGS (2 ^ order) = (if order < 5 then 1 else 2 ^ (order - 5))"
proof (cases "order < 5")
  case True
  then have "(2 :: nat) ^ order < 2 ^ 5" by (rule power_strict_increasing) simp
  then show ?thesis using True by (simp add: bits_to_longs)
next
  case False
  then have "(2 :: nat) ^ order = 32 * 2 ^ (order - 5)" using power_add [of "2 :: nat" 5 "order - 5"] by simp
  then show ?thesis using False by (simp add: bits_to_longs)
qed

lemma region_index:
  assumes "2 ^ order dvd pos"
  shows "pos \<le> i \<and> i < pos + 2 ^ order \<longleftrightarrow>
    i div 32 \<in> {pos div 32..<pos div 32 + BITS_TO_LONGS (2 ^ order)} \<and> bit (region_mask pos order) (i mod 32)"
proof (cases "order < 5")
  case True
  define q r a b where d: "q = pos div 32" "r = pos mod 32" "a = i div 32" "b = i mod 32"
  have e: "pos = 32 * q + r" "i = 32 * a + b" "b < 32" "r + 2 ^ order \<le> 32"
    using aligned_word [OF True assms] by (simp_all add: d)
  have "pos \<le> i \<and> i < pos + 2 ^ order \<longleftrightarrow> a = q \<and> r \<le> b \<and> b < r + 2 ^ order"
  proof
    assume "pos \<le> i \<and> i < pos + 2 ^ order"
    then have "32 * q + r \<le> 32 * a + b" "32 * a + b < 32 * q + r + 2 ^ order" by (simp_all add: e(1,2))
    with e(3,4) have "q = a" by linarith
    then show "a = q \<and> r \<le> b \<and> b < r + 2 ^ order" using \<open>32 * q + r \<le> 32 * a + b\<close> \<open>32 * a + b < 32 * q + r + 2 ^ order\<close> by simp
  qed (simp add: e(1,2))
  then show ?thesis using True region_mask_bit [OF assms, of "i mod 32"] by (auto simp: region_longs d)
next
  case False
  then have p: "(2 :: nat) ^ order = 32 * 2 ^ (order - 5)" using power_add [of "2 :: nat" 5 "order - 5"] by simp
  then have "32 dvd pos" using assms by (metis dvd_mult_left)
  then obtain q where q: "pos = 32 * q" by (elim dvdE)
  define a b where d: "a = i div 32" "b = i mod 32"
  have i: "i = 32 * a + b" "b < 32" by (simp_all add: d)
  have "pos \<le> i \<and> i < pos + 2 ^ order \<longleftrightarrow> q \<le> a \<and> a < q + 2 ^ (order - 5)"
    unfolding q p using i by (auto simp del: mult_le_cancel1)
  then show ?thesis using False region_mask_bit [OF assms, of "i mod 32"] q by (auto simp: region_longs d)
qed

lemma region_words_alloc:
  assumes "k + n \<le> length bitmap"
  obtains b where "region_words REG_OP_ALLOC m n k bitmap = Some (False, b)" "length b = length bitmap"
    "\<And>i. b ! i = (if i \<in> {k..<k + n} then bitmap ! i OR m else bitmap ! i)"
  using assms
proof (induction n arbitrary: k bitmap thesis)
  case 0
  then show ?case by simp
next
  case (Suc n)
  obtain b where b: "region_words REG_OP_ALLOC m n (k + 1) (bitmap[k := bitmap ! k OR m]) = Some (False, b)"
    "length b = length bitmap"
    "\<And>i. b ! i = (if i \<in> {k + 1..<k + 1 + n} then bitmap[k := bitmap ! k OR m] ! i OR m else bitmap[k := bitmap ! k OR m] ! i)"
    by (rule Suc.IH [of "k + 1" "bitmap[k := bitmap ! k OR m]"]) (use Suc.prems in auto)
  show ?case
    by (rule Suc.prems(1) [of b]) (use Suc.prems(2) b in \<open>auto simp: word_at_def nth_list_update\<close>)
qed

lemma region_words_release:
  assumes "k + n \<le> length bitmap"
  obtains b where "region_words REG_OP_RELEASE m n k bitmap = Some (False, b)" "length b = length bitmap"
    "\<And>i. b ! i = (if i \<in> {k..<k + n} then bitmap ! i AND NOT m else bitmap ! i)"
  using assms
proof (induction n arbitrary: k bitmap thesis)
  case 0
  then show ?case by simp
next
  case (Suc n)
  obtain b where b: "region_words REG_OP_RELEASE m n (k + 1) (bitmap[k := bitmap ! k AND NOT m]) = Some (False, b)"
    "length b = length bitmap"
    "\<And>i. b ! i = (if i \<in> {k + 1..<k + 1 + n} then bitmap[k := bitmap ! k AND NOT m] ! i AND NOT m else bitmap[k := bitmap ! k AND NOT m] ! i)"
    by (rule Suc.IH [of "k + 1" "bitmap[k := bitmap ! k AND NOT m]"]) (use Suc.prems in auto)
  show ?case
    by (rule Suc.prems(1) [of b]) (use Suc.prems(2) b in \<open>auto simp: word_at_def nth_list_update\<close>)
qed

lemma region_words_isfree:
  assumes "k + n \<le> length bitmap"
  shows "region_words REG_OP_ISFREE m n k bitmap = Some (\<forall>i \<in> {k..<k + n}. bitmap ! i AND m = 0, bitmap)"
  using assms
proof (induction n arbitrary: k)
  case (Suc n)
  then show ?case unfolding upt_first using Suc.IH [of "k + 1"] Suc.prems by (simp add: word_at_def)
qed simp

definition in_region :: "nat \<Rightarrow> nat \<Rightarrow> nat \<Rightarrow> bool" where
  "in_region pos order i \<longleftrightarrow> pos \<le> i \<and> i < pos + 2 ^ order"

definition region_free :: "u32 list \<Rightarrow> nat \<Rightarrow> nat \<Rightarrow> bool" where
  "region_free bitmap pos order \<longleftrightarrow> (\<forall>i. in_region pos order i \<longrightarrow> \<not> bit_at bitmap i)"

lemma region_fits:
  assumes "2 ^ order dvd pos" "pos + 2 ^ order \<le> 32 * length bitmap"
  shows "pos div 32 + BITS_TO_LONGS (2 ^ order) \<le> length bitmap"
proof (cases "order < 5")
  case True
  have "pos < length bitmap * 32" using assms(2) zero_less_power [of "2 :: nat" order] by linarith
  then have "pos div 32 < length bitmap" by (rule less_mult_imp_div_less)
  then show ?thesis using True by (simp add: region_longs)
next
  case False
  then have p: "(2 :: nat) ^ order = 32 * 2 ^ (order - 5)" using power_add [of "2 :: nat" 5 "order - 5"] by simp
  then have "32 dvd pos" using assms(1) by (metis dvd_mult_left)
  then obtain q where q: "pos = 32 * q" by (elim dvdE)
  then have "32 * (q + 2 ^ (order - 5)) \<le> 32 * length bitmap" using assms(2) p by simp
  then show ?thesis using False q by (simp add: region_longs)
qed

lemma reg_op_isfree:
  assumes "2 ^ order dvd pos" "pos + 2 ^ order \<le> 32 * length bitmap"
  shows "reg_op bitmap pos order REG_OP_ISFREE = Some (region_free bitmap pos order, bitmap)"
proof -
  let ?W = "{pos div 32..<pos div 32 + BITS_TO_LONGS (2 ^ order)}" and ?m = "region_mask pos order"
  have "(\<forall>k \<in> ?W. bitmap ! k AND ?m = 0) \<longleftrightarrow> region_free bitmap pos order"
  proof
    assume a: "\<forall>k \<in> ?W. bitmap ! k AND ?m = 0"
    show "region_free bitmap pos order" unfolding region_free_def in_region_def region_index [OF assms(1)] bit_at_def
      using a by (metis bit_0_eq bit_and_iff bot_apply bot_bool_def)
  next
    assume a: "region_free bitmap pos order"
    have "\<not> bit (bitmap ! k AND ?m) j" if "k \<in> ?W" "j < 32" for k j
      using a [unfolded region_free_def in_region_def region_index [OF assms(1)], rule_format, of "32 * k + j"] that
      by (auto simp: bit_at_def bit_and_iff)
    then show "\<forall>k \<in> ?W. bitmap ! k AND ?m = 0" by (simp add: zero_iff_bits)
  qed
  then show ?thesis unfolding reg_op_def region_words_isfree [OF region_fits [OF assms]] by simp
qed

lemma reg_op_alloc:
  assumes "2 ^ order dvd pos" "pos + 2 ^ order \<le> 32 * length bitmap"
  obtains b where "reg_op bitmap pos order REG_OP_ALLOC = Some (False, b)" "length b = length bitmap"
    "\<And>i. bit_at b i \<longleftrightarrow> bit_at bitmap i \<or> in_region pos order i"
proof -
  obtain b where b: "region_words REG_OP_ALLOC (region_mask pos order) (BITS_TO_LONGS (2 ^ order)) (pos div 32) bitmap = Some (False, b)"
    "length b = length bitmap"
    "\<And>i. b ! i = (if i \<in> {pos div 32..<pos div 32 + BITS_TO_LONGS (2 ^ order)} then bitmap ! i OR region_mask pos order else bitmap ! i)"
    by (rule region_words_alloc [OF region_fits [OF assms], where m = "region_mask pos order"]) (rule that)
  have "bit_at b i \<longleftrightarrow> bit_at bitmap i \<or> in_region pos order i" for i
    unfolding in_region_def region_index [OF assms(1)] bit_at_def b(3) [of "i div 32"] by (auto simp: bit_or_iff)
  with b(1,2) show ?thesis by (intro that [of b]) (simp_all add: reg_op_def)
qed

lemma reg_op_release:
  assumes "2 ^ order dvd pos" "pos + 2 ^ order \<le> 32 * length bitmap"
  obtains b where "reg_op bitmap pos order REG_OP_RELEASE = Some (False, b)" "length b = length bitmap"
    "\<And>i. bit_at b i \<longleftrightarrow> bit_at bitmap i \<and> \<not> in_region pos order i"
proof -
  obtain b where b: "region_words REG_OP_RELEASE (region_mask pos order) (BITS_TO_LONGS (2 ^ order)) (pos div 32) bitmap = Some (False, b)"
    "length b = length bitmap"
    "\<And>i. b ! i = (if i \<in> {pos div 32..<pos div 32 + BITS_TO_LONGS (2 ^ order)} then bitmap ! i AND NOT (region_mask pos order) else bitmap ! i)"
    by (rule region_words_release [OF region_fits [OF assms], where m = "region_mask pos order"]) (rule that)
  have "bit_at b i \<longleftrightarrow> bit_at bitmap i \<and> \<not> in_region pos order i" for i
    unfolding in_region_def region_index [OF assms(1)] bit_at_def b(3) [of "i div 32"] by (auto simp: bit_and_iff bit_not_iff)
  with b(1,2) show ?thesis by (intro that [of b]) (simp_all add: reg_op_def)
qed

lemma bit_at_ext:
  assumes "length a = length b" "\<And>i. bit_at a i = bit_at b i"
  shows "a = b"
proof (rule nth_equalityI [OF assms(1)])
  fix k assume "k < length a"
  show "a ! k = b ! k"
  proof (rule bit_word_eqI)
    fix j assume "j < LENGTH(32)"
    then show "bit (a ! k) j = bit (b ! k) j" using assms(2) [of "32 * k + j"] by (simp add: bit_at_def)
  qed
qed

lemma find_free_loop_result:
  assumes "2 ^ order dvd bits" "bits \<le> 32 * length bitmap" "2 ^ order dvd pos" "pos \<le> bits"
  obtains p where "find_free_loop bitmap bits order pos = Some p" "2 ^ order dvd p" "pos \<le> p" "p \<le> bits"
    "p < bits \<Longrightarrow> p + 2 ^ order \<le> bits \<and> region_free bitmap p order"
    "\<And>q. pos \<le> q \<Longrightarrow> q < p \<Longrightarrow> 2 ^ order dvd q \<Longrightarrow> \<not> region_free bitmap q order"
  using assms(3,4)
proof (induction "bits - pos" arbitrary: pos thesis rule: less_induct)
  case less
  have step: "p + 2 ^ order \<le> q" if h: "2 ^ order dvd p" "2 ^ order dvd q" "p < q" for p q :: nat
  proof -
    obtain a b where "p = 2 ^ order * a" "q = 2 ^ order * b" using h(1,2) by (auto elim!: dvdE)
    then show ?thesis using h(3) mult_le_mono2 [of "Suc a" b "2 ^ order"] by simp
  qed
  show ?case
  proof (cases "pos < bits")
    case False
    then have "find_free_loop bitmap bits order pos = Some pos" by (subst find_free_loop.simps) simp
    then show ?thesis using less.prems False by (intro less.prems(1) [of pos]) auto
  next
    case True
    have fit: "pos + 2 ^ order \<le> bits" using step [OF less.prems(2) assms(1) True] .
    then have fr: "reg_op bitmap pos order REG_OP_ISFREE = Some (region_free bitmap pos order, bitmap)"
      using less.prems(2) assms(2) by (intro reg_op_isfree) auto
    show ?thesis
    proof (cases "region_free bitmap pos order")
      case f: True
      show ?thesis
        by (rule less.prems(1) [of pos]) (use less.prems(2) True f fit fr in \<open>auto simp: find_free_loop.simps [of _ _ _ pos]\<close>)
    next
      case f: False
      obtain p where p: "find_free_loop bitmap bits order (pos + 2 ^ order) = Some p" "2 ^ order dvd p" "pos + 2 ^ order \<le> p" "p \<le> bits"
        "p < bits \<Longrightarrow> p + 2 ^ order \<le> bits \<and> region_free bitmap p order"
        "\<And>q. pos + 2 ^ order \<le> q \<Longrightarrow> q < p \<Longrightarrow> 2 ^ order dvd q \<Longrightarrow> \<not> region_free bitmap q order"
        by (rule less.hyps [of "pos + 2 ^ order"]) (use less.prems(2) True fit in \<open>auto intro: diff_less_mono2\<close>)
      have "\<not> region_free bitmap q order" if "pos \<le> q" "q < p" "2 ^ order dvd q" for q
        using that f p(6) step [OF less.prems(2) that(3)] by (cases "q = pos") auto
      then show ?thesis
        using p True f fr by (intro less.prems(1) [of p]) (auto simp: find_free_loop.simps [of _ _ _ pos])
    qed
  qed
qed

section \<open>Properties\<close>



text \<open>
  Property C12.  When the size is a multiple of the region size, \<open>bitmap_find_free_region\<close> returns the first aligned
  region without a set bit and sets exactly its bits; it returns \<open>-ENOMEM\<close> exactly when there is no such region, and
  then the bitmap is unchanged.
\<close>

theorem find_free_region_first:
  assumes "2 ^ order dvd bits" "bits \<le> 32 * length bitmap"
  shows "\<exists>r b. bitmap_find_free_region bitmap bits order = Some (r, b) \<and>
    (r = - ENOMEM \<and> b = bitmap \<and> (\<forall>q. 2 ^ order dvd q \<and> q < bits \<longrightarrow> \<not> region_free bitmap q order) \<or>
     (\<exists>p. r = int p \<and> 2 ^ order dvd p \<and> p + 2 ^ order \<le> bits \<and> region_free bitmap p order \<and>
        (\<forall>q. 2 ^ order dvd q \<and> q < p \<longrightarrow> \<not> region_free bitmap q order) \<and>
        length b = length bitmap \<and> (\<forall>i. bit_at b i \<longleftrightarrow> bit_at bitmap i \<or> in_region p order i)))"
proof -
  obtain p where p: "find_free_loop bitmap bits order 0 = Some p" "2 ^ order dvd p" "p \<le> bits"
    "p < bits \<Longrightarrow> p + 2 ^ order \<le> bits \<and> region_free bitmap p order"
    "\<And>q. q < p \<Longrightarrow> 2 ^ order dvd q \<Longrightarrow> \<not> region_free bitmap q order"
    by (rule find_free_loop_result [OF assms, of 0]) auto
  show ?thesis
  proof (cases "p = bits")
    case True
    then show ?thesis using p by (auto simp: bitmap_find_free_region_def)
  next
    case False
    then have f: "p + 2 ^ order \<le> bits" "region_free bitmap p order" using p(3,4) by auto
    obtain b where "reg_op bitmap p order REG_OP_ALLOC = Some (False, b)" "length b = length bitmap"
      "\<And>i. bit_at b i \<longleftrightarrow> bit_at bitmap i \<or> in_region p order i"
      by (rule reg_op_alloc [OF p(2), of bitmap]) (use f(1) assms(2) in auto)
    then show ?thesis using p False f by (auto simp: bitmap_find_free_region_def)
  qed
qed

lemma find_free_example: "bitmap_find_free_region [0x13] 32 2 = Some (8, [0xF13])"
  by (simp add: bitmap_find_free_region_def find_free_loop.simps reg_op_def region_mask_def BITS_TO_LONGS_def word_at_def)

theorem find_free_region_first_witness:
  "bitmap_find_free_region [0x13] 32 2 = Some (8, [0xF13]) \<and> region_free [0x13] 8 2 \<and> \<not> region_free [0x13] 4 2"
  using find_free_region_first [of 2 32 "[0x13]"] find_free_example by auto

text \<open>
  Property C34.  Releasing undoes allocating: \<open>bitmap_allocate_region\<close> succeeds exactly when the aligned region is
  free, and \<open>bitmap_release_region\<close> of the same region then restores the bitmap word for word.
\<close>

theorem release_allocated_region:
  assumes "2 ^ order dvd pos" "pos + 2 ^ order \<le> 32 * length bitmap"
  shows "\<exists>r b. bitmap_allocate_region bitmap pos order = Some (r, b) \<and> (r = 0 \<longleftrightarrow> region_free bitmap pos order) \<and>
    (if r = 0 then bitmap_release_region b pos order = Some bitmap else r = - EBUSY \<and> b = bitmap)"
proof (cases "region_free bitmap pos order")
  case True
  obtain b where b: "reg_op bitmap pos order REG_OP_ALLOC = Some (False, b)" "length b = length bitmap"
    "\<And>i. bit_at b i \<longleftrightarrow> bit_at bitmap i \<or> in_region pos order i" by (rule reg_op_alloc [OF assms]) (rule that)
  obtain c where c: "reg_op b pos order REG_OP_RELEASE = Some (False, c)" "length c = length b"
    "\<And>i. bit_at c i \<longleftrightarrow> bit_at b i \<and> \<not> in_region pos order i"
    by (rule reg_op_release [OF assms(1), of b]) (use assms(2) b(2) in auto)
  have "c = bitmap" by (rule bit_at_ext) (use b c True in \<open>auto simp: region_free_def\<close>)
  then show ?thesis using True b(1) c(1) reg_op_isfree [OF assms]
    by (simp add: bitmap_allocate_region_def bitmap_release_region_def)
next
  case False
  then show ?thesis using reg_op_isfree [OF assms] by (simp add: bitmap_allocate_region_def)
qed

theorem release_allocated_region_witness:
  "\<exists>b. bitmap_allocate_region [0x13] 8 2 = Some (0, b) \<and> bitmap_release_region b 8 2 = Some [0x13]"
proof -
  have "bitmap_allocate_region [0x13] 8 2 = Some (0, [0xF13])"
    by (simp add: bitmap_allocate_region_def reg_op_def region_mask_def BITS_TO_LONGS_def word_at_def)
  then show ?thesis using release_allocated_region [of 2 8 "[0x13]"] by auto
qed

end
