(* ===== verification/Radix_Tree.thy ===== *)
theory Radix_Tree
  imports Kmem Bit_Search
begin

text \<open>
  Radix trees, \<open>lib/radix-tree.c\<close> and \<open>linux/radix-tree.h\<close>.  \<open>rt_nodes\<close> is the store of \<open>struct radix_tree_node\<close>
  objects, \<open>rt_cachep\<close> the cache they come from, \<open>rt_preload\<close> the pool of preloaded nodes of the processor (the last
  array entry first) and \<open>rcu_queue\<close> the nodes that wait for the end of a grace period after \<open>call_rcu\<close>.  A root is
  passed by value and returned updated.  Heights are small natural numbers; a slot array has 64 entries, a tag is
  an array of two words.
\<close>

section \<open>Nodes\<close>

record rt_node =
  rtn_height :: nat
  rtn_count :: u32
  rtn_slots :: "addr list"
  rtn_tags :: "u32 list list"

record rt_root =
  rt_height :: nat
  rt_gfp :: u32
  rt_rnode :: addr

record 'k rt_state = "'k kmem_state" +
  rt_nodes :: "addr \<rightharpoonup> rt_node"
  rt_cachep :: addr
  rt_preload :: "addr list"
  rcu_queue :: "addr list"

type_synonym ('k, 'z) rtstate = "('k, 'z) rt_state_scheme"
type_synonym ('k, 'z) rtkit = "('k, ('k, 'z) rt_state_scheme) dde_kit"

abbreviation (input) GFP_WAIT :: u32 where "GFP_WAIT \<equiv> 0x10"
abbreviation (input) GFP_BITS_MASK :: u32 where "GFP_BITS_MASK \<equiv> 0xFFFFF"
abbreviation (input) EEXIST :: int where "EEXIST \<equiv> 17"

definition INIT_RADIX_TREE :: "u32 \<Rightarrow> rt_root" where
  "INIT_RADIX_TREE gfp_mask = \<lparr>rt_height = 0, rt_gfp = gfp_mask, rt_rnode = 0\<rparr>"

definition radix_tree_ptr_to_direct :: "addr \<Rightarrow> addr" where
  "radix_tree_ptr_to_direct p = p OR 1"

definition radix_tree_direct_to_ptr :: "addr \<Rightarrow> addr" where
  "radix_tree_direct_to_ptr p = p AND NOT 1"

definition radix_tree_is_direct_ptr :: "addr \<Rightarrow> bool" where
  "radix_tree_is_direct_ptr p \<longleftrightarrow> p AND 1 \<noteq> 0"

definition root_gfp_mask :: "rt_root \<Rightarrow> u32" where
  "root_gfp_mask root = rt_gfp root AND GFP_BITS_MASK"

text \<open>The constructor of the cache: every node starts as zeros.\<close>

definition zero_node :: rt_node where
  "zero_node = \<lparr>rtn_height = 0, rtn_count = 0, rtn_slots = replicate 64 0, rtn_tags = [[0, 0], [0, 0]]\<rparr>"

definition radix_tree_node_ctor :: "addr \<Rightarrow> ('k, 'z) rtstate \<Rightarrow> ('k, 'z) rtstate" where
  "radix_tree_node_ctor node s = s\<lparr>rt_nodes := (rt_nodes s)(node \<mapsto> zero_node)\<rparr>"

definition radix_tree_node_alloc :: "('k, 'z) rtkit \<Rightarrow> rt_root \<Rightarrow> ('k, 'z) rtstate \<Rightarrow> (addr \<times> ('k, 'z) rtstate) option" where
  "radix_tree_node_alloc K root s = do {
     (ret, s) \<leftarrow> kmem_cache_alloc K (rt_cachep s) (root_gfp_mask root) s;
     let (ret, s) = (if ret = 0 \<and> root_gfp_mask root AND GFP_WAIT = 0
       then (case rt_preload s of [] \<Rightarrow> (ret, s) | p # ps \<Rightarrow> (p, s\<lparr>rt_preload := ps\<rparr>)) else (ret, s));
     if radix_tree_is_direct_ptr ret then None else Some (ret, s) }"

definition radix_tree_node_rcu_free :: "('k, 'z) rtkit \<Rightarrow> addr \<Rightarrow> ('k, 'z) rtstate \<Rightarrow> ('k, 'z) rtstate option" where
  "radix_tree_node_rcu_free K node s = do {
     s \<leftarrow> kmem_cache_free K (rt_cachep s) node s;
     Some (s\<lparr>rt_nodes := (rt_nodes s)(node := None)\<rparr>) }"

definition radix_tree_node_free :: "addr \<Rightarrow> ('k, 'z) rtstate \<Rightarrow> ('k, 'z) rtstate" where
  "radix_tree_node_free node s = s\<lparr>rcu_queue := rcu_queue s @ [node]\<rparr>"

abbreviation (input) RADIX_TREE_MAX_PATH :: nat where "RADIX_TREE_MAX_PATH \<equiv> 7"

text \<open>The loop of \<open>radix_tree_preload\<close>; no other thread takes nodes of the pool while it runs.\<close>

fun preload_loop :: "('k, 'z) rtkit \<Rightarrow> u32 \<Rightarrow> nat \<Rightarrow> ('k, 'z) rtstate \<Rightarrow> (int \<times> ('k, 'z) rtstate) option" where
  "preload_loop K gfp_mask 0 s = Some (0, s)"
| "preload_loop K gfp_mask (Suc n) s = do {
     (node, s) \<leftarrow> kmem_cache_alloc K (rt_cachep s) gfp_mask s;
     if node = 0 then Some (- ENOMEM, s)
     else preload_loop K gfp_mask n (s\<lparr>rt_preload := node # rt_preload s\<rparr>) }"

definition radix_tree_preload :: "('k, 'z) rtkit \<Rightarrow> u32 \<Rightarrow> ('k, 'z) rtstate \<Rightarrow> (int \<times> ('k, 'z) rtstate) option" where
  "radix_tree_preload K gfp_mask s = preload_loop K gfp_mask (RADIX_TREE_MAX_PATH - length (rt_preload s)) s"

section \<open>Tags\<close>

definition tag_set :: "nat \<Rightarrow> nat \<Rightarrow> rt_node \<Rightarrow> rt_node option" where
  "tag_set tag offset n = do {
     ws \<leftarrow> (if tag < length (rtn_tags n) then set_bit_in offset (rtn_tags n ! tag) else None);
     Some (n\<lparr>rtn_tags := (rtn_tags n)[tag := ws]\<rparr>) }"

definition tag_clear :: "nat \<Rightarrow> nat \<Rightarrow> rt_node \<Rightarrow> rt_node option" where
  "tag_clear tag offset n = do {
     ws \<leftarrow> (if tag < length (rtn_tags n) then clear_bit_in offset (rtn_tags n ! tag) else None);
     Some (n\<lparr>rtn_tags := (rtn_tags n)[tag := ws]\<rparr>) }"

definition tag_get :: "nat \<Rightarrow> nat \<Rightarrow> rt_node \<Rightarrow> bool option" where
  "tag_get tag offset n = (if tag < length (rtn_tags n) then test_bit offset (rtn_tags n ! tag) else None)"

definition any_tag_set :: "nat \<Rightarrow> rt_node \<Rightarrow> bool" where
  "any_tag_set tag n \<longleftrightarrow> list_ex (\<lambda>w. w \<noteq> 0) (rtn_tags n ! tag)"

definition root_tag_set :: "nat \<Rightarrow> rt_root \<Rightarrow> rt_root" where
  "root_tag_set tag root = root\<lparr>rt_gfp := rt_gfp root OR push_bit (tag + 20) 1\<rparr>"

definition root_tag_clear :: "nat \<Rightarrow> rt_root \<Rightarrow> rt_root" where
  "root_tag_clear tag root = root\<lparr>rt_gfp := rt_gfp root AND NOT (push_bit (tag + 20) 1)\<rparr>"

definition root_tag_clear_all :: "rt_root \<Rightarrow> rt_root" where
  "root_tag_clear_all root = root\<lparr>rt_gfp := rt_gfp root AND GFP_BITS_MASK\<rparr>"

definition root_tag_get :: "nat \<Rightarrow> rt_root \<Rightarrow> bool" where
  "root_tag_get tag root \<longleftrightarrow> rt_gfp root AND push_bit (tag + 20) 1 \<noteq> 0"

definition radix_tree_tagged :: "rt_root \<Rightarrow> nat \<Rightarrow> bool" where
  "radix_tree_tagged root tag = root_tag_get tag root"

section \<open>Indices\<close>

text \<open>\<open>__maxindex\<close>, with which \<open>radix_tree_init_maxindex\<close> fills the table of \<open>radix_tree_maxindex\<close>.\<close>

definition maxindex :: "nat \<Rightarrow> u32" where
  "maxindex height = (if 32 \<le> height * 6 then - 1 else drop_bit 1 (drop_bit (32 - height * 6 - 1) (- 1)))"

definition slot_offset :: "u32 \<Rightarrow> nat \<Rightarrow> nat" where
  "slot_offset index height = unat (drop_bit ((height - 1) * 6) index AND 63)"

section \<open>Access to nodes\<close>

definition node_update :: "addr \<Rightarrow> (rt_node \<Rightarrow> rt_node option) \<Rightarrow> ('k, 'z) rtstate \<Rightarrow> ('k, 'z) rtstate option" where
  "node_update node f s = do {
     n \<leftarrow> rt_nodes s node;
     n \<leftarrow> f n;
     Some (s\<lparr>rt_nodes := (rt_nodes s)(node \<mapsto> n)\<rparr>) }"

definition slot_set :: "nat \<Rightarrow> addr \<Rightarrow> rt_node \<Rightarrow> rt_node option" where
  "slot_set offset v n = (if offset < length (rtn_slots n) then Some (n\<lparr>rtn_slots := (rtn_slots n)[offset := v]\<rparr>) else None)"

definition slot_get :: "nat \<Rightarrow> rt_node \<Rightarrow> addr option" where
  "slot_get offset n = (if offset < length (rtn_slots n) then Some (rtn_slots n ! offset) else None)"

section \<open>Looking up\<close>

fun lookup_loop :: "u32 \<Rightarrow> nat \<Rightarrow> addr \<Rightarrow> ('k, 'z) rtstate \<Rightarrow> addr option" where
  "lookup_loop index 0 node s = Some node"
| "lookup_loop index (Suc h) node s = do {
     n \<leftarrow> rt_nodes s node;
     slot \<leftarrow> slot_get (slot_offset index (Suc h)) n;
     if slot = 0 then Some 0 else lookup_loop index h slot s }"

text \<open>The loop body runs at least once; a node in a tree has a height of at least 1.\<close>

definition radix_tree_lookup :: "rt_root \<Rightarrow> u32 \<Rightarrow> ('k, 'z) rtstate \<Rightarrow> addr option" where
  "radix_tree_lookup root index s =
     (if rt_rnode root = 0 then Some 0
      else if radix_tree_is_direct_ptr (rt_rnode root)
      then Some (if 0 < index then 0 else radix_tree_direct_to_ptr (rt_rnode root))
      else do {
        n \<leftarrow> rt_nodes s (rt_rnode root);
        if maxindex (rtn_height n) < index then Some 0
        else if rtn_height n = 0 then None
        else lookup_loop index (rtn_height n) (rt_rnode root) s })"

text \<open>\<open>radix_tree_lookup_slot\<close> returns the place that holds the item.\<close>

datatype rt_slot = Root_Slot | Node_Slot addr nat

fun lookup_slot_loop :: "u32 \<Rightarrow> nat \<Rightarrow> rt_slot \<Rightarrow> addr \<Rightarrow> ('k, 'z) rtstate \<Rightarrow> rt_slot option option" where
  "lookup_slot_loop index 0 slot node s = Some (Some slot)"
| "lookup_slot_loop index (Suc h) slot node s = do {
     n \<leftarrow> rt_nodes s node;
     p \<leftarrow> slot_get (slot_offset index (Suc h)) n;
     if p = 0 then Some None else lookup_slot_loop index h (Node_Slot node (slot_offset index (Suc h))) p s }"

definition radix_tree_lookup_slot :: "rt_root \<Rightarrow> u32 \<Rightarrow> ('k, 'z) rtstate \<Rightarrow> rt_slot option option" where
  "radix_tree_lookup_slot root index s =
     (if rt_rnode root = 0 then Some None
      else if radix_tree_is_direct_ptr (rt_rnode root) then Some (if 0 < index then None else Some Root_Slot)
      else do {
        n \<leftarrow> rt_nodes s (rt_rnode root);
        if maxindex (rtn_height n) < index then Some None
        else if rtn_height n = 0 then None
        else lookup_slot_loop index (rtn_height n) Root_Slot (rt_rnode root) s })"

section \<open>Inserting\<close>

text \<open>\<open>while (index > radix_tree_maxindex(height)) height++\<close>.\<close>

lemma maxindex_top: "6 \<le> h \<Longrightarrow> maxindex h = - 1"
  by (simp add: maxindex_def)

function needed_height :: "u32 \<Rightarrow> nat \<Rightarrow> nat" where
  "needed_height index height = (if maxindex height < index then needed_height index (height + 1) else height)"
  by auto
termination
proof (relation "measure (\<lambda>(index, height). 6 - height)")
  fix index :: u32 and height assume "maxindex height < index"
  then have "\<not> 6 \<le> height" using maxindex_top [of height] word_order.extremum [of index] by (auto simp: not_less)
  then show "((index, height + 1), index, height) \<in> measure (\<lambda>(index, height). 6 - height)" by auto
qed simp

declare needed_height.simps [simp del]

definition set_height_count :: "nat \<Rightarrow> rt_node \<Rightarrow> rt_node option" where
  "set_height_count h n = Some (n\<lparr>rtn_height := h, rtn_count := 1\<rparr>)"

definition root_tag_to_node :: "rt_root \<Rightarrow> nat \<Rightarrow> addr \<Rightarrow> ('k, 'z) rtstate \<Rightarrow> ('k, 'z) rtstate option" where
  "root_tag_to_node root tag node s = (if root_tag_get tag root then node_update node (tag_set tag 0) s else Some s)"

text \<open>The \<open>do\<close> loop of \<open>radix_tree_extend\<close>, for the number of levels that are still missing.\<close>

fun extend_loop :: "('k, 'z) rtkit \<Rightarrow> nat \<Rightarrow> rt_root \<Rightarrow> ('k, 'z) rtstate \<Rightarrow> (int \<times> rt_root \<times> ('k, 'z) rtstate) option" where
  "extend_loop K 0 root s = Some (0, root, s)"
| "extend_loop K (Suc k) root s = do {
     (node, s) \<leftarrow> radix_tree_node_alloc K root s;
     if node = 0 then Some (- ENOMEM, root, s)
     else do {
       s \<leftarrow> node_update node (slot_set 0 (radix_tree_direct_to_ptr (rt_rnode root))) s;
       s \<leftarrow> root_tag_to_node root 0 node s;
       s \<leftarrow> root_tag_to_node root 1 node s;
       s \<leftarrow> node_update node (set_height_count (rt_height root + 1)) s;
       extend_loop K k (root\<lparr>rt_rnode := node, rt_height := rt_height root + 1\<rparr>) s } }"

definition radix_tree_extend :: "('k, 'z) rtkit \<Rightarrow> rt_root \<Rightarrow> u32 \<Rightarrow> ('k, 'z) rtstate \<Rightarrow> (int \<times> rt_root \<times> ('k, 'z) rtstate) option" where
  "radix_tree_extend K root index s =
     (if rt_rnode root = 0 then Some (0, root\<lparr>rt_height := needed_height index (rt_height root + 1)\<rparr>, s)
      else extend_loop K (needed_height index (rt_height root + 1) - rt_height root) root s)"

definition count_up :: "rt_node \<Rightarrow> rt_node option" where
  "count_up n = Some (n\<lparr>rtn_count := rtn_count n + 1\<rparr>)"

definition untagged :: "nat \<Rightarrow> rt_node \<Rightarrow> bool option" where
  "untagged offset n = do {
     a \<leftarrow> tag_get 0 offset n;
     b \<leftarrow> tag_get 1 offset n;
     Some (\<not> a \<and> \<not> b) }"

text \<open>The end of \<open>radix_tree_insert\<close>; a tag that is already set for the new item is a \<open>BUG\<close>.\<close>

definition insert_item :: "addr \<Rightarrow> addr \<Rightarrow> nat \<Rightarrow> rt_root \<Rightarrow> ('k, 'z) rtstate \<Rightarrow> (int \<times> rt_root \<times> ('k, 'z) rtstate) option" where
  "insert_item item node offset root s =
     (if node \<noteq> 0 then do {
        s \<leftarrow> node_update node count_up s;
        s \<leftarrow> node_update node (slot_set offset item) s;
        n \<leftarrow> rt_nodes s node;
        u \<leftarrow> untagged offset n;
        if u then Some (0, root, s) else None }
      else if root_tag_get 0 root \<or> root_tag_get 1 root then None
      else Some (0, root\<lparr>rt_rnode := radix_tree_ptr_to_direct item\<rparr>, s))"

definition set_height :: "nat \<Rightarrow> rt_node \<Rightarrow> rt_node option" where
  "set_height h n = Some (n\<lparr>rtn_height := h\<rparr>)"

definition link_child :: "addr \<Rightarrow> addr \<Rightarrow> nat \<Rightarrow> rt_root \<Rightarrow> ('k, 'z) rtstate \<Rightarrow> (rt_root \<times> ('k, 'z) rtstate) option" where
  "link_child slot node offset root s =
     (if node \<noteq> 0 then do {
        s \<leftarrow> node_update node (slot_set offset slot) s;
        s \<leftarrow> node_update node count_up s;
        Some (root, s) }
      else Some (root\<lparr>rt_rnode := slot\<rparr>, s))"

fun insert_loop :: "('k, 'z) rtkit \<Rightarrow> u32 \<Rightarrow> addr \<Rightarrow> nat \<Rightarrow> addr \<Rightarrow> nat \<Rightarrow> addr \<Rightarrow> rt_root \<Rightarrow> ('k, 'z) rtstate
    \<Rightarrow> (int \<times> rt_root \<times> ('k, 'z) rtstate) option" where
  "insert_loop K index item 0 node offset slot root s =
     (if slot \<noteq> 0 then Some (- EEXIST, root, s) else insert_item item node offset root s)"
| "insert_loop K index item (Suc h) node offset slot root s = do {
     (slot, root, s) \<leftarrow> (if slot = 0 then do {
         (slot, s) \<leftarrow> radix_tree_node_alloc K root s;
         if slot = 0 then Some (0, root, s)
         else do {
           s \<leftarrow> node_update slot (set_height (Suc h)) s;
           (root, s) \<leftarrow> link_child slot node offset root s;
           Some (slot, root, s) } }
       else Some (slot, root, s));
     if slot = 0 then Some (- ENOMEM, root, s)
     else do {
       n \<leftarrow> rt_nodes s slot;
       child \<leftarrow> slot_get (slot_offset index (Suc h)) n;
       insert_loop K index item h slot (slot_offset index (Suc h)) child root s } }"

definition radix_tree_insert :: "('k, 'z) rtkit \<Rightarrow> rt_root \<Rightarrow> u32 \<Rightarrow> addr \<Rightarrow> ('k, 'z) rtstate \<Rightarrow> (int \<times> rt_root \<times> ('k, 'z) rtstate) option" where
  "radix_tree_insert K root index item s =
     (if radix_tree_is_direct_ptr item then None
      else do {
        (err, root, s) \<leftarrow> (if maxindex (rt_height root) < index then radix_tree_extend K root index s else Some (0, root, s));
        if err \<noteq> 0 then Some (err, root, s)
        else insert_loop K index item (rt_height root) 0 0 (rt_rnode root) root s })"

section \<open>Setting and clearing tags\<close>

fun tag_set_loop :: "u32 \<Rightarrow> nat \<Rightarrow> nat \<Rightarrow> addr \<Rightarrow> ('k, 'z) rtstate \<Rightarrow> (addr \<times> ('k, 'z) rtstate) option" where
  "tag_set_loop index tag 0 slot s = Some (slot, s)"
| "tag_set_loop index tag (Suc h) slot s = do {
     n \<leftarrow> rt_nodes s slot;
     g \<leftarrow> tag_get tag (slot_offset index (Suc h)) n;
     s \<leftarrow> (if g then Some s else node_update slot (tag_set tag (slot_offset index (Suc h))) s);
     child \<leftarrow> slot_get (slot_offset index (Suc h)) n;
     if child = 0 then None else tag_set_loop index tag h child s }"

definition radix_tree_tag_set :: "rt_root \<Rightarrow> u32 \<Rightarrow> nat \<Rightarrow> ('k, 'z) rtstate \<Rightarrow> (addr \<times> rt_root \<times> ('k, 'z) rtstate) option" where
  "radix_tree_tag_set root index tag s =
     (if maxindex (rt_height root) < index then None
      else do {
        (slot, s) \<leftarrow> tag_set_loop index tag (rt_height root) (rt_rnode root) s;
        Some (slot, if slot \<noteq> 0 \<and> \<not> root_tag_get tag root then root_tag_set tag root else root, s) })"

text \<open>The descent that fills \<open>path\<close>, here with the latest entry first; a missing node ends it with \<open>NULL\<close>.\<close>

fun find_path :: "u32 \<Rightarrow> nat \<Rightarrow> addr \<Rightarrow> (addr \<times> nat) list \<Rightarrow> ('k, 'z) rtstate \<Rightarrow> (addr \<times> (addr \<times> nat) list) option" where
  "find_path index 0 slot path s = Some (slot, path)"
| "find_path index (Suc h) slot path s =
     (if slot = 0 then Some (0, path)
      else do {
        n \<leftarrow> rt_nodes s slot;
        child \<leftarrow> slot_get (slot_offset index (Suc h)) n;
        find_path index h child ((slot, slot_offset index (Suc h)) # path) s })"

fun tag_clear_up :: "nat \<Rightarrow> (addr \<times> nat) list \<Rightarrow> rt_root \<Rightarrow> ('k, 'z) rtstate \<Rightarrow> (rt_root \<times> ('k, 'z) rtstate) option" where
  "tag_clear_up tag [] root s = Some (if root_tag_get tag root then root_tag_clear tag root else root, s)"
| "tag_clear_up tag ((node, offset) # path) root s = do {
     n \<leftarrow> rt_nodes s node;
     g \<leftarrow> tag_get tag offset n;
     if \<not> g then Some (root, s)
     else do {
       s \<leftarrow> node_update node (tag_clear tag offset) s;
       n \<leftarrow> rt_nodes s node;
       if any_tag_set tag n then Some (root, s) else tag_clear_up tag path root s } }"

definition radix_tree_tag_clear :: "rt_root \<Rightarrow> u32 \<Rightarrow> nat \<Rightarrow> ('k, 'z) rtstate \<Rightarrow> (addr \<times> rt_root \<times> ('k, 'z) rtstate) option" where
  "radix_tree_tag_clear root index tag s =
     (if maxindex (rt_height root) < index then Some (0, root, s)
      else do {
        (slot, path) \<leftarrow> find_path index (rt_height root) (rt_rnode root) [] s;
        if slot = 0 then Some (0, root, s)
        else do {
          (root, s) \<leftarrow> tag_clear_up tag path root s;
          Some (slot, root, s) } })"

section \<open>Deleting\<close>

definition clear_node :: "rt_node \<Rightarrow> rt_node option" where
  "clear_node n = do {
     n \<leftarrow> tag_clear 0 0 n;
     n \<leftarrow> tag_clear 1 0 n;
     n \<leftarrow> slot_set 0 0 n;
     Some (n\<lparr>rtn_count := 0\<rparr>) }"

fun radix_tree_shrink :: "nat \<Rightarrow> rt_root \<Rightarrow> ('k, 'z) rtstate \<Rightarrow> (rt_root \<times> ('k, 'z) rtstate) option" where
  "radix_tree_shrink 0 root s = Some (root, s)"
| "radix_tree_shrink (Suc h) root s = do {
     n \<leftarrow> rt_nodes s (rt_rnode root);
     first \<leftarrow> slot_get 0 n;
     if rtn_count n = 1 \<and> first \<noteq> 0 then do {
       s \<leftarrow> node_update (rt_rnode root) clear_node s;
       radix_tree_shrink h
         (root\<lparr>rt_rnode := (if h = 0 then radix_tree_ptr_to_direct first else first), rt_height := h\<rparr>)
         (radix_tree_node_free (rt_rnode root) s) }
     else Some (root, s) }"

definition slot_drop :: "nat \<Rightarrow> rt_node \<Rightarrow> rt_node option" where
  "slot_drop offset n = do {
     n \<leftarrow> slot_set offset 0 n;
     Some (n\<lparr>rtn_count := rtn_count n - 1\<rparr>) }"

definition free_pending :: "addr \<Rightarrow> ('k, 'z) rtstate \<Rightarrow> ('k, 'z) rtstate" where
  "free_pending node s = (if node \<noteq> 0 then radix_tree_node_free node s else s)"

fun delete_up :: "addr \<Rightarrow> (addr \<times> nat) list \<Rightarrow> rt_root \<Rightarrow> ('k, 'z) rtstate \<Rightarrow> (rt_root \<times> ('k, 'z) rtstate) option" where
  "delete_up to_free [] root s =
     Some ((root_tag_clear_all root)\<lparr>rt_height := 0, rt_rnode := 0\<rparr>, free_pending to_free s)"
| "delete_up to_free ((node, offset) # path) root s = do {
     s \<leftarrow> node_update node (slot_drop offset) s;
     let s = free_pending to_free s;
     n \<leftarrow> rt_nodes s node;
     if rtn_count n \<noteq> 0
     then (if node = rt_rnode root then radix_tree_shrink (rt_height root) root s else Some (root, s))
     else delete_up node path root s }"

definition clear_item_tag :: "nat \<Rightarrow> addr \<Rightarrow> nat \<Rightarrow> u32 \<Rightarrow> rt_root \<Rightarrow> ('k, 'z) rtstate \<Rightarrow> (rt_root \<times> ('k, 'z) rtstate) option" where
  "clear_item_tag tag node offset index root s = do {
     n \<leftarrow> rt_nodes s node;
     g \<leftarrow> tag_get tag offset n;
     if g then map_option snd (radix_tree_tag_clear root index tag s) else Some (root, s) }"

definition radix_tree_delete :: "rt_root \<Rightarrow> u32 \<Rightarrow> ('k, 'z) rtstate \<Rightarrow> (addr \<times> rt_root \<times> ('k, 'z) rtstate) option" where
  "radix_tree_delete root index s =
     (if maxindex (rt_height root) < index then Some (0, root, s)
      else if rt_height root = 0 \<and> rt_rnode root \<noteq> 0
      then Some (radix_tree_direct_to_ptr (rt_rnode root), (root_tag_clear_all root)\<lparr>rt_rnode := 0\<rparr>, s)
      else do {
        (slot, path) \<leftarrow> find_path index (rt_height root) (rt_rnode root) [] s;
        if slot = 0 then Some (0, root, s)
        else case path of [] \<Rightarrow> None
          | (node, offset) # rest \<Rightarrow> do {
              (root, s) \<leftarrow> clear_item_tag 0 node offset index root s;
              (root, s) \<leftarrow> clear_item_tag 1 node offset index root s;
              (root, s) \<leftarrow> delete_up 0 path root s;
              Some (slot, root, s) } })"

end
