(* ===== verification/Radix_Inv.thy ===== *)
theory Radix_Inv
  imports Radix_Tree
begin

text \<open>
  The shape of radix trees in the store: the nodes of a tree, the item at an index, well-formedness, and how both
  change when one child of a node changes.  The lookup functions are shown to compute the item at the index.
\<close>

section \<open>Trees in the store\<close>

type_synonym rt_heap = "addr \<rightharpoonup> rt_node"

text \<open>The nodes of the tree of height \<open>n\<close> at \<open>p\<close>, and the item its slots hold for an index.\<close>

fun nodes_of :: "rt_heap \<Rightarrow> nat \<Rightarrow> addr \<Rightarrow> addr set" where
  "nodes_of H 0 p = {}"
| "nodes_of H (Suc n) p = (if p = 0 then {} else
     insert p (case H p of None \<Rightarrow> {} | Some nd \<Rightarrow> \<Union>i \<in> {..<64}. nodes_of H n (rtn_slots nd ! i)))"

fun item_at :: "rt_heap \<Rightarrow> nat \<Rightarrow> addr \<Rightarrow> u32 \<Rightarrow> addr" where
  "item_at H 0 p index = p"
| "item_at H (Suc n) p index = (if p = 0 then 0 else
     (case H p of None \<Rightarrow> 0 | Some nd \<Rightarrow> item_at H n (rtn_slots nd ! slot_offset index (Suc n)) index))"

definition tag_bit :: "rt_node \<Rightarrow> nat \<Rightarrow> nat \<Rightarrow> bool" where
  "tag_bit nd t i = bit_at (rtn_tags nd ! t) i"

text \<open>Whether the root node of a tree has a tag at any slot.\<close>

definition tagged :: "rt_heap \<Rightarrow> addr \<Rightarrow> nat \<Rightarrow> bool" where
  "tagged H p t \<longleftrightarrow> p \<noteq> 0 \<and> (case H p of None \<Rightarrow> False | Some nd \<Rightarrow> \<exists>i < 64. tag_bit nd t i)"

definition used_slots :: "addr list \<Rightarrow> nat set" where
  "used_slots xs = {i. i < 64 \<and> xs ! i \<noteq> 0}"

text \<open>
  The slots of a node of height \<open>n\<close> that an index of 32 bits can lead to: a node of height 6 uses the two highest
  bits only.
\<close>

definition off_ok :: "nat \<Rightarrow> nat \<Rightarrow> bool" where
  "off_ok n i \<longleftrightarrow> i < 64 \<and> (n = 6 \<longrightarrow> i < 4)"

definition node_ok :: "nat \<Rightarrow> rt_node \<Rightarrow> bool" where
  "node_ok n nd \<longleftrightarrow> rtn_height nd = n \<and> length (rtn_slots nd) = 64 \<and> rtn_count nd = of_nat (card (used_slots (rtn_slots nd))) \<and>
     length (rtn_tags nd) = 2 \<and> (\<forall>t < 2. length (rtn_tags nd ! t) = 2) \<and> (\<forall>i < 64. rtn_slots nd ! i \<noteq> 0 \<longrightarrow> off_ok n i)"

text \<open>A tag is set for a child exactly if the child has the tag anywhere; for an item, only if there is one.\<close>

definition tags_ok :: "rt_heap \<Rightarrow> nat \<Rightarrow> rt_node \<Rightarrow> bool" where
  "tags_ok H n nd \<longleftrightarrow> (\<forall>t < 2. \<forall>i < 64. if n = 0 then tag_bit nd t i \<longrightarrow> rtn_slots nd ! i \<noteq> 0
     else tag_bit nd t i = tagged H (rtn_slots nd ! i) t)"

fun tree_ok :: "rt_heap \<Rightarrow> nat \<Rightarrow> addr \<Rightarrow> bool" where
  "tree_ok H 0 p = (\<not> radix_tree_is_direct_ptr p)"
| "tree_ok H (Suc n) p \<longleftrightarrow> p = 0 \<or> \<not> radix_tree_is_direct_ptr p \<and> (\<exists>nd. H p = Some nd \<and> node_ok (Suc n) nd \<and> tags_ok H n nd \<and>
     (\<forall>i < 64. tree_ok H n (rtn_slots nd ! i) \<and> p \<notin> nodes_of H n (rtn_slots nd ! i)) \<and>
     (\<forall>i < 64. \<forall>j < 64. i \<noteq> j \<longrightarrow> nodes_of H n (rtn_slots nd ! i) \<inter> nodes_of H n (rtn_slots nd ! j) = {}))"

lemma is_direct_zero [simp]: "\<not> radix_tree_is_direct_ptr 0"
  by (simp add: radix_tree_is_direct_ptr_def)

lemma tree_ok_zero [simp]: "tree_ok H n 0"
  by (cases n) simp_all

lemma nodes_of_zero [simp]: "nodes_of H n 0 = {}"
  by (cases n) simp_all

lemma item_at_zero [simp]: "item_at H n 0 j = 0"
  by (cases n) simp_all

lemma tagged_zero [simp]: "\<not> tagged H 0 t"
  by (simp add: tagged_def)

lemma slot_offset_less [simp]: "slot_offset index h < 64"
proof -
  have "drop_bit ((h - 1) * 6) index AND 63 \<le> (63 :: u32)" by (rule word_and_le1)
  then show ?thesis unfolding slot_offset_def by (simp add: word_le_nat_alt)
qed

lemma slot_offset_ok: "off_ok n (slot_offset index n)"
proof -
  have "drop_bit 30 index < (4 :: u32)"
  proof -
    have "unat (drop_bit 30 index) = unat index div 2 ^ 30" by (simp add: drop_bit_eq_div unat_div)
    also have "\<dots> < 4" using unsigned_less [of index] by (simp add: div_less_iff_less_mult)
    finally show ?thesis by (simp add: word_less_nat_alt)
  qed
  then have "drop_bit 30 index AND 63 < (4 :: u32)" using word_and_le2 [of "drop_bit 30 index" 63] by (rule le_less_trans [rotated])
  then show ?thesis using slot_offset_less [of index n] by (auto simp: off_ok_def slot_offset_def word_less_nat_alt)
qed

lemma tree_not_direct: "tree_ok H n p \<Longrightarrow> \<not> radix_tree_is_direct_ptr p"
  by (cases n) auto

text \<open>The parts of a node of a well-formed tree.\<close>

lemma tree_node:
  assumes "tree_ok H (Suc n) p" "p \<noteq> 0"
  obtains nd where "H p = Some nd" "node_ok (Suc n) nd" "tags_ok H n nd"
    "\<And>i. i < 64 \<Longrightarrow> tree_ok H n (rtn_slots nd ! i)" "\<And>i. i < 64 \<Longrightarrow> p \<notin> nodes_of H n (rtn_slots nd ! i)"
    "\<And>i j. i < 64 \<Longrightarrow> j < 64 \<Longrightarrow> i \<noteq> j \<Longrightarrow> nodes_of H n (rtn_slots nd ! i) \<inter> nodes_of H n (rtn_slots nd ! j) = {}"
    "nodes_of H (Suc n) p = insert p (\<Union>i \<in> {..<64}. nodes_of H n (rtn_slots nd ! i))"
proof -
  from assms obtain nd where nd: "H p = Some nd" "node_ok (Suc n) nd" "tags_ok H n nd"
    "\<forall>i < 64. tree_ok H n (rtn_slots nd ! i) \<and> p \<notin> nodes_of H n (rtn_slots nd ! i)"
    "\<forall>i < 64. \<forall>j < 64. i \<noteq> j \<longrightarrow> nodes_of H n (rtn_slots nd ! i) \<inter> nodes_of H n (rtn_slots nd ! j) = {}"
    by (auto simp only: tree_ok.simps)
  show ?thesis by (rule that [OF nd(1-3)]) (use nd assms(2) in auto)
qed

lemma tree_root_in: "tree_ok H (Suc n) p \<Longrightarrow> p \<noteq> 0 \<Longrightarrow> p \<in> nodes_of H (Suc n) p"
  by simp

lemma tree_some: "tree_ok H (Suc n) p \<Longrightarrow> p \<noteq> 0 \<Longrightarrow> \<exists>nd. H p = Some nd"
  by auto

text \<open>A tree depends on nothing but its own nodes.\<close>

lemma tree_frame:
  assumes "tree_ok H n p" "\<And>a. a \<in> nodes_of H n p \<Longrightarrow> H' a = H a"
  shows "nodes_of H' n p = nodes_of H n p" "item_at H' n p j = item_at H n p j" "tree_ok H' n p"
    "0 < n \<Longrightarrow> tagged H' p t = tagged H p t"
proof -
  have "nodes_of H' n p = nodes_of H n p \<and> item_at H' n p j = item_at H n p j \<and> tree_ok H' n p \<and>
    (0 < n \<longrightarrow> (\<forall>t. tagged H' p t = tagged H p t))"
    using assms
  proof (induction n arbitrary: p)
    case (Suc n)
    show ?case
    proof (cases "p = 0")
      case False
      from Suc.prems(1) False obtain nd where nd: "H p = Some nd" "node_ok (Suc n) nd" "tags_ok H n nd"
        "\<And>i. i < 64 \<Longrightarrow> tree_ok H n (rtn_slots nd ! i)" "\<And>i. i < 64 \<Longrightarrow> p \<notin> nodes_of H n (rtn_slots nd ! i)"
        "\<And>i j. i < 64 \<Longrightarrow> j < 64 \<Longrightarrow> i \<noteq> j \<Longrightarrow> nodes_of H n (rtn_slots nd ! i) \<inter> nodes_of H n (rtn_slots nd ! j) = {}"
        "nodes_of H (Suc n) p = insert p (\<Union>i \<in> {..<64}. nodes_of H n (rtn_slots nd ! i))"
        by (rule tree_node) (rule that)
      have p: "H' p = Some nd" using Suc.prems(2) [of p] nd(1) False by simp
      have sub: "nodes_of H' n (rtn_slots nd ! i) = nodes_of H n (rtn_slots nd ! i) \<and>
          item_at H' n (rtn_slots nd ! i) j = item_at H n (rtn_slots nd ! i) j \<and> tree_ok H' n (rtn_slots nd ! i) \<and>
          (0 < n \<longrightarrow> (\<forall>t. tagged H' (rtn_slots nd ! i) t = tagged H (rtn_slots nd ! i) t))" if "i < 64" for i
      proof (rule Suc.IH [OF nd(4) [OF that]])
        fix a assume "a \<in> nodes_of H n (rtn_slots nd ! i)"
        then have "a \<in> nodes_of H (Suc n) p" using nd(7) that by blast
        then show "H' a = H a" by (rule Suc.prems(2))
      qed
      have "tags_ok H' n nd" using nd(3) sub unfolding tags_ok_def by auto
      then show ?thesis using p nd sub False tree_not_direct [OF Suc.prems(1)]
        by (auto simp: tagged_def)
    qed simp
  qed simp
  then show "nodes_of H' n p = nodes_of H n p" "item_at H' n p j = item_at H n p j" "tree_ok H' n p"
    "0 < n \<Longrightarrow> tagged H' p t = tagged H p t" by auto
qed

lemma used_slots_update:
  assumes "length xs = 64" "k < 64"
  shows "card (used_slots (xs[k := v])) + (if xs ! k \<noteq> 0 then 1 else 0) = card (used_slots xs) + (if v \<noteq> 0 then 1 else 0)"
proof -
  let ?R = "used_slots xs - {k}"
  have f: "finite (used_slots xs)" by (simp add: used_slots_def)
  have a: "used_slots (xs[k := v]) = (if v \<noteq> 0 then insert k ?R else ?R)"
    using assms by (auto simp: used_slots_def nth_list_update)
  have b: "used_slots xs = (if xs ! k \<noteq> 0 then insert k ?R else ?R)"
    using assms by (auto simp: used_slots_def)
  have "card (used_slots (xs[k := v])) = card ?R + (if v \<noteq> 0 then 1 else 0)" unfolding a using f by (simp add: card.insert_remove)
  moreover have "card (used_slots xs) = card ?R + (if xs ! k \<noteq> 0 then 1 else 0)" by (subst b) (use f in \<open>simp add: card.insert_remove\<close>)
  ultimately show ?thesis by simp
qed

lemma used_slots_bound: "card (used_slots xs) \<le> 64"
proof -
  have "used_slots xs \<subseteq> {..<64}" by (auto simp: used_slots_def)
  then show ?thesis using card_mono [of "{..<64}" "used_slots xs"] by simp
qed

text \<open>
  One child of the node \<open>p\<close> is replaced: the node has the new child \<open>c'\<close> in slot \<open>k\<close>, the other children and the
  nodes below them are as before, and the tree below \<open>c'\<close> is well formed and apart from the rest.
\<close>

definition child_replaced :: "rt_heap \<Rightarrow> rt_heap \<Rightarrow> nat \<Rightarrow> addr \<Rightarrow> rt_node \<Rightarrow> rt_node \<Rightarrow> nat \<Rightarrow> addr \<Rightarrow> bool" where
  "child_replaced H H' n p nd nd' k c' \<longleftrightarrow>
     tree_ok H (Suc n) p \<and> p \<noteq> 0 \<and> H p = Some nd \<and> k < 64 \<and>
     H' p = Some nd' \<and> rtn_slots nd' = (rtn_slots nd)[k := c'] \<and> node_ok (Suc n) nd' \<and>
     (\<forall>t < 2. \<forall>i < 64. i \<noteq> k \<longrightarrow> tag_bit nd' t i = tag_bit nd t i) \<and>
     (\<forall>t < 2. if n = 0 then tag_bit nd' t k \<longrightarrow> c' \<noteq> 0 else tag_bit nd' t k = tagged H' c' t) \<and>
     tree_ok H' n c' \<and> nodes_of H' n c' \<inter> (nodes_of H (Suc n) p - nodes_of H n (rtn_slots nd ! k)) = {} \<and>
     (\<forall>a \<in> nodes_of H (Suc n) p. a \<noteq> p \<and> a \<notin> nodes_of H n (rtn_slots nd ! k) \<longrightarrow> H' a = H a)"

lemma tree_parts:
  assumes "tree_ok H (Suc n) p" "p \<noteq> 0" "H p = Some nd"
  shows "node_ok (Suc n) nd" "tags_ok H n nd"
    "i < 64 \<Longrightarrow> tree_ok H n (rtn_slots nd ! i)" "i < 64 \<Longrightarrow> p \<notin> nodes_of H n (rtn_slots nd ! i)"
    "i < 64 \<Longrightarrow> j < 64 \<Longrightarrow> i \<noteq> j \<Longrightarrow> nodes_of H n (rtn_slots nd ! i) \<inter> nodes_of H n (rtn_slots nd ! j) = {}"
    "nodes_of H (Suc n) p = insert p (\<Union>i \<in> {..<64}. nodes_of H n (rtn_slots nd ! i))"
    "length (rtn_slots nd) = 64"
proof -
  obtain x where x: "H p = Some x" "node_ok (Suc n) x" "tags_ok H n x"
    "\<And>i. i < 64 \<Longrightarrow> tree_ok H n (rtn_slots x ! i)" "\<And>i. i < 64 \<Longrightarrow> p \<notin> nodes_of H n (rtn_slots x ! i)"
    "\<And>i j. i < 64 \<Longrightarrow> j < 64 \<Longrightarrow> i \<noteq> j \<Longrightarrow> nodes_of H n (rtn_slots x ! i) \<inter> nodes_of H n (rtn_slots x ! j) = {}"
    "nodes_of H (Suc n) p = insert p (\<Union>i \<in> {..<64}. nodes_of H n (rtn_slots x ! i))"
    by (rule tree_node [OF assms(1,2)]) (rule that)
  have "x = nd" using x(1) assms(3) by simp
  with x show "node_ok (Suc n) nd" "tags_ok H n nd"
    "i < 64 \<Longrightarrow> tree_ok H n (rtn_slots nd ! i)" "i < 64 \<Longrightarrow> p \<notin> nodes_of H n (rtn_slots nd ! i)"
    "i < 64 \<Longrightarrow> j < 64 \<Longrightarrow> i \<noteq> j \<Longrightarrow> nodes_of H n (rtn_slots nd ! i) \<inter> nodes_of H n (rtn_slots nd ! j) = {}"
    "nodes_of H (Suc n) p = insert p (\<Union>i \<in> {..<64}. nodes_of H n (rtn_slots nd ! i))"
    "length (rtn_slots nd) = 64" by (auto simp: node_ok_def)
qed

lemma replacedD:
  assumes "child_replaced H H' n p nd nd' k c'"
  shows "tree_ok H (Suc n) p" "p \<noteq> 0" "H p = Some nd" "k < 64"
    "H' p = Some nd'" "rtn_slots nd' = (rtn_slots nd)[k := c']" "node_ok (Suc n) nd'" "tree_ok H' n c'"
    "\<forall>t < 2. \<forall>i < 64. i \<noteq> k \<longrightarrow> tag_bit nd' t i = tag_bit nd t i"
    "\<forall>t < 2. if n = 0 then tag_bit nd' t k \<longrightarrow> c' \<noteq> 0 else tag_bit nd' t k = tagged H' c' t"
    "nodes_of H' n c' \<inter> (nodes_of H (Suc n) p - nodes_of H n (rtn_slots nd ! k)) = {}"
    "\<forall>a \<in> nodes_of H (Suc n) p. a \<noteq> p \<and> a \<notin> nodes_of H n (rtn_slots nd ! k) \<longrightarrow> H' a = H a"
  using assms unfolding child_replaced_def by - (elim conjE, assumption)+

text \<open>The other children keep their trees.\<close>

lemma replaced_other:
  assumes "child_replaced H H' n p nd nd' k c'" "i < 64" "i \<noteq> k"
  shows "nodes_of H' n (rtn_slots nd ! i) = nodes_of H n (rtn_slots nd ! i)"
    "item_at H' n (rtn_slots nd ! i) j = item_at H n (rtn_slots nd ! i) j" "tree_ok H' n (rtn_slots nd ! i)"
    "0 < n \<Longrightarrow> tagged H' (rtn_slots nd ! i) t = tagged H (rtn_slots nd ! i) t"
proof -
  note old = tree_parts [OF replacedD(1-3) [OF assms(1)]] and k = replacedD(4) [OF assms(1)]
  have "H' a = H a" if "a \<in> nodes_of H n (rtn_slots nd ! i)" for a
  proof -
    have "a \<in> nodes_of H (Suc n) p" using that assms(2) unfolding old(6) by blast
    moreover have "a \<noteq> p" using that old(4) [OF assms(2)] by blast
    moreover have "a \<notin> nodes_of H n (rtn_slots nd ! k)" using that old(5) [OF assms(2) k assms(3)] by blast
    ultimately show ?thesis using replacedD(12) [OF assms(1)] by blast
  qed
  from tree_frame [OF old(3) [OF assms(2)] this] show
    "nodes_of H' n (rtn_slots nd ! i) = nodes_of H n (rtn_slots nd ! i)"
    "item_at H' n (rtn_slots nd ! i) j = item_at H n (rtn_slots nd ! i) j" "tree_ok H' n (rtn_slots nd ! i)"
    "0 < n \<Longrightarrow> tagged H' (rtn_slots nd ! i) t = tagged H (rtn_slots nd ! i) t" by auto
qed

lemma replaced_rest:
  assumes "child_replaced H H' n p nd nd' k c'"
  shows "nodes_of H (Suc n) p - nodes_of H n (rtn_slots nd ! k) = insert p (\<Union>i \<in> {..<64} - {k}. nodes_of H n (rtn_slots nd ! i))"
proof -
  note u = replacedD(1-3) [OF assms] and k = replacedD(4) [OF assms]
  show ?thesis using tree_parts(4) [OF u k] tree_parts(5) [OF u _ k] k unfolding tree_parts(6) [OF u] by blast
qed

lemma replaced_slots:
  assumes "child_replaced H H' n p nd nd' k c'"
  shows "rtn_slots nd' ! k = c'" "i \<noteq> k \<Longrightarrow> rtn_slots nd' ! i = rtn_slots nd ! i"
  using tree_parts(7) [OF replacedD(1-3) [OF assms]] replacedD(4,6) [OF assms] by auto

lemma replaced_nodes:
  assumes "child_replaced H H' n p nd nd' k c'"
  shows "nodes_of H' (Suc n) p = nodes_of H (Suc n) p - nodes_of H n (rtn_slots nd ! k) \<union> nodes_of H' n c'"
proof -
  note k = replacedD(4,2,5) [OF assms]
  have "(\<Union>i \<in> {..<64}. nodes_of H' n (rtn_slots nd' ! i)) =
      (\<Union>i \<in> {..<64} - {k}. nodes_of H' n (rtn_slots nd' ! i)) \<union> nodes_of H' n (rtn_slots nd' ! k)" using k(1) by blast
  also have "\<dots> = (\<Union>i \<in> {..<64} - {k}. nodes_of H n (rtn_slots nd ! i)) \<union> nodes_of H' n c'"
    using replaced_other(1) [OF assms] replaced_slots [OF assms] by simp
  finally show ?thesis using k unfolding replaced_rest [OF assms] by simp
qed

lemma replaced_item:
  assumes "child_replaced H H' n p nd nd' k c'"
  shows "item_at H' (Suc n) p j = (if slot_offset j (Suc n) = k then item_at H' n c' j else item_at H (Suc n) p j)"
  using replacedD(2,3,5) [OF assms] replaced_slots [OF assms] replaced_other(2) [OF assms, of "slot_offset j (Suc n)" j] by simp

lemma replaced_tree:
  assumes "child_replaced H H' n p nd nd' k c'"
  shows "tree_ok H' (Suc n) p"
proof -
  note u = replacedD(1-3) [OF assms] and new = replacedD(5,7,8) [OF assms]
  note tags_other = replacedD(9) [OF assms, rule_format] and tags_here = replacedD(10) [OF assms, rule_format]
  note old = tree_parts [OF u] and other = replaced_other [OF assms] and slots = replaced_slots [OF assms]
  have tg: "tags_ok H' n nd'" unfolding tags_ok_def
  proof (intro allI impI)
    fix t i :: nat assume "t < 2" "i < 64"
    then show "if n = 0 then tag_bit nd' t i \<longrightarrow> rtn_slots nd' ! i \<noteq> 0 else tag_bit nd' t i = tagged H' (rtn_slots nd' ! i) t"
      using tags_here [of t] tags_other [of t i] old(2) other(4) [of i t] slots unfolding tags_ok_def by (cases "i = k") auto
  qed
  have cn: "nodes_of H' n c' \<inter> insert p (\<Union>i \<in> {..<64} - {k}. nodes_of H n (rtn_slots nd ! i)) = {}"
    using replacedD(11) [OF assms] unfolding replaced_rest [OF assms] .
  have ch: "tree_ok H' n (rtn_slots nd' ! i) \<and> p \<notin> nodes_of H' n (rtn_slots nd' ! i)" if "i < 64" for i
    using that new(3) cn other(1,3) [of i] old(4) [of i] slots by (cases "i = k") auto
  have dj: "nodes_of H' n (rtn_slots nd' ! i) \<inter> nodes_of H' n (rtn_slots nd' ! j) = {}" if ij: "i < 64" "j < 64" "i \<noteq> j" for i j
  proof -
    consider "i = k" | "j = k" | "i \<noteq> k" "j \<noteq> k" by blast
    then show ?thesis
    proof cases
      case 1
      then show ?thesis using ij cn other(1) [of j] slots by auto
    next
      case 2
      then show ?thesis using ij cn other(1) [of i] slots by auto
    next
      case 3
      then show ?thesis using ij other(1) old(5) slots by simp
    qed
  qed
  show ?thesis using new(1,2) tg ch dj tree_not_direct [OF u(1)] by auto
qed

section \<open>Indices\<close>

lemma maxindex_mask: "maxindex h = mask (min 32 (6 * h))"
proof (cases "32 \<le> h * 6")
  case True
  then have "min 32 (6 * h) = 32" by simp
  then show ?thesis using True by (simp add: maxindex_def mask_eq_exp_minus_1)
next
  case False
  have "bit (maxindex h) j = bit (mask (min 32 (6 * h)) :: u32) j" if "j < 32" for j
    using that False by (auto simp: maxindex_def bit_simps)
  then show ?thesis by (intro bit_word_eqI) simp
qed

lemma le_mask_iff: "(w :: u32) \<le> mask m \<longleftrightarrow> take_bit m w = w"
proof
  assume "w \<le> mask m"
  show "take_bit m w = w"
  proof (cases "m < 32")
    case True
    have "uint w \<le> uint (mask m :: u32)" using \<open>w \<le> mask m\<close> by (simp add: word_le_def)
    also have "\<dots> = mask m" using True by (simp add: uint_mask_eq min_def)
    finally have "uint w < 2 ^ m" by (simp add: mask_eq_exp_minus_1)
    then have t: "take_bit m (uint w) = uint w" by (simp add: take_bit_int_eq_self)
    have "\<not> bit w j" if "m \<le> j" "j < 32" for j
      using that bit_take_bit_iff [of m "uint w" j] unfolding t by (simp add: bit_uint_iff)
    then show ?thesis by (intro bit_word_eqI) (auto simp: bit_take_bit_iff not_less [symmetric])
  next
    case False
    then show ?thesis by (intro bit_word_eqI) (simp add: bit_take_bit_iff)
  qed
next
  assume "take_bit m w = w"
  then have "w = w AND mask m" by (simp add: take_bit_eq_mask)
  then show "w \<le> mask m" by (metis word_and_le1)
qed

lemma index_bits: "index \<le> maxindex h \<longleftrightarrow> (\<forall>j < 32. bit index j \<longrightarrow> j < 6 * h)"
proof -
  have "index \<le> maxindex h \<longleftrightarrow> take_bit (min 32 (6 * h)) index = index"
    unfolding maxindex_mask by (rule le_mask_iff)
  also have "\<dots> \<longleftrightarrow> (\<forall>j < 32. bit index j \<longrightarrow> j < 6 * h)"
    by (auto simp: bit_eq_iff bit_take_bit_iff dest: bit_imp_le_length)
  finally show ?thesis .
qed

lemma offset_bit: "k < 6 \<Longrightarrow> bit (slot_offset index (Suc m)) k = bit index (6 * m + k)"
proof -
  assume k: "k < 6"
  have e: "(63 :: u32) = mask 6" by (simp add: mask_eq_exp_minus_1)
  have "bit (drop_bit (m * 6) index AND mask 6) k = bit index (6 * m + k)"
    using k by (auto simp: bit_and_iff bit_mask_iff bit_drop_bit_eq mult.commute)
  then have b: "bit (drop_bit (m * 6) index AND 63) k = bit index (6 * m + k)" unfolding e .
  have "slot_offset index (Suc m) = unat (drop_bit (m * 6) index AND 63)" by (simp add: slot_offset_def)
  then show ?thesis using b by (simp add: bit_unsigned_iff del: bit_and_iff)
qed

lemma offset_high: "6 \<le> k \<Longrightarrow> \<not> bit (slot_offset index (Suc m)) k"
proof -
  assume "6 \<le> k"
  then have "(2 :: nat) ^ 6 \<le> 2 ^ k" by (rule power_increasing) simp
  then have "64 \<le> (2 :: nat) ^ k" by simp
  with slot_offset_less [of index "Suc m"] have "slot_offset index (Suc m) < 2 ^ k" by (rule less_le_trans)
  then show ?thesis by (simp add: bit_iff_odd)
qed

lemma offset_zero: "slot_offset index (Suc m) = 0 \<longleftrightarrow> (\<forall>k < 6. \<not> bit index (6 * m + k))"
proof
  assume "\<forall>k < 6. \<not> bit index (6 * m + k)"
  then have "\<not> bit (slot_offset index (Suc m)) k" for k using offset_bit [of k index m] offset_high [of k index m] by (cases "k < 6") auto
  then show "slot_offset index (Suc m) = 0" by (simp add: bit_eq_iff)
qed (use offset_bit [of _ index m] in auto)

definition same_path :: "nat \<Rightarrow> u32 \<Rightarrow> u32 \<Rightarrow> bool" where
  "same_path n i j \<longleftrightarrow> (\<forall>m < n. slot_offset i (Suc m) = slot_offset j (Suc m))"

lemma same_path_Suc: "same_path (Suc n) i j \<longleftrightarrow> slot_offset i (Suc n) = slot_offset j (Suc n) \<and> same_path n i j"
  by (auto simp: same_path_def less_Suc_eq)

lemma same_path_eq:
  assumes "i \<le> maxindex n" "j \<le> maxindex n"
  shows "same_path n i j \<longleftrightarrow> i = j"
proof
  assume s: "same_path n i j"
  have "bit i k = bit j k" if "k < 32" for k
  proof (cases "k < 6 * n")
    case True
    then have "k div 6 < n" "k mod 6 < 6" by (simp_all add: less_mult_imp_div_less mult.commute)
    then show ?thesis using s offset_bit [of "k mod 6" i "k div 6"] offset_bit [of "k mod 6" j "k div 6"]
      unfolding same_path_def by (metis mult_div_mod_eq)
  next
    case False
    then show ?thesis using that assms by (auto simp: index_bits)
  qed
  then show "i = j" by (intro bit_word_eqI) simp
qed (simp add: same_path_def)

lemma offset_above:
  assumes "j \<le> maxindex n" "n \<le> m"
  shows "slot_offset j (Suc m) = 0"
proof -
  have "\<not> bit j (6 * m + k)" for k
  proof
    assume b: "bit j (6 * m + k)"
    then have "6 * m + k < 32" using bit_imp_le_length by fastforce
    then have "6 * m + k < 6 * n" using b assms(1) by (simp add: index_bits)
    then show False using assms(2) by simp
  qed
  then show ?thesis unfolding offset_zero by blast
qed

lemma offset_new_level:
  assumes "maxindex n < j" "j \<le> maxindex (Suc n)"
  shows "slot_offset j (Suc n) \<noteq> 0"
proof -
  from assms(1) obtain k where k: "k < 32" "bit j k" "6 * n \<le> k" using index_bits [of j n] by (auto simp: not_le [symmetric])
  then have "k < 6 * n + 6" using assms(2) by (auto simp: index_bits)
  then have "k - 6 * n < 6" "bit j (6 * n + (k - 6 * n))" using k by auto
  then show ?thesis unfolding offset_zero by blast
qed

lemma maxindex_mono: "n \<le> m \<Longrightarrow> maxindex n \<le> maxindex m"
  using index_bits [of "maxindex n" m] index_bits [of "maxindex n" n] by fastforce

section \<open>Roots\<close>

definition rt_ptr :: "rt_root \<Rightarrow> addr" where
  "rt_ptr root = radix_tree_direct_to_ptr (rt_rnode root)"

lemma direct_to_ptr_even: "\<not> radix_tree_is_direct_ptr p \<Longrightarrow> radix_tree_direct_to_ptr p = p"
  unfolding radix_tree_is_direct_ptr_def radix_tree_direct_to_ptr_def
  by (intro bit_word_eqI) (auto simp: bit_simps and_exp_eq_0_iff_not_bit [of p 0, simplified] intro: gr0I)

lemma direct_round: "\<not> radix_tree_is_direct_ptr p \<Longrightarrow> radix_tree_direct_to_ptr (radix_tree_ptr_to_direct p) = p"
  using direct_to_ptr_even [of p] unfolding radix_tree_ptr_to_direct_def radix_tree_direct_to_ptr_def
  by (simp add: bit.conj_disj_distrib2)

lemma is_direct_direct: "radix_tree_is_direct_ptr (radix_tree_ptr_to_direct p)"
  unfolding radix_tree_is_direct_ptr_def radix_tree_ptr_to_direct_def by (simp add: bit.conj_disj_distrib2)

definition root_tags_ok :: "rt_heap \<Rightarrow> rt_root \<Rightarrow> bool" where
  "root_tags_ok H root \<longleftrightarrow> (\<forall>t < 2. if rt_height root = 0 then root_tag_get t root \<longrightarrow> rt_rnode root \<noteq> 0
     else root_tag_get t root = tagged H (rt_rnode root) t)"

definition root_ok :: "rt_heap \<Rightarrow> rt_root \<Rightarrow> bool" where
  "root_ok H root \<longleftrightarrow> rt_height root \<le> 6 \<and> tree_ok H (rt_height root) (rt_ptr root) \<and> root_tags_ok H root \<and>
     (radix_tree_is_direct_ptr (rt_rnode root) \<longleftrightarrow> rt_height root = 0 \<and> rt_rnode root \<noteq> 0) \<and>
     (rt_rnode root \<noteq> 0 \<longrightarrow> rt_ptr root \<noteq> 0)"

text \<open>The abstract contents: the item at every index, or 0.\<close>

definition contents :: "rt_heap \<Rightarrow> rt_root \<Rightarrow> u32 \<Rightarrow> addr" where
  "contents H root i = (if maxindex (rt_height root) < i then 0 else item_at H (rt_height root) (rt_ptr root) i)"

section \<open>Looking up\<close>

lemma slot_get_ok: "node_ok n nd \<Longrightarrow> i < 64 \<Longrightarrow> slot_get i nd = Some (rtn_slots nd ! i)"
  by (simp add: slot_get_def node_ok_def)

lemma lookup_loop_item:
  assumes "tree_ok (rt_nodes s) n p" "p \<noteq> 0"
  shows "lookup_loop index n p s = Some (item_at (rt_nodes s) n p index)"
  using assms
proof (induction n arbitrary: p)
  case (Suc n)
  obtain nd where nd: "rt_nodes s p = Some nd" using tree_some [OF Suc.prems] by blast
  note parts = tree_parts [OF Suc.prems nd]
  show ?case using Suc.IH [OF parts(3)] Suc.prems(2) nd slot_get_ok [OF parts(1)] by simp
qed simp

lemma lookup_contents:
  assumes "root_ok (rt_nodes s) root"
  shows "radix_tree_lookup root index s = Some (contents (rt_nodes s) root index)"
proof -
  let ?r = "rt_rnode root" and ?h = "rt_height root"
  have r: "tree_ok (rt_nodes s) ?h (rt_ptr root)" "radix_tree_is_direct_ptr ?r \<longleftrightarrow> ?h = 0 \<and> ?r \<noteq> 0"
    using assms by (auto simp: root_ok_def)
  consider (empty) "?r = 0" | (item) "?r \<noteq> 0" "?h = 0" | (node) n where "?r \<noteq> 0" "?h = Suc n" by (cases ?h) auto
  then show ?thesis
  proof cases
    case empty
    then show ?thesis by (simp add: radix_tree_lookup_def contents_def rt_ptr_def radix_tree_direct_to_ptr_def)
  next
    case item
    have "maxindex 0 = 0" by (simp add: maxindex_mask)
    then show ?thesis using item r(2) by (simp add: radix_tree_lookup_def contents_def rt_ptr_def)
  next
    case (node n)
    then have p: "rt_ptr root = ?r" "\<not> radix_tree_is_direct_ptr ?r" using r(2) direct_to_ptr_even by (auto simp: rt_ptr_def)
    then have t: "tree_ok (rt_nodes s) (Suc n) ?r" using r(1) node by simp
    obtain nd where nd: "rt_nodes s ?r = Some nd" using tree_some [OF t node(1)] by blast
    have "rtn_height nd = Suc n" using tree_parts(1) [OF t node(1) nd] by (simp add: node_ok_def)
    then show ?thesis using node p nd lookup_loop_item [OF t node(1)] by (simp add: radix_tree_lookup_def contents_def)
  qed
qed

end
