(* ===== verification/Radix_Insert.thy ===== *)
theory Radix_Insert
  imports Radix_Inv
begin

text \<open>
  Insertion into radix trees: the supply of nodes, the descent of \<open>radix_tree_insert\<close> and the growth of the tree in
  \<open>radix_tree_extend\<close>, with every outcome of the allocations on the way.
\<close>

section \<open>The supply of nodes\<close>

text \<open>
  What the code relies on of the kit's slabs: an object that is handed out is not one that is in use, and it is
  aligned.  \<open>J U k\<close> says that in the state \<open>k\<close> of the kit the objects in use are \<open>U\<close>.
\<close>

definition slab_serves :: "('k, 'z) rtkit \<Rightarrow> (addr set \<Rightarrow> 'k \<Rightarrow> bool) \<Rightarrow> kmem_cache \<Rightarrow> bool" where
  "slab_serves K J c \<longleftrightarrow> (\<forall>U k. J U k \<longrightarrow> J U (lock_lock K (kc_lock c) k) \<and> J U (lock_unlock K (kc_lock c) k) \<and>
     (case slab_alloc K (kc_slab c) k of (p, k') \<Rightarrow>
        if p = 0 then J U k' else p \<notin> U \<and> \<not> radix_tree_is_direct_ptr p \<and> J (insert p U) k'))"

text \<open>
  The cache of nodes with its constructor, the pool of preloaded nodes and the nodes that wait to be freed are in
  order.  A set of nodes is owned if it is live and disjoint from both.
\<close>

definition cache_ready :: "('k, 'z) rtkit \<Rightarrow> (addr set \<Rightarrow> 'k \<Rightarrow> bool) \<Rightarrow> kmem_cache \<Rightarrow> bool" where
  "cache_ready K J c \<longleftrightarrow> kc_ctor c \<noteq> 0 \<and> slab_serves K J c \<and>
     (\<forall>node a f u. call_ctor K (kc_ctor c) node a f u = radix_tree_node_ctor node u)"

definition pool_ok :: "('k, 'z) rtstate \<Rightarrow> bool" where
  "pool_ok s \<longleftrightarrow> distinct (rt_preload s) \<and>
     (\<forall>p \<in> set (rt_preload s). p \<noteq> 0 \<and> \<not> radix_tree_is_direct_ptr p \<and> rt_nodes s p = Some zero_node) \<and>
     set (rcu_queue s) \<subseteq> dom (rt_nodes s) \<and> set (rcu_queue s) \<inter> set (rt_preload s) = {}"

definition rt_env :: "('k, 'z) rtkit \<Rightarrow> (addr set \<Rightarrow> 'k \<Rightarrow> bool) \<Rightarrow> ('k, 'z) rtstate \<Rightarrow> bool" where
  "rt_env K J s \<longleftrightarrow> (\<exists>c. caches s (rt_cachep s) = Some c \<and> cache_ready K J c) \<and> J (dom (rt_nodes s)) (kit s) \<and> pool_ok s"

definition owned :: "('k, 'z) rtstate \<Rightarrow> addr set \<Rightarrow> bool" where
  "owned s A \<longleftrightarrow> A \<subseteq> dom (rt_nodes s) \<and> A \<inter> (set (rt_preload s) \<union> set (rcu_queue s)) = {}"

lemma owned_subset: "owned s A \<Longrightarrow> B \<subseteq> A \<Longrightarrow> owned s B"
  unfolding owned_def by blast

text \<open>An allocation from the cache: a zeroed node that was not in use, or nothing.\<close>

lemma cache_alloc:
  assumes "rt_env K J s"
  obtains p s' where "kmem_cache_alloc K (rt_cachep s) f s = Some (p, s')" "rt_cachep s' = rt_cachep s" "caches s' = caches s"
    "rt_preload s' = rt_preload s" "rcu_queue s' = rcu_queue s" "J (dom (rt_nodes s')) (kit s')"
    "if p = 0 then rt_nodes s' = rt_nodes s
     else p \<notin> dom (rt_nodes s) \<and> \<not> radix_tree_is_direct_ptr p \<and> rt_nodes s' = (rt_nodes s)(p \<mapsto> zero_node)"
proof -
  obtain c where c: "caches s (rt_cachep s) = Some c" "cache_ready K J c" and j: "J (dom (rt_nodes s)) (kit s)"
    using assms by (auto simp: rt_env_def)
  define k1 where "k1 = lock_lock K (kc_lock c) (kit s)"
  obtain p k2 where a: "slab_alloc K (kc_slab c) k1 = (p, k2)" by (cases "slab_alloc K (kc_slab c) k1")
  have sv: "\<And>U k. J U k \<Longrightarrow> J U (lock_lock K (kc_lock c) k)" "\<And>U k. J U k \<Longrightarrow> J U (lock_unlock K (kc_lock c) k)"
    "\<And>U k. J U k \<Longrightarrow> case slab_alloc K (kc_slab c) k of (p, k') \<Rightarrow>
        if p = 0 then J U k' else p \<notin> U \<and> \<not> radix_tree_is_direct_ptr p \<and> J (insert p U) k'"
    using c(2) by (auto simp: cache_ready_def slab_serves_def)
  have j2: "if p = 0 then J (dom (rt_nodes s)) (lock_unlock K (kc_lock c) k2)
      else p \<notin> dom (rt_nodes s) \<and> \<not> radix_tree_is_direct_ptr p \<and> J (insert p (dom (rt_nodes s))) (lock_unlock K (kc_lock c) k2)"
    using sv(3) [OF sv(1) [OF j]] sv(2) a unfolding k1_def [symmetric] by (auto split: if_splits)
  have ct: "kc_ctor c \<noteq> 0" "\<And>node a f u. call_ctor K (kc_ctor c) node a f u = radix_tree_node_ctor node u"
    using c(2) by (auto simp: cache_ready_def)
  show ?thesis
  proof (cases "p = 0")
    case True
    then show ?thesis
      using a c(1) j2 by (intro that [of 0 "s\<lparr>kit := lock_unlock K (kc_lock c) k2\<rparr>"])
        (simp_all add: kmem_cache_alloc_def kcall_def k1_def)
  next
    case False
    let ?s = "radix_tree_node_ctor p ((if f AND GFP_ZERO \<noteq> 0 then mem_update (memset p 0 (kc_size c)) else id) (s\<lparr>kit := lock_unlock K (kc_lock c) k2\<rparr>))"
    have "kmem_cache_alloc K (rt_cachep s) f s = Some (p, ?s)"
      using a c(1) ct False by (simp add: kmem_cache_alloc_def kcall_def k1_def o_def)
    then show ?thesis
      using False j2 by (intro that [of p ?s]) (simp_all add: radix_tree_node_ctor_def)
  qed
qed

lemma pool_ok_new:
  assumes "pool_ok s" "p \<notin> dom (rt_nodes s)" "rt_nodes s' = (rt_nodes s)(p \<mapsto> n)" "rt_preload s' = rt_preload s" "rcu_queue s' = rcu_queue s"
  shows "pool_ok s'" "p \<notin> set (rt_preload s)" "p \<notin> set (rcu_queue s)"
  using assms unfolding pool_ok_def by (fastforce simp: dom_def)+

lemma node_alloc_ok:
  assumes "rt_env K J s" "owned s A"
  obtains p s' where "radix_tree_node_alloc K root s = Some (p, s')" "rt_env K J s'" "rcu_queue s' = rcu_queue s"
    "if p = 0 then rt_nodes s' = rt_nodes s \<and> owned s' A
     else p \<notin> A \<and> \<not> radix_tree_is_direct_ptr p \<and> rt_nodes s' = (rt_nodes s)(p \<mapsto> zero_node) \<and> owned s' (insert p A)"
proof -
  obtain p s1 where a: "kmem_cache_alloc K (rt_cachep s) (root_gfp_mask root) s = Some (p, s1)" "rt_cachep s1 = rt_cachep s"
    "caches s1 = caches s" "rt_preload s1 = rt_preload s" "rcu_queue s1 = rcu_queue s" "J (dom (rt_nodes s1)) (kit s1)"
    "if p = 0 then rt_nodes s1 = rt_nodes s
     else p \<notin> dom (rt_nodes s) \<and> \<not> radix_tree_is_direct_ptr p \<and> rt_nodes s1 = (rt_nodes s)(p \<mapsto> zero_node)"
    using cache_alloc [OF assms(1)] by metis
  have e: "\<exists>c. caches s1 (rt_cachep s1) = Some c \<and> cache_ready K J c" "pool_ok s"
    using assms(1) a(2,3) by (simp_all add: rt_env_def)
  consider (new) "p \<noteq> 0" | (none) "p = 0" "root_gfp_mask root AND GFP_WAIT \<noteq> 0 \<or> rt_preload s1 = []"
    | (pool) q ps where "p = 0" "root_gfp_mask root AND GFP_WAIT = 0" "rt_preload s1 = q # ps"
    by (cases "rt_preload s1") auto
  then show ?thesis
  proof cases
    case new
    then have n: "p \<notin> dom (rt_nodes s)" "rt_nodes s1 = (rt_nodes s)(p \<mapsto> zero_node)" "\<not> radix_tree_is_direct_ptr p"
      using a(7) by simp_all
    note pk = pool_ok_new [OF e(2) n(1,2) a(4,5)]
    show ?thesis
    proof (rule that)
      show "radix_tree_node_alloc K root s = Some (p, s1)" using a(1) new n(3) by (simp add: radix_tree_node_alloc_def)
      show "rt_env K J s1" using e(1) a(6) pk(1) by (simp add: rt_env_def)
      show "if p = 0 then rt_nodes s1 = rt_nodes s \<and> owned s1 A
        else p \<notin> A \<and> \<not> radix_tree_is_direct_ptr p \<and> rt_nodes s1 = (rt_nodes s)(p \<mapsto> zero_node) \<and> owned s1 (insert p A)"
        using new n pk(2,3) assms(2) a(4,5) by (auto simp: owned_def)
    qed (rule a(5))
  next
    case none
    then have n: "rt_nodes s1 = rt_nodes s" using a(7) by simp
    have "pool_ok s1" using e(2) n a(4,5) by (simp add: pool_ok_def)
    then show ?thesis
      using none n a e(1) assms(2) by (intro that [of 0 s1]) (auto simp: radix_tree_node_alloc_def rt_env_def owned_def)
  next
    case pool
    let ?s = "s1\<lparr>rt_preload := ps\<rparr>"
    have n: "rt_nodes s1 = rt_nodes s" using a(7) pool(1) by simp
    have pl: "rt_preload s = q # ps" using pool(3) a(4) by simp
    have q: "q \<noteq> 0" "\<not> radix_tree_is_direct_ptr q" "rt_nodes s q = Some zero_node" "q \<notin> set ps" "q \<notin> set (rcu_queue s)" "pool_ok ?s"
      using e(2) pool(3) n a(4,5) by (auto simp: pool_ok_def)
    show ?thesis
    proof (rule that)
      show "radix_tree_node_alloc K root s = Some (q, ?s)" using a(1) pool q(2) by (simp add: radix_tree_node_alloc_def)
      show "rt_env K J ?s" using e(1) a(6) q(6) by (simp add: rt_env_def)
      show "if q = 0 then rt_nodes ?s = rt_nodes s \<and> owned ?s A
        else q \<notin> A \<and> \<not> radix_tree_is_direct_ptr q \<and> rt_nodes ?s = (rt_nodes s)(q \<mapsto> zero_node) \<and> owned ?s (insert q A)"
        using q n assms(2) a(5) pl by (auto simp: owned_def fun_upd_idem)
    qed (simp add: a(5))
  qed
qed

text \<open>Writing an owned node keeps the supply in order.\<close>

lemma write_owned:
  assumes "rt_env K J s" "owned s A" "a \<in> A"
  shows "rt_env K J (s\<lparr>rt_nodes := (rt_nodes s)(a \<mapsto> n)\<rparr>)" "owned (s\<lparr>rt_nodes := (rt_nodes s)(a \<mapsto> n)\<rparr>) A"
proof -
  have a: "a \<in> dom (rt_nodes s)" "a \<notin> set (rt_preload s)" using assms(2,3) by (auto simp: owned_def)
  then have d: "insert a (dom (rt_nodes s)) = dom (rt_nodes s)" by blast
  show "rt_env K J (s\<lparr>rt_nodes := (rt_nodes s)(a \<mapsto> n)\<rparr>)" using assms(1) a d by (auto simp: rt_env_def pool_ok_def)
  show "owned (s\<lparr>rt_nodes := (rt_nodes s)(a \<mapsto> n)\<rparr>) A" using assms(2) a by (auto simp: owned_def)
qed

text \<open>The updates of one node.\<close>

lemma node_update_ok: "rt_nodes s a = Some n \<Longrightarrow> f n = Some m \<Longrightarrow> node_update a f s = Some (s\<lparr>rt_nodes := (rt_nodes s)(a \<mapsto> m)\<rparr>)"
  by (simp add: node_update_def)

lemma tag_get_ok:
  assumes "node_ok n nd" "t < 2" "i < 64"
  shows "tag_get t i nd = Some (tag_bit nd t i)"
  using assms test_bit_eq [of i "rtn_tags nd ! t"] by (simp add: tag_get_def tag_bit_def node_ok_def)

definition with_child :: "rt_node \<Rightarrow> nat \<Rightarrow> addr \<Rightarrow> rt_node" where
  "with_child nd off p = nd\<lparr>rtn_slots := (rtn_slots nd)[off := p],
     rtn_count := rtn_count nd + (if rtn_slots nd ! off = 0 \<and> p \<noteq> 0 then 1 else 0)\<rparr>"

lemma with_child_parts [simp]:
  "rtn_slots (with_child nd off p) = (rtn_slots nd)[off := p]" "tag_bit (with_child nd off p) t i = tag_bit nd t i"
  by (simp_all add: with_child_def tag_bit_def)

lemma with_child_same [simp]: "with_child nd off (rtn_slots nd ! off) = nd"
  by (simp add: with_child_def)

lemma with_child_twice: "off < length (rtn_slots nd) \<Longrightarrow> q \<noteq> 0 \<Longrightarrow> with_child (with_child nd off q) off q = with_child nd off q"
  by (simp add: with_child_def)

lemma with_child_ok:
  assumes "node_ok n nd" "off_ok n off" "rtn_slots nd ! off \<noteq> 0 \<longrightarrow> p = rtn_slots nd ! off"
  shows "node_ok n (with_child nd off p)"
proof -
  have l: "length (rtn_slots nd) = 64" "rtn_count nd = of_nat (card (used_slots (rtn_slots nd)))" "off < 64"
    using assms(1,2) by (simp_all add: node_ok_def off_ok_def)
  have "rtn_count nd + (if rtn_slots nd ! off = 0 \<and> p \<noteq> 0 then 1 else 0) = of_nat (card (used_slots ((rtn_slots nd)[off := p])))"
    using used_slots_update [OF l(1,3), of p] assms(3) l(2) by (cases "rtn_slots nd ! off = 0"; cases "p = 0") simp_all
  moreover have "\<forall>i < 64. (rtn_slots nd)[off := p] ! i \<noteq> 0 \<longrightarrow> off_ok n i"
  proof (intro allI impI)
    fix i :: nat assume "i < 64" "(rtn_slots nd)[off := p] ! i \<noteq> 0"
    then show "off_ok n i" using assms(1,2) l(1) by (cases "i = off") (auto simp: node_ok_def)
  qed
  ultimately show ?thesis using assms(1) by (simp add: node_ok_def with_child_def)
qed

lemma link_child_ok:
  assumes "rt_nodes s node = Some nd" "node \<noteq> 0" "off < length (rtn_slots nd)" "rtn_slots nd ! off = 0" "q \<noteq> 0"
  shows "link_child q node off root s = Some (root, s\<lparr>rt_nodes := (rt_nodes s)(node \<mapsto> with_child nd off q)\<rparr>)"
  using assms by (simp add: link_child_def node_update_def slot_set_def count_up_def with_child_def)

lemma insert_item_ok:
  assumes "rt_nodes s node = Some nd" "node \<noteq> 0" "node_ok n nd" "off_ok n off" "rtn_slots nd ! off = 0" "item \<noteq> 0"
    and "\<And>t. t < 2 \<Longrightarrow> \<not> tag_bit nd t off"
  shows "insert_item item node off root s = Some (0, root, s\<lparr>rt_nodes := (rt_nodes s)(node \<mapsto> with_child nd off item)\<rparr>)"
proof -
  have l: "off < length (rtn_slots nd)" "off < 64" using assms(3,4) by (simp_all add: node_ok_def off_ok_def)
  have k: "node_ok n (with_child nd off item)" by (rule with_child_ok) (use assms in auto)
  have "untagged off (with_child nd off item) = Some True"
    using tag_get_ok [OF k, of 0 off] tag_get_ok [OF k, of 1 off] l(2) assms(7) [of 0] assms(7) [of 1] by (simp add: untagged_def)
  moreover have "with_child nd off item = nd\<lparr>rtn_count := rtn_count nd + 1, rtn_slots := (rtn_slots nd)[off := item]\<rparr>"
    using assms(5,6) by (simp add: with_child_def)
  ultimately show ?thesis using assms(1,2) l(1) by (simp add: insert_item_def node_update_def slot_set_def count_up_def)
qed

section \<open>The descent\<close>

text \<open>
  Before a step of the descent: the tree of height \<open>n\<close> below \<open>slot\<close>, which is the child \<open>off\<close> of the node \<open>node\<close>, and
  a set \<open>A\<close> of owned nodes that holds them.
\<close>

definition descent :: "('k, 'z) rtkit \<Rightarrow> (addr set \<Rightarrow> 'k \<Rightarrow> bool) \<Rightarrow> nat \<Rightarrow> addr \<Rightarrow> rt_node \<Rightarrow> nat \<Rightarrow> addr set \<Rightarrow> ('k, 'z) rtstate \<Rightarrow> bool" where
  "descent K J n node nd off A s \<longleftrightarrow> rt_env K J s \<and> owned s A \<and> node \<in> A \<and> node \<noteq> 0 \<and> rt_nodes s node = Some nd \<and>
     node_ok (Suc n) nd \<and> off_ok (Suc n) off \<and> tree_ok (rt_nodes s) n (rtn_slots nd ! off) \<and> nodes_of (rt_nodes s) n (rtn_slots nd ! off) \<subseteq> A - {node} \<and>
     (rtn_slots nd ! off = 0 \<longrightarrow> (\<forall>t < 2. \<not> tag_bit nd t off))"

lemma descentD:
  assumes "descent K J n node nd off A s"
  shows "rt_env K J s" "owned s A" "node \<in> A" "node \<noteq> 0" "rt_nodes s node = Some nd" "node_ok (Suc n) nd" "off_ok (Suc n) off"
    "tree_ok (rt_nodes s) n (rtn_slots nd ! off)" "nodes_of (rt_nodes s) n (rtn_slots nd ! off) \<subseteq> A - {node}"
    "rtn_slots nd ! off = 0 \<Longrightarrow> t < 2 \<Longrightarrow> \<not> tag_bit nd t off"
  using assms unfolding descent_def by blast+

text \<open>
  After it: the child is \<open>p\<close>, the nodes \<open>N\<close> are new, and nothing outside the child's tree has changed but the parent's
  slot and count.
\<close>

definition frame :: "rt_heap \<Rightarrow> rt_heap \<Rightarrow> addr set \<Rightarrow> addr set \<Rightarrow> bool" where
  "frame H H' A D \<longleftrightarrow> (\<forall>a \<in> A - D. H' a = H a)"

definition landed :: "('k, 'z) rtkit \<Rightarrow> (addr set \<Rightarrow> 'k \<Rightarrow> bool) \<Rightarrow> nat \<Rightarrow> addr \<Rightarrow> rt_node \<Rightarrow> nat \<Rightarrow> addr set \<Rightarrow> ('k, 'z) rtstate
    \<Rightarrow> addr \<Rightarrow> addr set \<Rightarrow> ('k, 'z) rtstate \<Rightarrow> bool" where
  "landed K J n node nd off A s p N s' \<longleftrightarrow> rt_env K J s' \<and> owned s' (A \<union> N) \<and> N \<inter> A = {} \<and> rcu_queue s' = rcu_queue s \<and>
     frame (rt_nodes s) (rt_nodes s') A (insert node (nodes_of (rt_nodes s) n (rtn_slots nd ! off))) \<and>
     rt_nodes s' node = Some (with_child nd off p) \<and> (rtn_slots nd ! off \<noteq> 0 \<longrightarrow> p = rtn_slots nd ! off) \<and>
     tree_ok (rt_nodes s') n p \<and> nodes_of (rt_nodes s') n p \<subseteq> nodes_of (rt_nodes s) n (rtn_slots nd ! off) \<union> N \<and>
     (0 < n \<longrightarrow> (\<forall>t < 2. tagged (rt_nodes s') p t = tagged (rt_nodes s) (rtn_slots nd ! off) t))"

lemma landedD:
  assumes "landed K J n node nd off A s p N s'"
  shows "rt_env K J s'" "owned s' (A \<union> N)" "N \<inter> A = {}" "rcu_queue s' = rcu_queue s"
    "a \<in> A \<Longrightarrow> a \<noteq> node \<Longrightarrow> a \<notin> nodes_of (rt_nodes s) n (rtn_slots nd ! off) \<Longrightarrow> rt_nodes s' a = rt_nodes s a"
    "rt_nodes s' node = Some (with_child nd off p)" "rtn_slots nd ! off \<noteq> 0 \<longrightarrow> p = rtn_slots nd ! off"
    "tree_ok (rt_nodes s') n p" "nodes_of (rt_nodes s') n p \<subseteq> nodes_of (rt_nodes s) n (rtn_slots nd ! off) \<union> N"
    "0 < n \<Longrightarrow> t < 2 \<Longrightarrow> tagged (rt_nodes s') p t = tagged (rt_nodes s) (rtn_slots nd ! off) t"
  using assms unfolding landed_def frame_def by blast+

text \<open>What the insertion returns, and what the child's tree holds afterwards.\<close>

definition outcome :: "int \<Rightarrow> addr \<Rightarrow> bool" where
  "outcome err old \<longleftrightarrow> (if old \<noteq> 0 then err = - EEXIST else err = 0 \<or> err = - ENOMEM)"

definition items_after :: "rt_heap \<Rightarrow> rt_heap \<Rightarrow> nat \<Rightarrow> u32 \<Rightarrow> addr \<Rightarrow> addr \<Rightarrow> addr \<Rightarrow> int \<Rightarrow> bool" where
  "items_after H H' n index item c p err \<longleftrightarrow> (\<forall>j. item_at H' n p j = (if err = 0 \<and> same_path n index j then item else item_at H n c j))"

definition inserts :: "('k, 'z) rtkit \<Rightarrow> (addr set \<Rightarrow> 'k \<Rightarrow> bool) \<Rightarrow> u32 \<Rightarrow> addr \<Rightarrow> nat \<Rightarrow> addr \<Rightarrow> rt_node \<Rightarrow> nat \<Rightarrow> addr set \<Rightarrow> rt_root
    \<Rightarrow> ('k, 'z) rtstate \<Rightarrow> bool" where
  "inserts K J index item n node nd off A root s \<longleftrightarrow> (\<exists>err s' p N.
     insert_loop K index item n node off (rtn_slots nd ! off) root s = Some (err, root, s') \<and> landed K J n node nd off A s p N s' \<and>
     outcome err (item_at (rt_nodes s) n (rtn_slots nd ! off) index) \<and>
     items_after (rt_nodes s) (rt_nodes s') n index item (rtn_slots nd ! off) p err)"

lemma errno_values [simp]: "- EEXIST \<noteq> 0" "- ENOMEM \<noteq> 0" "- EEXIST \<noteq> - ENOMEM"
  by simp_all

lemma landed_same:
  assumes "descent K J n node nd off A s" "rt_nodes s' = rt_nodes s" "rt_env K J s'" "owned s' A" "rcu_queue s' = rcu_queue s"
  shows "landed K J n node nd off A s (rtn_slots nd ! off) {} s'"
  using assms(2-) descentD [OF assms(1)] unfolding landed_def frame_def by simp

lemma insert_at_item:
  assumes d: "descent K J 0 node nd off A s" and item: "item \<noteq> 0" "\<not> radix_tree_is_direct_ptr item"
  shows "inserts K J index item 0 node nd off A root s"
proof (cases "rtn_slots nd ! off = 0")
  case True
  note w = descentD [OF d]
  let ?s = "s\<lparr>rt_nodes := (rt_nodes s)(node \<mapsto> with_child nd off item)\<rparr>"
  have r: "insert_item item node off root s = Some (0, root, ?s)"
    by (rule insert_item_ok [OF w(5,4,6,7) True item(1)]) (use w(10) True in blast)
  have "landed K J 0 node nd off A s item {} ?s"
    using write_owned [OF w(1-3)] True item(2) by (simp add: landed_def frame_def)
  moreover have "items_after (rt_nodes s) (rt_nodes ?s) 0 index item (rtn_slots nd ! off) item 0"
    by (simp add: items_after_def same_path_def)
  ultimately show ?thesis unfolding inserts_def
    using True r by (intro exI [of _ "0 :: int"] exI [of _ ?s] exI [of _ item] exI [of _ "{}"]) (simp add: outcome_def)
next
  case False
  have "landed K J 0 node nd off A s (rtn_slots nd ! off) {} s"
    by (rule landed_same [OF d refl]) (use descentD [OF d] in auto)
  then show ?thesis unfolding inserts_def
    using False by (intro exI [of _ "- EEXIST"] exI [of _ s] exI [of _ "rtn_slots nd ! off"] exI [of _ "{}"])
      (simp add: outcome_def items_after_def)
qed

text \<open>The step into an existing child, and the way back up.\<close>

definition subtree :: "('k, 'z) rtkit \<Rightarrow> (addr set \<Rightarrow> 'k \<Rightarrow> bool) \<Rightarrow> nat \<Rightarrow> addr \<Rightarrow> addr set \<Rightarrow> ('k, 'z) rtstate \<Rightarrow> bool" where
  "subtree K J n p A s \<longleftrightarrow> rt_env K J s \<and> owned s A \<and> tree_ok (rt_nodes s) n p \<and> p \<noteq> 0 \<and> nodes_of (rt_nodes s) n p \<subseteq> A"

lemma subtreeD:
  assumes "subtree K J n p A s"
  shows "rt_env K J s" "owned s A" "tree_ok (rt_nodes s) n p" "p \<noteq> 0" "nodes_of (rt_nodes s) n p \<subseteq> A"
  using assms unfolding subtree_def by blast+

lemma descent_subtree: "descent K J n node nd off A s \<Longrightarrow> rtn_slots nd ! off \<noteq> 0 \<Longrightarrow> subtree K J n (rtn_slots nd ! off) A s"
  unfolding descent_def subtree_def by blast

lemma descent_down:
  assumes t: "subtree K J (Suc n) p A s" and c: "rt_nodes s p = Some cd" and ok: "off_ok (Suc n) k"
  shows "descent K J n p cd k A s"
proof -
  have k: "k < 64" using ok by (simp add: off_ok_def)
  note w = subtreeD [OF t]
  note parts = tree_parts [OF w(3,4) c]
  have "\<not> tag_bit cd t k" if "rtn_slots cd ! k = 0" "t < 2" for t
    using parts(2) that k unfolding tags_ok_def by (cases n) auto
  moreover have "nodes_of (rt_nodes s) n (rtn_slots cd ! k) \<subseteq> A - {p}" "p \<in> A"
    using w(5) parts(4) [OF k] k unfolding parts(6) by auto
  ultimately show ?thesis using w(1,2,4) c parts(1) parts(3) [OF k] ok unfolding descent_def by simp
qed

lemma landed_replaces:
  assumes t: "subtree K J (Suc n) p A s" and c: "rt_nodes s p = Some cd" and ok: "off_ok (Suc n) k" and l: "landed K J n p cd k A s q N s'"
  shows "child_replaced (rt_nodes s) (rt_nodes s') n p cd (with_child cd k q) k q"
proof -
  have k: "k < 64" using ok by (simp add: off_ok_def)
  note w = subtreeD [OF t] and v = landedD [OF l]
  note parts = tree_parts [OF w(3,4) c]
  have "if n = 0 then tag_bit cd t k \<longrightarrow> q \<noteq> 0 else tag_bit cd t k = tagged (rt_nodes s') q t" if "t < 2" for t
    using parts(2) that k v(7) v(10) [OF _ that] unfolding tags_ok_def by auto
  moreover have "nodes_of (rt_nodes s') n q \<inter> (nodes_of (rt_nodes s) (Suc n) p - nodes_of (rt_nodes s) n (rtn_slots cd ! k)) = {}"
    using v(9,3) w(5) by blast
  moreover have "\<forall>a \<in> nodes_of (rt_nodes s) (Suc n) p.
      a \<noteq> p \<and> a \<notin> nodes_of (rt_nodes s) n (rtn_slots cd ! k) \<longrightarrow> rt_nodes s' a = rt_nodes s a"
    using v(5) w(5) by blast
  ultimately show ?thesis using w(3,4) c k v(6,8) with_child_ok [OF parts(1) ok v(7)] unfolding child_replaced_def by simp
qed

text \<open>The tree at \<open>p\<close> has changed in place; \<open>N\<close> are the nodes that were added.\<close>

definition grown :: "('k, 'z) rtkit \<Rightarrow> (addr set \<Rightarrow> 'k \<Rightarrow> bool) \<Rightarrow> nat \<Rightarrow> addr \<Rightarrow> addr set \<Rightarrow> ('k, 'z) rtstate \<Rightarrow> addr set \<Rightarrow> ('k, 'z) rtstate \<Rightarrow> bool" where
  "grown K J n p A s N s' \<longleftrightarrow> rt_env K J s' \<and> owned s' (A \<union> N) \<and> N \<inter> A = {} \<and> rcu_queue s' = rcu_queue s \<and>
     tree_ok (rt_nodes s') n p \<and> nodes_of (rt_nodes s') n p \<subseteq> nodes_of (rt_nodes s) n p \<union> N \<and>
     (\<forall>a \<in> A - nodes_of (rt_nodes s) n p. rt_nodes s' a = rt_nodes s a) \<and> (\<forall>t. tagged (rt_nodes s') p t = tagged (rt_nodes s) p t)"

lemma landed_grown:
  assumes t: "subtree K J (Suc n) p A s" and c: "rt_nodes s p = Some cd" and ok: "off_ok (Suc n) k" and l: "landed K J n p cd k A s q N s'"
  shows "grown K J (Suc n) p A s N s'"
proof -
  have k: "k < 64" using ok by (simp add: off_ok_def)
  note w = subtreeD [OF t] and v = landedD [OF l] and r = landed_replaces [OF assms]
  note parts = tree_parts [OF w(3,4) c]
  have p: "p \<in> nodes_of (rt_nodes s) (Suc n) p" "nodes_of (rt_nodes s) n (rtn_slots cd ! k) \<subseteq> nodes_of (rt_nodes s) (Suc n) p"
    using k unfolding parts(6) by auto
  have "nodes_of (rt_nodes s') (Suc n) p \<subseteq> nodes_of (rt_nodes s) (Suc n) p \<union> N"
    using v(9) p(2) unfolding replaced_nodes [OF r] by blast
  moreover have "tagged (rt_nodes s') p t = tagged (rt_nodes s) p t" for t
    using v(6) c w(4) unfolding tagged_def by simp
  moreover have "rt_nodes s' a = rt_nodes s a" if "a \<in> A - nodes_of (rt_nodes s) (Suc n) p" for a
    by (rule v(5)) (use that p in blast)+
  ultimately show ?thesis using v(1-4) replaced_tree [OF r] unfolding grown_def by simp
qed

lemma grown_landed:
  assumes d: "descent K J n node nd off A s" and g: "grown K J n (rtn_slots nd ! off) A s N s'"
  shows "landed K J n node nd off A s (rtn_slots nd ! off) N s'"
proof -
  note w = descentD [OF d]
  have "node \<in> A - nodes_of (rt_nodes s) n (rtn_slots nd ! off)" using w(3,9) by blast
  then have "rt_nodes s' node = rt_nodes s node" using g unfolding grown_def by blast
  then have "rt_nodes s' node = Some nd" using w(5) by simp
  then show ?thesis using g unfolding landed_def grown_def frame_def by simp
qed

text \<open>The descent from a node, given what the insertion does below it.\<close>

lemma insert_from_node:
  assumes t: "subtree K J (Suc n) p A s" and c: "rt_nodes s p = Some cd"
    and below: "inserts K J index item n p cd (slot_offset index (Suc n)) A root s"
  obtains err s' N where "insert_loop K index item (Suc n) node off p root s = Some (err, root, s')" "grown K J (Suc n) p A s N s'"
    "outcome err (item_at (rt_nodes s) (Suc n) p index)" "items_after (rt_nodes s) (rt_nodes s') (Suc n) index item p p err"
proof -
  let ?k = "slot_offset index (Suc n)"
  note w = subtreeD [OF t]
  note parts = tree_parts [OF w(3,4) c]
  obtain err s' q N where r: "insert_loop K index item n p ?k (rtn_slots cd ! ?k) root s = Some (err, root, s')"
    "landed K J n p cd ?k A s q N s'" "outcome err (item_at (rt_nodes s) n (rtn_slots cd ! ?k) index)"
    "items_after (rt_nodes s) (rt_nodes s') n index item (rtn_slots cd ! ?k) q err"
    using below unfolding inserts_def by blast
  have old: "item_at (rt_nodes s) (Suc n) p j = item_at (rt_nodes s) n (rtn_slots cd ! slot_offset j (Suc n)) j" for j
    using w(4) c by simp
  show ?thesis
  proof (rule that)
    show "insert_loop K index item (Suc n) node off p root s = Some (err, root, s')"
      using w(4) c r(1) slot_get_ok [OF parts(1) slot_offset_less] by simp
    show "grown K J (Suc n) p A s N s'" by (rule landed_grown [OF t c slot_offset_ok r(2)])
    show "outcome err (item_at (rt_nodes s) (Suc n) p index)" using r(3) unfolding old .
    show "items_after (rt_nodes s) (rt_nodes s') (Suc n) index item p p err"
      using r(4) unfolding items_after_def replaced_item [OF landed_replaces [OF t c slot_offset_ok r(2)]] same_path_Suc old by auto
  qed
qed

lemma insert_descends:
  assumes d: "descent K J (Suc n) node nd off A s" and p: "rtn_slots nd ! off \<noteq> 0"
    and IH: "\<And>node nd off A s. descent K J n node nd off A s \<Longrightarrow> inserts K J index item n node nd off A root s"
  shows "inserts K J index item (Suc n) node nd off A root s"
proof -
  note t = descent_subtree [OF d p]
  obtain cd where c: "rt_nodes s (rtn_slots nd ! off) = Some cd" using tree_some [OF subtreeD(3,4) [OF t]] by blast
  show ?thesis
    using insert_from_node [OF t c IH [OF descent_down [OF t c slot_offset_ok]]] grown_landed [OF d] unfolding inserts_def by metis
qed

text \<open>A node as it is after its allocation is an empty tree.\<close>

definition fresh_node :: "nat \<Rightarrow> rt_node" where
  "fresh_node n = zero_node\<lparr>rtn_height := n\<rparr>"

lemma fresh_node_parts: "rtn_slots (fresh_node n) = replicate 64 0" "t < 2 \<Longrightarrow> i < 64 \<Longrightarrow> \<not> tag_bit (fresh_node n) t i"
  "node_ok n (fresh_node n)"
proof -
  have u: "used_slots (replicate 64 0) = {}" by (simp add: used_slots_def)
  show "rtn_slots (fresh_node n) = replicate 64 0" by (simp add: fresh_node_def zero_node_def)
  show "node_ok n (fresh_node n)" using u by (auto simp: node_ok_def fresh_node_def zero_node_def less_Suc_eq numeral_2_eq_2)
  assume "t < 2" "i < 64"
  then have "i div 32 < 2" by simp
  then show "\<not> tag_bit (fresh_node n) t i" using \<open>t < 2\<close>
    by (auto simp: fresh_node_def zero_node_def tag_bit_def bit_at_def less_Suc_eq numeral_2_eq_2)
qed

lemma fresh_tree:
  assumes "H p = Some (fresh_node (Suc n))" "p \<noteq> 0" "\<not> radix_tree_is_direct_ptr p"
  shows "tree_ok H (Suc n) p" "nodes_of H (Suc n) p = {p}" "item_at H (Suc n) p j = 0" "t < 2 \<Longrightarrow> \<not> tagged H p t"
proof -
  have s: "rtn_slots (fresh_node (Suc n)) ! i = 0" if "i < 64" for i using that by (simp add: fresh_node_parts(1))
  have "tags_ok H n (fresh_node (Suc n))" using s fresh_node_parts(2) by (simp add: tags_ok_def)
  then show "tree_ok H (Suc n) p" using assms s fresh_node_parts(3) by simp
  show "nodes_of H (Suc n) p = {p}" "item_at H (Suc n) p j = 0" using assms s by auto
  show "t < 2 \<Longrightarrow> \<not> tagged H p t" using assms fresh_node_parts(2) by (simp add: tagged_def)
qed

definition linked :: "nat \<Rightarrow> addr \<Rightarrow> rt_node \<Rightarrow> nat \<Rightarrow> addr \<Rightarrow> ('k, 'z) rtstate \<Rightarrow> ('k, 'z) rtstate" where
  "linked n node nd off p s = s\<lparr>rt_nodes := (rt_nodes s)(p \<mapsto> fresh_node n, node \<mapsto> with_child nd off p)\<rparr>"

lemma linked_descent:
  assumes d: "descent K J (Suc n) node nd off A s" and z: "rtn_slots nd ! off = 0"
    and s1: "rt_env K J s1" "rt_nodes s1 = (rt_nodes s)(p \<mapsto> zero_node)" "owned s1 (insert p A)"
    and p: "p \<noteq> 0" "p \<notin> A" "\<not> radix_tree_is_direct_ptr p"
  shows "descent K J (Suc n) node (with_child nd off p) off (insert p A) (linked (Suc n) node nd off p s1)"
proof -
  note w = descentD [OF d]
  let ?s2 = "s1\<lparr>rt_nodes := (rt_nodes s1)(p \<mapsto> fresh_node (Suc n))\<rparr>" and ?s3 = "linked (Suc n) node nd off p s1"
  have s3: "?s3 = ?s2\<lparr>rt_nodes := (rt_nodes ?s2)(node \<mapsto> with_child nd off p)\<rparr>" by (simp add: linked_def)
  have e2: "rt_env K J ?s2" "owned ?s2 (insert p A)" using write_owned [OF s1(1,3), of p] by simp_all
  have e3: "rt_env K J ?s3" "owned ?s3 (insert p A)" using write_owned [OF e2, of node] w(3) unfolding s3 by simp_all
  have ne: "node \<noteq> p" using w(3) p(2) by blast
  have h: "rt_nodes ?s3 p = Some (fresh_node (Suc n))" "rt_nodes ?s3 node = Some (with_child nd off p)"
    using ne by (simp_all add: linked_def)
  have c: "rtn_slots (with_child nd off p) ! off = p" using w(6,7) by (simp add: node_ok_def off_ok_def)
  have k: "node_ok (Suc (Suc n)) (with_child nd off p)" by (rule with_child_ok [OF w(6,7)]) (use z in simp)
  show ?thesis unfolding descent_def c using e3 h w(3,4,7) k ne p(1) fresh_tree [where H = "rt_nodes ?s3", OF h(1) p(1,3)] by auto
qed

lemma linked_landed:
  assumes d: "descent K J (Suc n) node nd off A s" and z: "rtn_slots nd ! off = 0"
    and s1: "rt_nodes s1 = (rt_nodes s)(p \<mapsto> zero_node)" "rcu_queue s1 = rcu_queue s"
    and p: "p \<noteq> 0" "p \<notin> A" "\<not> radix_tree_is_direct_ptr p"
    and l: "landed K J (Suc n) node (with_child nd off p) off (insert p A) (linked (Suc n) node nd off p s1) q N s'"
  shows "landed K J (Suc n) node nd off A s q (insert p N) s'" "q = p"
proof -
  note w = descentD [OF d] and v = landedD [OF l]
  let ?s3 = "linked (Suc n) node nd off p s1"
  have len: "off < length (rtn_slots nd)" using w(6,7) by (simp add: node_ok_def off_ok_def)
  have c: "rtn_slots (with_child nd off p) ! off = p" using len by simp
  show q: "q = p" using v(7) c p(1) by simp
  have ne: "node \<noteq> p" using w(3) p(2) by blast
  have h: "rt_nodes ?s3 p = Some (fresh_node (Suc n))" using ne by (simp add: linked_def)
  note f = fresh_tree [where H = "rt_nodes ?s3", OF h p(1,3)]
  have fr: "rt_nodes s' a = rt_nodes s a" if "a \<in> A" "a \<noteq> node" for a
  proof -
    have "a \<noteq> p" using that p(2) by blast
    then have "rt_nodes s' a = rt_nodes ?s3 a" using v(5) [of a, unfolded c f(2)] that by simp
    then show ?thesis using \<open>a \<noteq> p\<close> that(2) s1(1) by (simp add: linked_def)
  qed
  have nd': "rt_nodes s' node = Some (with_child nd off p)" using v(6) q with_child_twice [OF len p(1)] by simp
  have o: "owned s' (A \<union> insert p N)" "insert p N \<inter> A = {}" "rcu_queue s' = rcu_queue s" using v(2-4) p(2) s1(2) by (auto simp: linked_def)
  have nn: "nodes_of (rt_nodes s') (Suc n) p \<subseteq> insert p N" using v(9) unfolding c f(2) q by blast
  have tg: "\<not> tagged (rt_nodes s') p t" if "t < 2" for t using v(10) [of t] f(4) [OF that] that c q by simp
  show "landed K J (Suc n) node nd off A s q (insert p N) s'"
    unfolding landed_def frame_def z q using v(1,8) o fr nd' nn tg q by auto
qed

lemma insert_grows:
  assumes d: "descent K J (Suc n) node nd off A s" and z: "rtn_slots nd ! off = 0"
    and IH: "\<And>node nd off A s. descent K J n node nd off A s \<Longrightarrow> inserts K J index item n node nd off A root s"
  shows "inserts K J index item (Suc n) node nd off A root s"
proof -
  note w = descentD [OF d]
  obtain p s1 where a: "radix_tree_node_alloc K root s = Some (p, s1)" "rt_env K J s1" "rcu_queue s1 = rcu_queue s"
    "if p = 0 then rt_nodes s1 = rt_nodes s \<and> owned s1 A
     else p \<notin> A \<and> \<not> radix_tree_is_direct_ptr p \<and> rt_nodes s1 = (rt_nodes s)(p \<mapsto> zero_node) \<and> owned s1 (insert p A)"
    using node_alloc_ok [OF w(1,2)] by metis
  show ?thesis
  proof (cases "p = 0")
    case True
    then have "landed K J (Suc n) node nd off A s 0 {} s1" using landed_same [OF d _ a(2) _ a(3)] a(4) z by simp
    then show ?thesis unfolding inserts_def using True a(1) z
      by (intro exI [of _ "- ENOMEM"] exI [of _ s1] exI [of _ 0] exI [of _ "{}"]) (simp add: outcome_def items_after_def)
  next
    case False
    then have p: "p \<notin> A" "\<not> radix_tree_is_direct_ptr p" "rt_nodes s1 = (rt_nodes s)(p \<mapsto> zero_node)" "owned s1 (insert p A)"
      using a(4) by simp_all
    let ?s3 = "linked (Suc n) node nd off p s1" and ?nd = "with_child nd off p"
    have len: "off < length (rtn_slots nd)" "node \<noteq> p" using w(3,6,7) p(1) by (auto simp: node_ok_def off_ok_def)
    have c: "rtn_slots ?nd ! off = p" using len by simp
    note d3 = linked_descent [OF d z a(2) p(3,4) False p(1,2)]
    obtain err s' q N where r: "insert_loop K index item (Suc n) node off p root ?s3 = Some (err, root, s')"
      "landed K J (Suc n) node ?nd off (insert p A) ?s3 q N s'" "outcome err (item_at (rt_nodes ?s3) (Suc n) p index)"
      "items_after (rt_nodes ?s3) (rt_nodes s') (Suc n) index item p q err"
      using insert_descends [OF d3 _ IH] False unfolding inserts_def c by blast
    have h: "rt_nodes ?s3 p = Some (fresh_node (Suc n))" using len by (simp add: linked_def)
    note f = fresh_tree(3) [where H = "rt_nodes ?s3", OF h False p(2)]
    have run: "insert_loop K index item (Suc n) node off 0 root s = insert_loop K index item (Suc n) node off p root ?s3"
      using a(1) False p(3) w(4,5) len z
      by (simp add: node_update_def set_height_def link_child_ok [where nd = nd] linked_def fresh_node_def)
    have "items_after (rt_nodes s) (rt_nodes s') (Suc n) index item 0 q err" using r(4) f unfolding items_after_def by simp
    moreover have "outcome err (item_at (rt_nodes s) (Suc n) 0 index)" using r(3) f by simp
    ultimately show ?thesis unfolding inserts_def z
      using r(1) linked_landed(1) [OF d z p(3) a(3) False p(1,2) r(2)] unfolding run [symmetric] by blast
  qed
qed

text \<open>Every run of the loop below a node inserts, or leaves the items as they are.\<close>

lemma insert_loop_inserts:
  assumes "item \<noteq> 0" "\<not> radix_tree_is_direct_ptr item" "descent K J n node nd off A s"
  shows "inserts K J index item n node nd off A root s"
  using assms(3)
proof (induction n arbitrary: node nd off A s)
  case 0
  then show ?case by (rule insert_at_item [OF _ assms(1,2)])
next
  case (Suc n)
  then show ?case using insert_descends [OF Suc.prems _ Suc.IH] insert_grows [OF Suc.prems _ Suc.IH] by blast
qed

section \<open>At the root\<close>

definition tree_set :: "rt_root \<Rightarrow> ('k, 'z) rtstate \<Rightarrow> addr set" where
  "tree_set root s = nodes_of (rt_nodes s) (rt_height root) (rt_ptr root)"

text \<open>
  The invariant of a tree: it is well formed, its nodes are live, and they are apart from the nodes \<open>B\<close> of other trees.
\<close>

definition rt_inv :: "('k, 'z) rtkit \<Rightarrow> (addr set \<Rightarrow> 'k \<Rightarrow> bool) \<Rightarrow> addr set \<Rightarrow> rt_root \<Rightarrow> ('k, 'z) rtstate \<Rightarrow> bool" where
  "rt_inv K J B root s \<longleftrightarrow> rt_env K J s \<and> root_ok (rt_nodes s) root \<and> owned s (tree_set root s \<union> B) \<and> tree_set root s \<inter> B = {}"

definition kept :: "addr set \<Rightarrow> ('k, 'z) rtstate \<Rightarrow> ('k, 'z) rtstate \<Rightarrow> bool" where
  "kept B s s' \<longleftrightarrow> (\<forall>b \<in> B. rt_nodes s' b = rt_nodes s b)"

lemma kept_trans: "kept B s s1 \<Longrightarrow> kept B s1 s2 \<Longrightarrow> kept B s s2"
  by (simp add: kept_def)

abbreviation contents_in :: "rt_root \<Rightarrow> ('k, 'z) rtstate \<Rightarrow> u32 \<Rightarrow> addr" where
  "contents_in root s \<equiv> contents (rt_nodes s) root"

definition insert_result :: "('k, 'z) rtkit \<Rightarrow> (addr set \<Rightarrow> 'k \<Rightarrow> bool) \<Rightarrow> addr set \<Rightarrow> u32 \<Rightarrow> addr \<Rightarrow> (u32 \<Rightarrow> addr) \<Rightarrow> ('k, 'z) rtstate
    \<Rightarrow> (int \<times> rt_root \<times> ('k, 'z) rtstate) option \<Rightarrow> bool" where
  "insert_result K J B index item f s r \<longleftrightarrow> (\<exists>err root' s'. r = Some (err, root', s') \<and> rt_inv K J B root' s' \<and> kept B s s' \<and>
     outcome err (f index) \<and> contents_in root' s' = (if err = 0 then f(index := item) else f))"

lemma rt_ptr_node: "\<not> radix_tree_is_direct_ptr (rt_rnode root) \<Longrightarrow> rt_ptr root = rt_rnode root"
  by (simp add: rt_ptr_def direct_to_ptr_even)

lemma root_okD:
  assumes "root_ok H root"
  shows "rt_height root \<le> 6" "tree_ok H (rt_height root) (rt_ptr root)" "root_tags_ok H root"
    "radix_tree_is_direct_ptr (rt_rnode root) \<longleftrightarrow> rt_height root = 0 \<and> rt_rnode root \<noteq> 0" "rt_rnode root \<noteq> 0 \<Longrightarrow> rt_ptr root \<noteq> 0"
    "rt_height root \<noteq> 0 \<or> rt_rnode root = 0 \<Longrightarrow> rt_ptr root = rt_rnode root"
  using assms rt_ptr_node [of root] unfolding root_ok_def by auto

lemma maxindex_zero: "maxindex 0 = 0"
  by (simp add: maxindex_mask)

lemma insert_into_node:
  assumes i: "rt_inv K J B root s" and h: "rt_height root = Suc n" "rt_rnode root \<noteq> 0" and ix: "index \<le> maxindex (Suc n)"
    and item: "item \<noteq> 0" "\<not> radix_tree_is_direct_ptr item"
  shows "insert_result K J B index item (contents_in root s) s (insert_loop K index item (Suc n) 0 0 (rt_rnode root) root s)"
proof -
  let ?p = "rt_rnode root" and ?A = "tree_set root s \<union> B"
  have ok: "root_ok (rt_nodes s) root" "rt_env K J s" "owned s ?A" "tree_set root s \<inter> B = {}" using i by (auto simp: rt_inv_def)
  note r = root_okD [OF ok(1)]
  have p: "rt_ptr root = ?p" using r(6) h(1) by simp
  have T: "tree_set root s = nodes_of (rt_nodes s) (Suc n) ?p" unfolding tree_set_def p h(1) ..
  have "tree_ok (rt_nodes s) (Suc n) ?p" using r(2) unfolding p h(1) .
  then have t: "subtree K J (Suc n) ?p ?A s" using ok(2,3) h(2) T unfolding subtree_def by blast
  obtain cd where c: "rt_nodes s ?p = Some cd" using tree_some [OF subtreeD(3,4) [OF t]] by blast
  obtain err s' N where e: "insert_loop K index item (Suc n) 0 0 ?p root s = Some (err, root, s')" "grown K J (Suc n) ?p ?A s N s'"
    "outcome err (item_at (rt_nodes s) (Suc n) ?p index)" "items_after (rt_nodes s) (rt_nodes s') (Suc n) index item ?p ?p err"
    by (rule insert_from_node [OF t c insert_loop_inserts [OF item descent_down [OF t c slot_offset_ok]]]) (rule that)
  have g: "rt_env K J s'" "owned s' (?A \<union> N)" "N \<inter> ?A = {}" "tree_ok (rt_nodes s') (Suc n) ?p"
    "nodes_of (rt_nodes s') (Suc n) ?p \<subseteq> nodes_of (rt_nodes s) (Suc n) ?p \<union> N"
    "\<forall>a \<in> ?A - nodes_of (rt_nodes s) (Suc n) ?p. rt_nodes s' a = rt_nodes s a" "\<forall>t. tagged (rt_nodes s') ?p t = tagged (rt_nodes s) ?p t"
    using e(2) unfolding grown_def by - (elim conjE, assumption)+
  have T': "tree_set root s' = nodes_of (rt_nodes s') (Suc n) ?p" unfolding tree_set_def p h(1) ..
  have sub: "tree_set root s' \<union> B \<subseteq> ?A \<union> N" "tree_set root s' \<inter> B = {}" using g(3,5) ok(4) unfolding T T' by blast+
  have "root_tags_ok (rt_nodes s') root" using r(3) g(7) h(1) unfolding root_tags_ok_def by simp
  then have "root_ok (rt_nodes s') root" using ok(1) g(4) h p unfolding root_ok_def by simp
  then have inv: "rt_inv K J B root s'" using g(1) owned_subset [OF g(2) sub(1)] sub(2) unfolding rt_inv_def by blast
  have b: "kept B s s'" using g(6) ok(4) unfolding kept_def T by blast
  have "contents_in root s' j = (if err = 0 then (contents_in root s)(index := item) else contents_in root s) j" for j
    using e(4) [unfolded items_after_def, rule_format, of j] same_path_eq [OF ix, of j] ix
    by (auto simp: contents_def p h(1) not_less simp del: item_at.simps)
  moreover have "outcome err (contents_in root s index)" using e(3) by (simp add: contents_def p h(1) leD [OF ix])
  ultimately show ?thesis unfolding insert_result_def using e(1) inv b by blast
qed

text \<open>A root without a node: the item goes into the root itself, or below a first node.\<close>

lemma insert_into_root:
  assumes i: "rt_inv K J B root s" and h: "rt_height root = 0" and item: "item \<noteq> 0" "\<not> radix_tree_is_direct_ptr item"
  shows "insert_result K J B 0 item (contents_in root s) s (insert_loop K 0 item 0 0 0 (rt_rnode root) root s)"
proof (cases "rt_rnode root = 0")
  case True
  have ok: "root_ok (rt_nodes s) root" "rt_env K J s" "owned s (tree_set root s \<union> B)" using i by (auto simp: rt_inv_def)
  note r = root_okD [OF ok(1)]
  let ?r = "root\<lparr>rt_rnode := radix_tree_ptr_to_direct item\<rparr>"
  have tags: "\<not> root_tag_get 0 root" "\<not> root_tag_get 1 root" using r(3) h True by (auto simp: root_tags_ok_def)
  have p: "rt_ptr ?r = item" "rt_ptr root = 0" using item(2) r(6) True by (simp_all add: rt_ptr_def direct_round)
  have nz: "radix_tree_ptr_to_direct item \<noteq> 0" using is_direct_direct [of item] by (metis is_direct_zero)
  have "root_tags_ok (rt_nodes s) ?r" using nz h by (simp add: root_tags_ok_def)
  then have "root_ok (rt_nodes s) ?r" using p item nz h is_direct_direct by (simp add: root_ok_def)
  then have "rt_inv K J B ?r s" using i h by (simp add: rt_inv_def tree_set_def)
  moreover have "contents_in ?r s = (contents_in root s)(0 := item)" "contents_in root s 0 = 0"
    using p h by (auto simp: contents_def maxindex_zero word_neq_0_conv)
  moreover have "insert_loop K 0 item 0 0 0 (rt_rnode root) root s = Some (0, ?r, s)"
    using True tags by (simp add: insert_item_def)
  ultimately show ?thesis unfolding insert_result_def by (auto simp: kept_def outcome_def)
next
  case False
  have "rt_ptr root \<noteq> 0" using i root_okD(5) False by (auto simp: rt_inv_def)
  then show ?thesis using i h False unfolding insert_result_def by (simp add: kept_def outcome_def contents_def maxindex_zero)
qed

lemma first_node_inv:
  assumes i: "rt_inv K J B root s" and h: "rt_height root = Suc n" "rt_rnode root = 0"
    and s1: "rt_env K J s1" "rt_nodes s1 = (rt_nodes s)(p \<mapsto> zero_node)" "owned s1 (insert p B)"
    and p: "p \<noteq> 0" "p \<notin> B" "\<not> radix_tree_is_direct_ptr p"
  defines "s2 \<equiv> s1\<lparr>rt_nodes := (rt_nodes s1)(p \<mapsto> fresh_node (Suc n))\<rparr>"
  shows "rt_inv K J B (root\<lparr>rt_rnode := p\<rparr>) s2" "contents_in (root\<lparr>rt_rnode := p\<rparr>) s2 = (\<lambda>_. 0)" "kept B s s2"
proof -
  have ok: "root_ok (rt_nodes s) root" using i by (simp add: rt_inv_def)
  note r = root_okD [OF ok]
  have e2: "rt_env K J s2" "owned s2 (insert p B)" using write_owned [OF s1(1,3), of p] by (simp_all add: s2_def)
  have c: "rt_nodes s2 p = Some (fresh_node (Suc n))" by (simp add: s2_def)
  note f = fresh_tree [where H = "rt_nodes s2", OF c p(1,3)]
  have hh: "rt_height (root\<lparr>rt_rnode := p\<rparr>) = Suc n" using h(1) by simp
  have q: "rt_ptr (root\<lparr>rt_rnode := p\<rparr>) = p" using p(3) by (simp add: rt_ptr_def direct_to_ptr_even)
  have "\<not> root_tag_get t root" if "t < 2" for t using r(3) that h unfolding root_tags_ok_def by auto
  then have "root_tags_ok (rt_nodes s2) (root\<lparr>rt_rnode := p\<rparr>)" using f(4) h(1) by (simp add: root_tags_ok_def root_tag_get_def)
  then have "root_ok (rt_nodes s2) (root\<lparr>rt_rnode := p\<rparr>)" using q f(1) r(1) p h(1) unfolding root_ok_def by simp
  moreover have T: "tree_set (root\<lparr>rt_rnode := p\<rparr>) s2 = {p}" using f(2) unfolding tree_set_def q hh .
  ultimately show "rt_inv K J B (root\<lparr>rt_rnode := p\<rparr>) s2" using e2 p(2) unfolding rt_inv_def by simp
  show "contents_in (root\<lparr>rt_rnode := p\<rparr>) s2 = (\<lambda>_. 0)" using f(3) unfolding contents_def q hh by (intro ext) (simp only: if_cancel)
  show "kept B s s2" using p(2) s1(2) unfolding kept_def s2_def by auto
qed

lemma insert_result_kept: "kept B s s1 \<Longrightarrow> insert_result K J B index item f s1 r \<Longrightarrow> insert_result K J B index item f s r"
  unfolding insert_result_def using kept_trans by blast

lemma insert_first_node:
  assumes i: "rt_inv K J B root s" and h: "rt_height root = Suc n" "rt_rnode root = 0" and ix: "index \<le> maxindex (Suc n)"
    and item: "item \<noteq> 0" "\<not> radix_tree_is_direct_ptr item"
  shows "insert_result K J B index item (contents_in root s) s (insert_loop K index item (Suc n) 0 0 (rt_rnode root) root s)"
proof -
  have ok: "root_ok (rt_nodes s) root" "rt_env K J s" "owned s (tree_set root s \<union> B)" using i by (auto simp: rt_inv_def)
  have z: "rt_ptr root = 0" using root_okD(6) [OF ok(1)] h by simp
  have c0: "contents_in root s = (\<lambda>_. 0)" and T: "tree_set root s = {}" by (auto simp: contents_def tree_set_def z)
  have B: "owned s B" using ok(3) T by simp
  obtain p s1 where a: "radix_tree_node_alloc K root s = Some (p, s1)" "rt_env K J s1"
    "if p = 0 then rt_nodes s1 = rt_nodes s \<and> owned s1 B
     else p \<notin> B \<and> \<not> radix_tree_is_direct_ptr p \<and> rt_nodes s1 = (rt_nodes s)(p \<mapsto> zero_node) \<and> owned s1 (insert p B)"
    using node_alloc_ok [OF ok(2) B] by metis
  show ?thesis
  proof (cases "p = 0")
    case True
    then have "rt_inv K J B root s1" "kept B s s1" "contents_in root s1 = contents_in root s"
      using a(2,3) ok(1) T by (auto simp: rt_inv_def tree_set_def kept_def)
    then show ?thesis unfolding insert_result_def using a(1) True h(2) c0 by (simp add: outcome_def)
  next
    case False
    then have p: "p \<notin> B" "\<not> radix_tree_is_direct_ptr p" "rt_nodes s1 = (rt_nodes s)(p \<mapsto> zero_node)" "owned s1 (insert p B)"
      using a(3) by simp_all
    let ?r = "root\<lparr>rt_rnode := p\<rparr>" and ?s2 = "s1\<lparr>rt_nodes := (rt_nodes s1)(p \<mapsto> fresh_node (Suc n))\<rparr>"
    note v = first_node_inv [OF i h a(2) p(3,4) False p(1,2)]
    have "insert_loop K index item (Suc n) 0 0 (rt_rnode root) root s = insert_loop K index item (Suc n) 0 0 (rt_rnode ?r) ?r ?s2"
      using a(1) False p(3) h(2) by (simp add: node_update_def set_height_def link_child_def fresh_node_def)
    moreover have "insert_result K J B index item (contents_in ?r ?s2) ?s2 (insert_loop K index item (Suc n) 0 0 (rt_rnode ?r) ?r ?s2)"
      by (rule insert_into_node [OF v(1) _ _ ix item]) (use h(1) False in simp_all)
    ultimately show ?thesis using insert_result_kept [OF v(3)] unfolding v(2) c0 by simp
  qed
qed

lemma insert_fits:
  assumes i: "rt_inv K J B root s" and ix: "index \<le> maxindex (rt_height root)" and item: "item \<noteq> 0" "\<not> radix_tree_is_direct_ptr item"
  shows "insert_result K J B index item (contents_in root s) s (insert_loop K index item (rt_height root) 0 0 (rt_rnode root) root s)"
proof (cases "rt_height root")
  case 0
  then have "index = 0" using ix by (simp add: maxindex_zero)
  then show ?thesis using insert_into_root [OF i 0 item] 0 by simp
next
  case (Suc n)
  then show ?thesis using insert_into_node [OF i Suc _ _ item] insert_first_node [OF i Suc _ _ item] ix by (cases "rt_rnode root = 0") simp_all
qed

section \<open>Growing the tree\<close>

text \<open>The node that \<open>radix_tree_extend\<close> puts above the root.\<close>

definition raised :: "rt_root \<Rightarrow> rt_node" where
  "raised root = \<lparr>rtn_height = rt_height root + 1, rtn_count = 1, rtn_slots = (replicate 64 0)[0 := rt_ptr root],
     rtn_tags = map (\<lambda>t. if root_tag_get t root then [1, 0] else [0, 0]) [0, 1]\<rparr>"

lemma raised_steps:
  assumes "rt_nodes s p = Some zero_node"
  shows "do {
       s \<leftarrow> node_update p (slot_set 0 (radix_tree_direct_to_ptr (rt_rnode root))) s;
       s \<leftarrow> root_tag_to_node root 0 p s;
       s \<leftarrow> root_tag_to_node root 1 p s;
       node_update p (set_height_count (rt_height root + 1)) s } = Some (s\<lparr>rt_nodes := (rt_nodes s)(p \<mapsto> raised root)\<rparr>)"
  using assms
  by (simp add: node_update_def slot_set_def root_tag_to_node_def tag_set_def set_bit_in_def word_at_def set_height_count_def
      zero_node_def raised_def rt_ptr_def)

lemma raised_parts:
  "rtn_slots (raised root) ! 0 = rt_ptr root" "i < 64 \<Longrightarrow> i \<noteq> 0 \<Longrightarrow> rtn_slots (raised root) ! i = 0"
  "t < 2 \<Longrightarrow> i < 64 \<Longrightarrow> tag_bit (raised root) t i \<longleftrightarrow> i = 0 \<and> root_tag_get t root"
proof -
  show "rtn_slots (raised root) ! 0 = rt_ptr root" by (simp add: raised_def)
  show "i < 64 \<Longrightarrow> i \<noteq> 0 \<Longrightarrow> rtn_slots (raised root) ! i = 0" by (simp add: raised_def)
  assume t: "t < 2" and i: "i < 64"
  have "bit_at [1, 0] i \<longleftrightarrow> i = 0" "\<not> bit_at [0, 0] i"
  proof -
    have "i div 32 = 0 \<or> i div 32 = 1" using i by auto
    then show "bit_at [1, 0] i \<longleftrightarrow> i = 0" "\<not> bit_at [0, 0] i" by (auto simp: bit_at_def bit_1_iff)
  qed
  then show "tag_bit (raised root) t i \<longleftrightarrow> i = 0 \<and> root_tag_get t root"
    using t by (auto simp: raised_def tag_bit_def less_Suc_eq numeral_2_eq_2)
qed

lemma raised_ok:
  assumes "rt_ptr root \<noteq> 0"
  shows "node_ok (Suc (rt_height root)) (raised root)"
proof -
  have "used_slots (rtn_slots (raised root)) = {0}" using assms raised_parts(1) [of root] raised_parts(2) [of _ root] by (auto simp: used_slots_def)
  moreover have "\<forall>i < 64. rtn_slots (raised root) ! i \<noteq> 0 \<longrightarrow> off_ok (Suc (rt_height root)) i"
  proof (intro allI impI)
    fix i :: nat assume "i < 64" "rtn_slots (raised root) ! i \<noteq> 0"
    then show "off_ok (Suc (rt_height root)) i" using raised_parts(2) [of i root] by (cases "i = 0") (auto simp: off_ok_def)
  qed
  ultimately show ?thesis by (auto simp: node_ok_def raised_def less_Suc_eq numeral_2_eq_2)
qed

lemma raised_tree:
  assumes ok: "root_ok H root" and r: "rt_rnode root \<noteq> 0"
    and p: "p \<noteq> 0" "\<not> radix_tree_is_direct_ptr p" "p \<notin> nodes_of H (rt_height root) (rt_ptr root)"
  defines "H' \<equiv> H(p \<mapsto> raised root)" and "h \<equiv> rt_height root"
  shows "tree_ok H' (Suc h) p" "nodes_of H' (Suc h) p = insert p (nodes_of H h (rt_ptr root))"
    "item_at H' (Suc h) p j = (if slot_offset j (Suc h) = 0 then item_at H h (rt_ptr root) j else 0)"
    "t < 2 \<Longrightarrow> tagged H' p t = root_tag_get t root"
proof -
  note rk = root_okD [OF ok] and s = raised_parts [where root = root]
  have c: "H' p = Some (raised root)" by (simp add: H'_def)
  have same: "H' a = H a" if "a \<in> nodes_of H h (rt_ptr root)" for a using that p(3) by (auto simp: H'_def h_def)
  have child: "nodes_of H' h (rt_ptr root) = nodes_of H h (rt_ptr root)" "item_at H' h (rt_ptr root) j = item_at H h (rt_ptr root) j"
    "tree_ok H' h (rt_ptr root)" "0 < h \<Longrightarrow> tagged H' (rt_ptr root) t = tagged H (rt_ptr root) t" for t j
    using tree_frame [OF rk(2) same [unfolded h_def]] unfolding h_def by blast+
  have nz: "rt_ptr root \<noteq> 0" by (rule rk(5) [OF r])
  have sl: "rtn_slots (raised root) ! i = (if i = 0 then rt_ptr root else 0)" if "i < 64" for i using s(1,2) that by auto
  have "(\<Union>i \<in> {..<64}. nodes_of H' h (rtn_slots (raised root) ! i)) = (\<Union>i \<in> {..<64 :: nat}. if i = 0 then nodes_of H' h (rt_ptr root) else {})"
    by (rule SUP_cong) (auto simp: sl)
  also have "\<dots> = nodes_of H' h (rt_ptr root)" by (auto split: if_splits intro: bexI [of _ 0])
  finally have un: "(\<Union>i \<in> {..<64}. nodes_of H' h (rtn_slots (raised root) ! i)) = nodes_of H' h (rt_ptr root)" .
  have top: "rt_ptr root = rt_rnode root" if "h \<noteq> 0" using rk(6) that by (simp add: h_def)
  have "tags_ok H' h (raised root)"
    using s(3) sl nz rk(3) child(4) top unfolding tags_ok_def root_tags_ok_def h_def [symmetric] by auto
  then show "tree_ok H' (Suc h) p" using c p(1,2,3) raised_ok [OF nz] sl child unfolding h_def by (auto simp: h_def)
  show "nodes_of H' (Suc h) p = insert p (nodes_of H h (rt_ptr root))" using c p(1) un child(1) by simp
  show "item_at H' (Suc h) p j = (if slot_offset j (Suc h) = 0 then item_at H h (rt_ptr root) j else 0)"
    using c p(1) sl [OF slot_offset_less] child(2) by simp
  show "t < 2 \<Longrightarrow> tagged H' p t = root_tag_get t root" using c p(1) s(3) by (auto simp: tagged_def intro: exI [of _ 0])
qed

abbreviation (input) above :: "rt_root \<Rightarrow> addr \<Rightarrow> rt_root" where
  "above root p \<equiv> root\<lparr>rt_rnode := p, rt_height := rt_height root + 1\<rparr>"

lemma raised_inv:
  assumes i: "rt_inv K J B root s" and r: "rt_rnode root \<noteq> 0" "rt_height root < 6"
    and s1: "rt_env K J s1" "rt_nodes s1 = (rt_nodes s)(p \<mapsto> zero_node)" "owned s1 (insert p (tree_set root s \<union> B))"
    and p: "p \<noteq> 0" "p \<notin> tree_set root s \<union> B" "\<not> radix_tree_is_direct_ptr p"
  defines "s2 \<equiv> s1\<lparr>rt_nodes := (rt_nodes s1)(p \<mapsto> raised root)\<rparr>"
  shows "rt_inv K J B (above root p) s2" "contents_in (above root p) s2 = contents_in root s" "kept B s s2"
proof -
  let ?h = "rt_height root" and ?r = "above root p"
  have ok: "root_ok (rt_nodes s) root" "tree_set root s \<inter> B = {}" using i by (auto simp: rt_inv_def)
  have e2: "rt_env K J s2" "owned s2 (insert p (tree_set root s \<union> B))" using write_owned [OF s1(1,3), of p] by (simp_all add: s2_def)
  have H: "rt_nodes s2 = (rt_nodes s)(p \<mapsto> raised root)" by (simp add: s2_def s1(2))
  have np: "p \<notin> nodes_of (rt_nodes s) ?h (rt_ptr root)" using p(2) by (simp add: tree_set_def)
  note t = raised_tree [OF ok(1) r(1) p(1,3) np, folded H]
  have hh: "rt_height ?r = Suc ?h" "rt_rnode ?r = p" by simp_all
  have q: "rt_ptr ?r = p" using p(3) by (simp add: rt_ptr_def direct_to_ptr_even)
  have "root_tags_ok (rt_nodes s2) ?r" using t(4) by (simp add: root_tags_ok_def root_tag_get_def)
  then have "root_ok (rt_nodes s2) ?r" using t(1) r(2) p unfolding root_ok_def hh q by simp
  moreover have T: "tree_set ?r s2 = insert p (tree_set root s)" using t(2) unfolding tree_set_def hh q .
  ultimately show "rt_inv K J B ?r s2" using e2 p(2) ok(2) unfolding rt_inv_def by simp
  show "contents_in ?r s2 = contents_in root s"
  proof
    fix j
    consider "maxindex (Suc ?h) < j" | "maxindex ?h < j" "j \<le> maxindex (Suc ?h)" | "j \<le> maxindex ?h" by force
    then show "contents_in ?r s2 j = contents_in root s j"
    proof cases
      case 1
      then have "maxindex ?h < j" using maxindex_mono [of ?h "Suc ?h"] by simp
      then show ?thesis using 1 by (simp add: contents_def del: item_at.simps)
    next
      case 2
      then show ?thesis using t(3) offset_new_level [OF 2] unfolding contents_def hh q by (simp del: item_at.simps)
    next
      case 3
      then have "j \<le> maxindex (Suc ?h)" using maxindex_mono [of ?h "Suc ?h"] by simp
      then show ?thesis using t(3) offset_above [OF 3 order_refl] 3 unfolding contents_def hh q by (simp add: leD del: item_at.simps)
    qed
  qed
  show "kept B s s2" using p(2) s1(2) unfolding kept_def s2_def by auto
qed

text \<open>The tree grows until the index fits, and keeps its items, also when it runs out of nodes on the way.\<close>

definition extend_result :: "('k, 'z) rtkit \<Rightarrow> (addr set \<Rightarrow> 'k \<Rightarrow> bool) \<Rightarrow> addr set \<Rightarrow> nat \<Rightarrow> rt_root \<Rightarrow> ('k, 'z) rtstate
    \<Rightarrow> (int \<times> rt_root \<times> ('k, 'z) rtstate) option \<Rightarrow> bool" where
  "extend_result K J B h root s r \<longleftrightarrow> (\<exists>err root' s'. r = Some (err, root', s') \<and> rt_inv K J B root' s' \<and> kept B s s' \<and>
     contents_in root' s' = contents_in root s \<and> (err = 0 \<and> rt_height root' = h \<or> err = - ENOMEM))"

lemma extend_loop_result:
  assumes "rt_inv K J B root s" "rt_rnode root \<noteq> 0" "rt_height root + k \<le> 6"
  shows "extend_result K J B (rt_height root + k) root s (extend_loop K k root s)"
  using assms
proof (induction k arbitrary: root s)
  case 0
  then show ?case by (simp add: extend_result_def kept_def)
next
  case (Suc k)
  have ok: "root_ok (rt_nodes s) root" "rt_env K J s" "owned s (tree_set root s \<union> B)" "tree_set root s \<inter> B = {}"
    using Suc.prems(1) by (auto simp: rt_inv_def)
  obtain p s1 where a: "radix_tree_node_alloc K root s = Some (p, s1)" "rt_env K J s1"
    "if p = 0 then rt_nodes s1 = rt_nodes s \<and> owned s1 (tree_set root s \<union> B)
     else p \<notin> tree_set root s \<union> B \<and> \<not> radix_tree_is_direct_ptr p \<and> rt_nodes s1 = (rt_nodes s)(p \<mapsto> zero_node) \<and>
       owned s1 (insert p (tree_set root s \<union> B))"
    using node_alloc_ok [OF ok(2,3)] by metis
  show ?case
  proof (cases "p = 0")
    case True
    then have n: "rt_nodes s1 = rt_nodes s" "owned s1 (tree_set root s \<union> B)" using a(3) by simp_all
    then have "rt_inv K J B root s1" using a(2) ok by (simp add: rt_inv_def tree_set_def)
    then show ?thesis using a(1) True n(1) by (simp add: extend_result_def kept_def)
  next
    case False
    then have p: "p \<notin> tree_set root s \<union> B" "\<not> radix_tree_is_direct_ptr p" "rt_nodes s1 = (rt_nodes s)(p \<mapsto> zero_node)"
      "owned s1 (insert p (tree_set root s \<union> B))" using a(3) by simp_all
    let ?s2 = "s1\<lparr>rt_nodes := (rt_nodes s1)(p \<mapsto> raised root)\<rparr>"
    have "rt_height root < 6" using Suc.prems(3) by simp
    note v = raised_inv [OF Suc.prems(1,2) this a(2) p(3,4) False p(1,2)]
    have "rt_nodes s1 p = Some zero_node" using p(3) by simp
    note steps = raised_steps [where s = s1 and p = p and root = root, OF this]
    have "extend_loop K (Suc k) root s = extend_loop K k (above root p) ?s2"
      using a(1) False arg_cong [OF steps, of "\<lambda>x. x \<bind> extend_loop K k (above root p)"] by (simp add: Option.bind_assoc)
    moreover have "extend_result K J B (rt_height root + Suc k) (above root p) ?s2 (extend_loop K k (above root p) ?s2)"
      using Suc.IH [OF v(1)] False Suc.prems(3) by simp
    ultimately show ?thesis using v(2) kept_trans [OF v(3)] unfolding extend_result_def by (simp only:) blast
  qed
qed

lemma needed_height_ok:
  assumes "h \<le> 6"
  shows "h \<le> needed_height index h \<and> needed_height index h \<le> 6 \<and> index \<le> maxindex (needed_height index h)"
  using assms
proof (induction index h rule: needed_height.induct)
  case (1 index h)
  show ?case
  proof (cases "maxindex h < index")
    case True
    then have "h \<noteq> 6" using maxindex_top [of 6] word_order.extremum [of index] by (auto simp: not_less)
    then show ?thesis using 1 True by (subst (1 2 3) needed_height.simps) auto
  next
    case False
    then show ?thesis using 1(2) by (subst (1 2 3) needed_height.simps) auto
  qed
qed

lemma extend_ok:
  assumes i: "rt_inv K J B root s" and ix: "maxindex (rt_height root) < index"
  obtains h where "extend_result K J B h root s (radix_tree_extend K root index s)" "index \<le> maxindex h"
proof -
  let ?h = "needed_height index (rt_height root + 1)"
  have ok: "root_ok (rt_nodes s) root" using i by (simp add: rt_inv_def)
  note r = root_okD [OF ok]
  have "rt_height root \<noteq> 6" using ix maxindex_top [of 6] word_order.extremum [of index] by (auto simp: not_less)
  then have n: "rt_height root + 1 \<le> ?h" "?h \<le> 6" "index \<le> maxindex ?h"
    using needed_height_ok [of "rt_height root + 1" index] r(1) by auto
  have "extend_result K J B ?h root s (radix_tree_extend K root index s)"
  proof (cases "rt_rnode root = 0")
    case True
    let ?r = "root\<lparr>rt_height := ?h\<rparr>"
    have z: "rt_ptr root = 0" "rt_ptr ?r = 0" using r(6) True by (simp_all add: rt_ptr_def)
    have "\<not> root_tag_get t root" if "t < 2" for t using r(3) that True unfolding root_tags_ok_def by (auto split: if_splits)
    then have "root_tags_ok (rt_nodes s) ?r" using True by (simp add: root_tags_ok_def root_tag_get_def)
    then have "root_ok (rt_nodes s) ?r" using True n(2) z by (simp add: root_ok_def)
    then have "rt_inv K J B ?r s" using i z by (simp add: rt_inv_def tree_set_def)
    moreover have "contents_in ?r s = contents_in root s" by (intro ext) (simp only: contents_def z item_at_zero if_cancel)
    ultimately show ?thesis using True by (simp add: radix_tree_extend_def extend_result_def kept_def)
  next
    case False
    then show ?thesis using extend_loop_result [OF i False, of "?h - rt_height root"] n by (simp add: radix_tree_extend_def)
  qed
  then show ?thesis using that n(3) by blast
qed

lemma radix_tree_insert_result:
  assumes i: "rt_inv K J B root s" and item: "item \<noteq> 0" "\<not> radix_tree_is_direct_ptr item"
  shows "insert_result K J B index item (contents_in root s) s (radix_tree_insert K root index item s)"
proof (cases "maxindex (rt_height root) < index")
  case True
  from extend_ok [OF i True] obtain h err root' s1 where e: "radix_tree_extend K root index s = Some (err, root', s1)"
    "rt_inv K J B root' s1" "kept B s s1" "contents_in root' s1 = contents_in root s"
    "err = 0 \<and> rt_height root' = h \<or> err = - ENOMEM" "index \<le> maxindex h"
    unfolding extend_result_def by metis
  have z: "contents_in root s index = 0" using True by (simp add: contents_def)
  show ?thesis
  proof (cases "err = 0")
    case False
    then show ?thesis using e item(2) True z unfolding insert_result_def by (simp add: radix_tree_insert_def outcome_def)
  next
    case True
    then have "index \<le> maxindex (rt_height root')" using e(5,6) by auto
    then have "insert_result K J B index item (contents_in root s) s1 (insert_loop K index item (rt_height root') 0 0 (rt_rnode root') root' s1)"
      using insert_fits [OF e(2) _ item] e(4) by simp
    then show ?thesis using insert_result_kept [OF e(3)] e(1) item(2) True \<open>maxindex (rt_height root) < index\<close>
      by (simp add: radix_tree_insert_def)
  qed
next
  case False
  then show ?thesis using insert_fits [OF i _ item, of index] item(2) by (simp add: radix_tree_insert_def)
qed

end
