(* ===== verification/Radix_Tags.thy ===== *)
theory Radix_Tags
  imports Radix_Insert
begin

text \<open>
  The tags of radix trees: the tag of an item, and how setting and clearing one changes the tags on the path to the
  item, of the other items and of the root.
\<close>

section \<open>The tags of a tree\<close>

fun tag_at :: "rt_heap \<Rightarrow> nat \<Rightarrow> addr \<Rightarrow> u32 \<Rightarrow> nat \<Rightarrow> bool" where
  "tag_at H 0 p index t = False"
| "tag_at H (Suc n) p index t = (p \<noteq> 0 \<and> (case H p of None \<Rightarrow> False | Some nd \<Rightarrow>
     if n = 0 then tag_bit nd t (slot_offset index (Suc n)) else tag_at H n (rtn_slots nd ! slot_offset index (Suc n)) index t))"

lemma tag_at_zero [simp]: "\<not> tag_at H n 0 j t"
  by (cases n) simp_all

text \<open>The nodes on the way to an index, with the slots that are taken.\<close>

fun path_of :: "rt_heap \<Rightarrow> nat \<Rightarrow> addr \<Rightarrow> u32 \<Rightarrow> (addr \<times> nat) list" where
  "path_of H 0 p index = []"
| "path_of H (Suc n) p index = (if p = 0 then [] else (p, slot_offset index (Suc n)) #
     (case H p of None \<Rightarrow> [] | Some nd \<Rightarrow> path_of H n (rtn_slots nd ! slot_offset index (Suc n)) index))"

lemma find_path_ok:
  assumes "tree_ok (rt_nodes s) n p"
  shows "\<exists>path'. find_path index n p path s = Some (item_at (rt_nodes s) n p index, path') \<and>
    (item_at (rt_nodes s) n p index \<noteq> 0 \<longrightarrow> path' = rev (path_of (rt_nodes s) n p index) @ path)"
  using assms
proof (induction n arbitrary: p path)
  case (Suc n)
  show ?case
  proof (cases "p = 0")
    case False
    obtain nd where nd: "rt_nodes s p = Some nd" using tree_some [OF Suc.prems False] by blast
    note parts = tree_parts [OF Suc.prems False nd]
    show ?thesis using Suc.IH [OF parts(3) [OF slot_offset_less]] False nd slot_get_ok [OF parts(1) slot_offset_less] by simp
  qed simp
qed simp

text \<open>Every slot that may be used is the slot of an index.\<close>

lemma nat_bit_bound: "(i :: nat) < 2 ^ m \<Longrightarrow> bit i k \<Longrightarrow> k < m"
proof -
  assume "i < 2 ^ m" and b: "bit i k"
  then have "take_bit m i = i" by (simp add: take_bit_nat_eq_self)
  then show "k < m" using b bit_take_bit_iff [of m i k] by simp
qed

lemma offset_eqI:
  assumes "\<And>k. k < 6 \<Longrightarrow> bit j (6 * m + k) = bit i k" "i < 64"
  shows "slot_offset j (Suc m) = i"
proof -
  have "bit (slot_offset j (Suc m)) k = bit i k" for k
  proof (cases "k < 6")
    case True
    then show ?thesis using assms(1) offset_bit by simp
  next
    case False
    then show ?thesis using offset_high [of k j m] nat_bit_bound [of i 6 k] assms(2) by auto
  qed
  then show ?thesis by (simp add: bit_eq_iff)
qed

lemma index_join:
  assumes "m \<le> 5" "off_ok (Suc m) i"
  obtains j' where "j' \<le> maxindex (Suc m)" "slot_offset j' (Suc m) = i" "same_path m j j'"
proof -
  have i: "i < 64" "m = 5 \<Longrightarrow> i < 4" using assms(2) by (auto simp: off_ok_def)
  define j' :: u32 where "j' = take_bit (6 * m) j OR push_bit (6 * m) (of_nat i)"
  have b: "bit j' k \<longleftrightarrow> k < 32 \<and> (if k < 6 * m then bit j k else bit i (k - 6 * m))" for k
    unfolding j'_def by (auto simp: bit_simps dest: bit_imp_le_length)
  have top: "bit i k \<Longrightarrow> k < 6 \<and> 6 * m + k < 32" for k
    using nat_bit_bound [of i 6 k] nat_bit_bound [of i 2 k] i assms(1) by (cases "m = 5") auto
  have "slot_offset j' (Suc m) = i" by (rule offset_eqI) (use b top i(1) in auto)
  moreover have "same_path m j j'" unfolding same_path_def
  proof (intro allI impI)
    fix q assume q: "q < m"
    show "slot_offset j (Suc q) = slot_offset j' (Suc q)"
    proof (rule offset_eqI)
      fix k :: nat assume "k < 6"
      then have "6 * q + k < 6 * m" using q by simp
      then show "bit j (6 * q + k) = bit (slot_offset j' (Suc q)) k"
        using b [of "6 * q + k"] offset_bit [OF \<open>k < 6\<close>, of j' q] assms(1) by auto
    qed simp
  qed
  moreover have "j' \<le> maxindex (Suc m)" using b top unfolding index_bits by (force split: if_splits)
  ultimately show ?thesis using that by blast
qed

lemma tag_at_path: "same_path n i j \<Longrightarrow> tag_at H n p i t = tag_at H n p j t"
  by (induction n arbitrary: p) (auto simp: same_path_Suc split: option.splits)

text \<open>Whether any item below has a tag is what the tags of the root node say.\<close>

lemma tagged_iff:
  assumes "tree_ok H (Suc n) p" "n \<le> 5" "t < 2"
  shows "tagged H p t \<longleftrightarrow> (\<exists>j \<le> maxindex (Suc n). tag_at H (Suc n) p j t)"
  using assms(1,2)
proof (induction n arbitrary: p)
  case (Suc n)
  show ?case
  proof (cases "p = 0")
    case False
    obtain nd where nd: "H p = Some nd" using tree_some [OF Suc.prems(1) False] by blast
    note parts = tree_parts [OF Suc.prems(1) False nd]
    have bits: "tag_bit nd t i = tagged H (rtn_slots nd ! i) t" if "i < 64" for i using parts(2) assms(3) that unfolding tags_ok_def by simp
    have IH: "tagged H (rtn_slots nd ! i) t \<longleftrightarrow> (\<exists>j \<le> maxindex (Suc n). tag_at H (Suc n) (rtn_slots nd ! i) j t)" if "i < 64" for i
      using Suc.IH [OF parts(3) [OF that]] Suc.prems(2) by simp
    have at: "tag_at H (Suc (Suc n)) p j t = tag_at H (Suc n) (rtn_slots nd ! slot_offset j (Suc (Suc n))) j t" for j using nd False by simp
    have "\<exists>j \<le> maxindex (Suc (Suc n)). tag_at H (Suc (Suc n)) p j t" if i: "i < 64" "tag_at H (Suc n) (rtn_slots nd ! i) j t" for i j
    proof -
      have "rtn_slots nd ! i \<noteq> 0" using i(2) by auto
      then have "off_ok (Suc (Suc n)) i" using parts(1) i(1) by (simp add: node_ok_def)
      then obtain j' where j: "j' \<le> maxindex (Suc (Suc n))" "slot_offset j' (Suc (Suc n)) = i" "same_path (Suc n) j j'"
        by (rule index_join [OF Suc.prems(2)])
      have "tag_at H (Suc (Suc n)) p j' t" unfolding at j(2) using i(2) tag_at_path [OF j(3)] by blast
      then show ?thesis using j(1) by blast
    qed
    moreover have "\<exists>i < 64. tagged H (rtn_slots nd ! i) t" if "tag_at H (Suc (Suc n)) p j t" for j
    proof -
      let ?i = "slot_offset j (Suc (Suc n))"
      have "n \<le> 5" using Suc.prems(2) by simp
      then obtain j' where "j' \<le> maxindex (Suc n)" "slot_offset j' (Suc n) = slot_offset j (Suc n)" "same_path n j j'"
        by (rule index_join [OF _ slot_offset_ok])
      then have "j' \<le> maxindex (Suc n)" "same_path (Suc n) j j'" by (simp_all add: same_path_Suc)
      then have "\<exists>j \<le> maxindex (Suc n). tag_at H (Suc n) (rtn_slots nd ! ?i) j t" using that tag_at_path unfolding at by blast
      then have "tagged H (rtn_slots nd ! ?i) t" unfolding IH [OF slot_offset_less] .
      then show ?thesis using slot_offset_less by blast
    qed
    moreover have "tagged H p t \<longleftrightarrow> (\<exists>i < 64. tagged H (rtn_slots nd ! i) t)" using nd False bits by (auto simp: tagged_def)
    ultimately show ?thesis using IH by blast
  qed simp
next
  case 0
  show ?case
  proof (cases "p = 0")
    case False
    obtain nd where nd: "H p = Some nd" using tree_some [OF 0(1) False] by blast
    have "\<exists>j \<le> maxindex 1. tag_at H 1 p j t" if i: "i < 64" "tag_bit nd t i" for i
      using index_join [of 0 i 0] i nd False by (auto simp: off_ok_def)
    moreover have "\<exists>i < 64. tag_bit nd t i" if "tag_at H 1 p j t" for j
      using that nd False by (auto intro: exI [of _ "slot_offset j (Suc 0)"])
    moreover have "tagged H p t \<longleftrightarrow> (\<exists>i < 64. tag_bit nd t i)" using nd False by (simp add: tagged_def)
    ultimately show ?thesis unfolding One_nat_def by blast
  qed simp
qed

section \<open>Changing tags along a path\<close>

lemma tag_at_frame:
  assumes "tree_ok H n p" "\<And>a. a \<in> nodes_of H n p \<Longrightarrow> H' a = H a"
  shows "tag_at H' n p j t = tag_at H n p j t"
  using assms
proof (induction n arbitrary: p)
  case (Suc n)
  show ?case
  proof (cases "p = 0")
    case False
    obtain nd where nd: "H p = Some nd" using tree_some [OF Suc.prems(1) False] by blast
    note parts = tree_parts [OF Suc.prems(1) False nd]
    have "tag_at H' n (rtn_slots nd ! slot_offset j (Suc n)) j t = tag_at H n (rtn_slots nd ! slot_offset j (Suc n)) j t"
      by (rule Suc.IH [OF parts(3) [OF slot_offset_less]]) (use Suc.prems(2) slot_offset_less in \<open>unfold parts(6), blast\<close>)
    then show ?thesis using nd False Suc.prems(2) [of p] by simp
  qed simp
qed simp

lemma path_frame:
  assumes "tree_ok H n p" "\<And>a. a \<in> nodes_of H n p \<Longrightarrow> H' a = H a"
  shows "path_of H' n p j = path_of H n p j"
  using assms
proof (induction n arbitrary: p)
  case (Suc n)
  show ?case
  proof (cases "p = 0")
    case False
    obtain nd where nd: "H p = Some nd" using tree_some [OF Suc.prems(1) False] by blast
    note parts = tree_parts [OF Suc.prems(1) False nd]
    have "path_of H' n (rtn_slots nd ! slot_offset j (Suc n)) j = path_of H n (rtn_slots nd ! slot_offset j (Suc n)) j"
      by (rule Suc.IH [OF parts(3) [OF slot_offset_less]]) (use Suc.prems(2) slot_offset_less in \<open>unfold parts(6), blast\<close>)
    then show ?thesis using nd False Suc.prems(2) [of p] by simp
  qed simp
qed simp

lemma tree_write:
  assumes "tree_ok H n p" "a \<notin> nodes_of H n p"
  shows "nodes_of (H(a := x)) n p = nodes_of H n p" "item_at (H(a := x)) n p j = item_at H n p j" "tree_ok (H(a := x)) n p"
    "0 < n \<Longrightarrow> tagged (H(a := x)) p t = tagged H p t" "tag_at (H(a := x)) n p j t = tag_at H n p j t"
    "path_of (H(a := x)) n p j = path_of H n p j"
proof -
  define H2 where "H2 = H(a := x)"
  have fr: "H2 b = H b" if "b \<in> nodes_of H n p" for b using that assms(2) by (auto simp: H2_def)
  from tree_frame [OF assms(1) fr] tag_at_frame [OF assms(1) fr] path_frame [OF assms(1) fr] show
    "nodes_of (H(a := x)) n p = nodes_of H n p" "item_at (H(a := x)) n p j = item_at H n p j" "tree_ok (H(a := x)) n p"
    "0 < n \<Longrightarrow> tagged (H(a := x)) p t = tagged H p t" "tag_at (H(a := x)) n p j t = tag_at H n p j t"
    "path_of (H(a := x)) n p j = path_of H n p j" unfolding H2_def [symmetric] by blast+
qed

lemma replaced_agree:
  assumes "child_replaced H H' n p nd nd' k c'" "i < 64" "i \<noteq> k" "a \<in> nodes_of H n (rtn_slots nd ! i)"
  shows "H' a = H a"
proof -
  note D = replacedD [OF assms(1)] and old = tree_parts [OF replacedD(1-3) [OF assms(1)]]
  have "a \<in> nodes_of H (Suc n) p" using assms(2,4) unfolding old(6) by blast
  moreover have "a \<noteq> p" using assms(4) old(4) [OF assms(2)] by blast
  moreover have "a \<notin> nodes_of H n (rtn_slots nd ! k)" using assms(4) old(5) [OF assms(2) D(4) assms(3)] by blast
  ultimately show ?thesis using D(12) by blast
qed

lemma replaced_path:
  assumes "child_replaced H H' n p nd nd' k c'"
  shows "path_of H' (Suc n) p j = (p, slot_offset j (Suc n)) #
    (if slot_offset j (Suc n) = k then path_of H' n c' j else path_of H n (rtn_slots nd ! slot_offset j (Suc n)) j)"
proof (cases "slot_offset j (Suc n) = k")
  case True
  then show ?thesis using replacedD(2,5) [OF assms] replaced_slots(1) [OF assms] by simp
next
  case False
  have "path_of H' n (rtn_slots nd ! slot_offset j (Suc n)) j = path_of H n (rtn_slots nd ! slot_offset j (Suc n)) j"
    by (rule path_frame [OF tree_parts(3) [OF replacedD(1-3) [OF assms] slot_offset_less] replaced_agree [OF assms slot_offset_less False]])
  then show ?thesis using False replacedD(2,5) [OF assms] replaced_slots(2) [OF assms False] by simp
qed

lemma replaced_tag_at:
  assumes "child_replaced H H' n p nd nd' k c'" "t < 2"
  shows "tag_at H' (Suc n) p j t = (if slot_offset j (Suc n) = k then (if n = 0 then tag_bit nd' t k else tag_at H' n c' j t)
    else tag_at H (Suc n) p j t)"
proof (cases "slot_offset j (Suc n) = k")
  case True
  then show ?thesis using replacedD(2,5) [OF assms(1)] replaced_slots(1) [OF assms(1)] by (cases "n = 0") auto
next
  case False
  note D = replacedD [OF assms(1)] and old = tree_parts [OF replacedD(1-3) [OF assms(1)]]
  let ?i = "slot_offset j (Suc n)"
  have "H' a = H a" if "a \<in> nodes_of H n (rtn_slots nd ! ?i)" for a by (rule replaced_agree [OF assms(1) slot_offset_less False that])
  then have "tag_at H' n (rtn_slots nd ! ?i) j t = tag_at H n (rtn_slots nd ! ?i) j t"
    by (rule tag_at_frame [OF old(3) [OF slot_offset_less]])
  then show ?thesis using False D(2,3,5) D(9) assms(2) replaced_slots(2) [OF assms(1) False] slot_offset_less by (cases "n = 0") auto
qed

text \<open>The tags after one tag of one index has become \<open>v\<close>.\<close>

definition tags_after :: "rt_heap \<Rightarrow> rt_heap \<Rightarrow> nat \<Rightarrow> addr \<Rightarrow> u32 \<Rightarrow> nat \<Rightarrow> bool \<Rightarrow> bool" where
  "tags_after H H' n p index t v \<longleftrightarrow> (\<forall>j. \<forall>u < 2. tag_at H' n p j u = (if u = t \<and> same_path n index j then v else tag_at H n p j u))"

lemma tags_after_up:
  assumes r: "child_replaced H H' n p nd nd' (slot_offset index (Suc n)) c" and c: "c = rtn_slots nd ! slot_offset index (Suc n)"
    and here: "\<And>u. n = 0 \<Longrightarrow> u < 2 \<Longrightarrow> tag_bit nd' u (slot_offset index (Suc n)) = (if u = t then v else tag_bit nd u (slot_offset index (Suc n)))"
    and below: "0 < n \<Longrightarrow> tags_after H H' n c index t v"
  shows "tags_after H H' (Suc n) p index t v"
  unfolding tags_after_def
proof (intro allI impI)
  fix j u assume u: "u < (2 :: nat)"
  let ?k = "slot_offset index (Suc n)"
  show "tag_at H' (Suc n) p j u = (if u = t \<and> same_path (Suc n) index j then v else tag_at H (Suc n) p j u)"
  proof (cases "slot_offset j (Suc n) = ?k")
    case True
    have old: "tag_at H (Suc n) p j u = (if n = 0 then tag_bit nd u ?k else tag_at H n c j u)" using replacedD(2,3) [OF r] True c by auto
    show ?thesis
    proof (cases n)
      case 0
      then show ?thesis using True here [OF 0 u] old unfolding replaced_tag_at [OF r u] same_path_Suc by (simp del: tag_at.simps add: same_path_def)
    next
      case (Suc m)
      then have "tag_at H' n c j u = (if u = t \<and> same_path n index j then v else tag_at H n c j u)" using below u unfolding tags_after_def by blast
      then show ?thesis using True old Suc unfolding replaced_tag_at [OF r u] same_path_Suc by (simp del: tag_at.simps)
    qed
  next
    case False
    then show ?thesis unfolding replaced_tag_at [OF r u] same_path_Suc by (auto simp del: tag_at.simps)
  qed
qed

text \<open>The tree at \<open>p\<close> has kept its nodes and items; only tags have changed, and only in its nodes.\<close>

definition retagged :: "rt_heap \<Rightarrow> rt_heap \<Rightarrow> nat \<Rightarrow> addr \<Rightarrow> bool" where
  "retagged H H' n p \<longleftrightarrow> tree_ok H' n p \<and> nodes_of H' n p = nodes_of H n p \<and> (\<forall>j. item_at H' n p j = item_at H n p j) \<and>
     dom H' = dom H \<and> (\<forall>a. a \<notin> nodes_of H n p \<longrightarrow> H' a = H a) \<and> (\<forall>j. path_of H' n p j = path_of H n p j)"

lemma retaggedD:
  assumes "retagged H H' n p"
  shows "tree_ok H' n p" "nodes_of H' n p = nodes_of H n p" "item_at H' n p j = item_at H n p j" "dom H' = dom H"
    "a \<notin> nodes_of H n p \<Longrightarrow> H' a = H a" "path_of H' n p j = path_of H n p j"
  using assms unfolding retagged_def by blast+

lemma retagged_refl: "tree_ok H n p \<Longrightarrow> retagged H H n p"
  by (simp add: retagged_def)

text \<open>A change of the tags below slot \<open>k\<close>, together with one of the tags of slot \<open>k\<close>.\<close>

lemma retagged_up:
  assumes t: "tree_ok H (Suc n) p" "p \<noteq> 0" "H p = Some nd" and k: "k < 64"
    and c: "retagged H H1 n (rtn_slots nd ! k)"
    and nd': "rtn_slots nd' = rtn_slots nd" "node_ok (Suc n) nd'" "\<And>t i. t < 2 \<Longrightarrow> i < 64 \<Longrightarrow> i \<noteq> k \<Longrightarrow> tag_bit nd' t i = tag_bit nd t i"
    and here: "\<And>t. t < 2 \<Longrightarrow> if n = 0 then tag_bit nd' t k \<longrightarrow> rtn_slots nd ! k \<noteq> 0 else tag_bit nd' t k = tagged H1 (rtn_slots nd ! k) t"
  shows "child_replaced H (H1(p \<mapsto> nd')) n p nd nd' k (rtn_slots nd ! k)" "retagged H (H1(p \<mapsto> nd')) (Suc n) p"
    "tag_at (H1(p \<mapsto> nd')) n (rtn_slots nd ! k) j u = tag_at H1 n (rtn_slots nd ! k) j u"
proof -
  let ?c = "rtn_slots nd ! k" and ?H = "H1(p \<mapsto> nd')"
  note parts = tree_parts [OF t] and cD = retaggedD [OF c]
  have np: "p \<notin> nodes_of H1 n ?c" using parts(4) [OF k] cD(2) by simp
  then have fr: "?H a = H1 a" if "a \<in> nodes_of H1 n ?c" for a using that by auto
  note f = tree_frame [where H' = ?H, OF cD(1) fr]
  show "tag_at ?H n ?c j u = tag_at H1 n ?c j u" by (rule tag_at_frame [where H' = ?H, OF cD(1) fr])
  have pf: "path_of ?H n ?c j = path_of H n ?c j" for j using path_frame [where H' = ?H, OF cD(1) fr] cD(6) by simp
  have sub: "nodes_of H n ?c \<subseteq> nodes_of H (Suc n) p" "p \<in> nodes_of H (Suc n) p" using k unfolding parts(6) by blast+
  have h: "if n = 0 then tag_bit nd' t k \<longrightarrow> ?c \<noteq> 0 else tag_bit nd' t k = tagged ?H ?c t" if "t < 2" for t
    using here [OF that] f(4) [where t = t] by (cases "n = 0") simp_all
  have ap: "nodes_of ?H n ?c \<inter> (nodes_of H (Suc n) p - nodes_of H n ?c) = {}" using f(1) cD(2) by blast
  have sm: "\<forall>a \<in> nodes_of H (Suc n) p. a \<noteq> p \<and> a \<notin> nodes_of H n ?c \<longrightarrow> ?H a = H a" using cD(5) by (simp del: nodes_of.simps)
  have a: "?H p = Some nd'" "rtn_slots nd' = (rtn_slots nd)[k := ?c]" "\<forall>t < 2. \<forall>i < 64. i \<noteq> k \<longrightarrow> tag_bit nd' t i = tag_bit nd t i"
    "\<forall>t < 2. if n = 0 then tag_bit nd' t k \<longrightarrow> ?c \<noteq> 0 else tag_bit nd' t k = tagged ?H ?c t"
    using nd'(1,3) h by simp_all
  show r: "child_replaced H ?H n p nd nd' k ?c"
    using t k a nd'(2) f(3) ap sm unfolding child_replaced_def by - (intro conjI, assumption+)
  have "nodes_of ?H (Suc n) p = nodes_of H (Suc n) p" using f(1) cD(2) sub(1) unfolding replaced_nodes [OF r] by blast
  moreover have "item_at ?H (Suc n) p j = item_at H (Suc n) p j" for j
    using t(2,3) f(2) [of j] cD(3) [of j] unfolding replaced_item [OF r] by simp
  moreover have "dom ?H = dom H" using cD(4) t(3) by auto
  moreover have "?H a = H a" if "a \<notin> nodes_of H (Suc n) p" for a using cD(5) [of a] that sub by (cases "a = p") auto
  moreover have "path_of ?H (Suc n) p j = path_of H (Suc n) p j" for j unfolding replaced_path [OF r] using pf [of j] t(2,3) by auto
  ultimately show "retagged H ?H (Suc n) p" using replaced_tree [OF r] unfolding retagged_def by blast
qed

section \<open>The tags of a node\<close>

lemma tag_set_ok:
  assumes "node_ok n nd" "t < 2" "k < 64"
  obtains nd' where "tag_set t k nd = Some nd'" "rtn_slots nd' = rtn_slots nd" "node_ok n nd'"
    "\<And>u i. u < 2 \<Longrightarrow> tag_bit nd' u i \<longleftrightarrow> tag_bit nd u i \<or> u = t \<and> i = k"
proof -
  have l: "length (rtn_tags nd) = 2" "length (rtn_tags nd ! t) = 2" using assms(1,2) by (simp_all add: node_ok_def)
  then have "k < 32 * length (rtn_tags nd ! t)" using assms(3) by simp
  then obtain ws where w: "set_bit_in k (rtn_tags nd ! t) = Some ws" "length ws = length (rtn_tags nd ! t)"
    "\<And>i. bit_at ws i \<longleftrightarrow> i = k \<or> bit_at (rtn_tags nd ! t) i" by (rule set_bit_in_bits) (rule that)
  let ?nd = "nd\<lparr>rtn_tags := (rtn_tags nd)[t := ws]\<rparr>"
  have "node_ok n ?nd" using assms(1,2) l w(2) by (auto simp: node_ok_def nth_list_update)
  moreover have "tag_bit ?nd u i \<longleftrightarrow> tag_bit nd u i \<or> u = t \<and> i = k" if "u < 2" for u i
    using that l assms(2) w(3) by (cases "u = t") (auto simp: tag_bit_def)
  ultimately show ?thesis using that [of ?nd] w(1) l(1) assms(2) by (simp add: tag_set_def)
qed

lemma tag_clear_ok:
  assumes "node_ok n nd" "t < 2" "k < 64"
  obtains nd' where "tag_clear t k nd = Some nd'" "rtn_slots nd' = rtn_slots nd" "node_ok n nd'"
    "\<And>u i. u < 2 \<Longrightarrow> tag_bit nd' u i \<longleftrightarrow> tag_bit nd u i \<and> \<not> (u = t \<and> i = k)"
proof -
  have l: "length (rtn_tags nd) = 2" "length (rtn_tags nd ! t) = 2" using assms(1,2) by (simp_all add: node_ok_def)
  then have "k < 32 * length (rtn_tags nd ! t)" using assms(3) by simp
  then obtain ws where w: "clear_bit_in k (rtn_tags nd ! t) = Some ws" "length ws = length (rtn_tags nd ! t)"
    "\<And>i. bit_at ws i \<longleftrightarrow> i \<noteq> k \<and> bit_at (rtn_tags nd ! t) i" by (rule clear_bit_in_bits) (rule that)
  let ?nd = "nd\<lparr>rtn_tags := (rtn_tags nd)[t := ws]\<rparr>"
  have "node_ok n ?nd" using assms(1,2) l w(2) by (auto simp: node_ok_def nth_list_update)
  moreover have "tag_bit ?nd u i \<longleftrightarrow> tag_bit nd u i \<and> \<not> (u = t \<and> i = k)" if "u < 2" for u i
    using that l assms(2) w(3) by (cases "u = t") (auto simp: tag_bit_def)
  ultimately show ?thesis using that [of ?nd] w(1) l(1) assms(2) by (simp add: tag_clear_def)
qed

lemma any_tag_ok:
  assumes "node_ok n nd" "t < 2"
  shows "any_tag_set t nd \<longleftrightarrow> (\<exists>i < 64. tag_bit nd t i)"
proof -
  obtain a b where ab: "rtn_tags nd ! t = [a, b]"
  proof -
    have "length (rtn_tags nd ! t) = 2" using assms by (simp add: node_ok_def)
    then show thesis using that by (auto simp: length_Suc_conv numeral_2_eq_2)
  qed
  have w: "w \<noteq> 0 \<longleftrightarrow> (\<exists>i < 32. bit w i)" for w :: u32 by (auto simp: bit_eq_iff dest: bit_imp_le_length)
  have "\<exists>i < 64. bit_at [a, b] i" if "bit a i" "i < 32" for i using that by (intro exI [of _ i]) (simp add: bit_at_def)
  moreover have "\<exists>i < 64. bit_at [a, b] i" if "bit b i" "i < 32" for i using that by (intro exI [of _ "32 + i"]) (simp add: bit_at_def)
  moreover have "a \<noteq> 0 \<or> b \<noteq> 0" if i: "i < 64" "bit_at [a, b] i" for i
  proof -
    have "i div 32 = 0 \<or> i div 32 = 1" using i(1) by auto
    then show ?thesis using i(2) by (auto simp: bit_at_def)
  qed
  ultimately show ?thesis unfolding any_tag_set_def tag_bit_def ab using w [of a] w [of b] by auto
qed

section \<open>Setting a tag\<close>

text \<open>The parent is written before the tree below; the two writes can be taken in the other order.\<close>

lemma retagged_revert:
  assumes r: "retagged (H(p \<mapsto> x)) H' n c" and t: "tree_ok H n c" "p \<notin> nodes_of H n c" and p: "p \<in> dom H"
  defines "H1 \<equiv> H'(p := H p)"
  shows "retagged H H1 n c" "H1(p \<mapsto> x) = H'" "tag_at H1 n c j u = tag_at H' n c j u" "0 < n \<Longrightarrow> tagged H1 c u = tagged H' c u"
    "tag_at (H(p \<mapsto> x)) n c j u = tag_at H n c j u" "0 < n \<Longrightarrow> tagged (H(p \<mapsto> x)) c u = tagged H c u"
proof -
  let ?H0 = "H(p \<mapsto> x)"
  have fr: "?H0 a = H a" if "a \<in> nodes_of H n c" for a using that t(2) by auto
  note f = tree_frame [where H' = ?H0, OF t(1) fr] and d = retaggedD [OF r]
  have n: "p \<notin> nodes_of ?H0 n c" "p \<notin> nodes_of H' n c" using t(2) f(1) d(2) by simp_all
  have fr1: "H1 a = H' a" if "a \<in> nodes_of H' n c" for a using that n(2) by (auto simp: H1_def)
  note g = tree_frame [where H' = H1, OF d(1) fr1]
  show "tag_at H1 n c j u = tag_at H' n c j u" by (rule tag_at_frame [where H' = H1, OF d(1) fr1])
  show "tag_at ?H0 n c j u = tag_at H n c j u" by (rule tag_at_frame [where H' = ?H0, OF t(1) fr])
  show "0 < n \<Longrightarrow> tagged H1 c u = tagged H' c u" "0 < n \<Longrightarrow> tagged ?H0 c u = tagged H c u" using f(4) g(4) by blast+
  have hp: "H' p = Some x" using d(5) [OF n(1)] by simp
  then show "H1(p \<mapsto> x) = H'" by (simp add: H1_def fun_upd_idem)
  have "dom H1 = dom H" using d(4) p by (auto simp: H1_def)
  moreover have "H1 a = H a" if "a \<notin> nodes_of H n c" for a using d(5) [of a] that f(1) by (auto simp: H1_def)
  moreover have "path_of H1 n c j = path_of H n c j" for j
    using path_frame [where H' = H1, OF d(1) fr1] path_frame [where H' = ?H0, OF t(1) fr] d(6) by simp
  ultimately show "retagged H H1 n c" using f(1,2) g(1-3) d(1-3) unfolding retagged_def by simp
qed

definition tag_set_done :: "rt_heap \<Rightarrow> rt_heap \<Rightarrow> nat \<Rightarrow> addr \<Rightarrow> u32 \<Rightarrow> nat \<Rightarrow> bool" where
  "tag_set_done H H' n p index t \<longleftrightarrow> retagged H H' n p \<and> (0 < n \<longrightarrow> tags_after H H' n p index t True \<and>
     (\<forall>u < 2. tagged H' p u \<longleftrightarrow> tagged H p u \<or> u = t))"

lemma tag_set_step:
  assumes t: "tree_ok H (Suc n) p" "p \<noteq> 0" "H p = Some nd" and tag: "t < 2"
    and c: "rtn_slots nd ! slot_offset index (Suc n) \<noteq> 0"
    and nd': "rtn_slots nd' = rtn_slots nd" "node_ok (Suc n) nd'"
      "\<And>u i. u < 2 \<Longrightarrow> tag_bit nd' u i \<longleftrightarrow> tag_bit nd u i \<or> u = t \<and> i = slot_offset index (Suc n)"
    and below: "tag_set_done (H(p \<mapsto> nd')) H' n (rtn_slots nd ! slot_offset index (Suc n)) index t"
  shows "tag_set_done H H' (Suc n) p index t"
proof -
  let ?k = "slot_offset index (Suc n)" and ?c = "rtn_slots nd ! slot_offset index (Suc n)"
  define H1 where "H1 = H'(p := H p)"
  note parts = tree_parts [OF t]
  have b: "retagged (H(p \<mapsto> nd')) H' n ?c" "0 < n \<Longrightarrow> tags_after (H(p \<mapsto> nd')) H' n ?c index t True"
    "\<And>u. 0 < n \<Longrightarrow> u < 2 \<Longrightarrow> tagged H' ?c u \<longleftrightarrow> tagged (H(p \<mapsto> nd')) ?c u \<or> u = t"
    using below unfolding tag_set_done_def by blast+
  have pd: "p \<in> dom H" using t(3) by blast
  note v = retagged_revert [OF b(1) parts(3) [OF slot_offset_less] parts(4) [OF slot_offset_less] pd, folded H1_def]
  have old: "tag_bit nd u ?k = tagged H ?c u" if "0 < n" "u < 2" for u using parts(2) that by (simp add: tags_ok_def)
  have here: "if n = 0 then tag_bit nd' u ?k \<longrightarrow> ?c \<noteq> 0 else tag_bit nd' u ?k = tagged H1 ?c u" if "u < 2" for u
    using that c nd'(3) [OF that, of ?k] old [of u] b(3) [of u] v(4,6) [of u] by auto
  note up = retagged_up [OF t slot_offset_less v(1) nd'(1,2) _ here, unfolded v(2)]
  have r: "child_replaced H H' n p nd nd' ?k ?c" "retagged H H' (Suc n) p" using up(1,2) nd'(3) by auto
  have "tags_after H H' (Suc n) p index t True"
    by (rule tags_after_up [OF r(1)]) (use nd'(3) b(2) v(5) in \<open>simp_all add: tags_after_def\<close>)
  moreover have "tagged H' p u \<longleftrightarrow> tagged H p u \<or> u = t" if "u < 2" for u
    using replacedD(5) [OF r(1)] t(2,3) nd'(3) [OF that] by (cases "u = t") (auto simp: tagged_def intro: exI [of _ ?k])
  ultimately show ?thesis using r(2) unfolding tag_set_done_def by blast
qed

lemma tag_set_loop_ok:
  assumes "tree_ok (rt_nodes s) n p" "item_at (rt_nodes s) n p index \<noteq> 0" "t < 2"
  shows "\<exists>H'. tag_set_loop index t n p s = Some (item_at (rt_nodes s) n p index, s\<lparr>rt_nodes := H'\<rparr>) \<and>
    tag_set_done (rt_nodes s) H' n p index t"
  using assms(1,2)
proof (induction n arbitrary: p s)
  case 0
  then show ?case by (intro exI [of _ "rt_nodes s"]) (simp add: retagged_def tag_set_done_def)
next
  case (Suc n)
  let ?H = "rt_nodes s" and ?k = "slot_offset index (Suc n)"
  have p: "p \<noteq> 0" using Suc.prems(2) by auto
  obtain nd where nd: "?H p = Some nd" using tree_some [OF Suc.prems(1) p] by blast
  note parts = tree_parts [OF Suc.prems(1) p nd]
  let ?c = "rtn_slots nd ! ?k"
  have item: "item_at ?H (Suc n) p index = item_at ?H n ?c index" "?c \<noteq> 0" using p nd Suc.prems(2) by auto
  obtain nd1 where nd1: "tag_set t ?k nd = Some nd1" "rtn_slots nd1 = rtn_slots nd" "node_ok (Suc n) nd1"
    "\<And>u i. u < 2 \<Longrightarrow> tag_bit nd1 u i \<longleftrightarrow> tag_bit nd u i \<or> u = t \<and> i = ?k"
    by (rule tag_set_ok [OF parts(1) assms(3) slot_offset_less]) (rule that)
  define nd' where "nd' = (if tag_bit nd t ?k then nd else nd1)"
  have nd': "rtn_slots nd' = rtn_slots nd" "node_ok (Suc n) nd'" "\<And>u i. u < 2 \<Longrightarrow> tag_bit nd' u i \<longleftrightarrow> tag_bit nd u i \<or> u = t \<and> i = ?k"
    using nd1 parts(1) by (auto simp: nd'_def)
  let ?s = "s\<lparr>rt_nodes := ?H(p \<mapsto> nd')\<rparr>"
  have run: "tag_set_loop index t (Suc n) p s = tag_set_loop index t n ?c ?s"
    using nd item(2) nd1(1) tag_get_ok [OF parts(1) assms(3) slot_offset_less] slot_get_ok [OF parts(1) slot_offset_less]
    by (simp add: node_update_def nd'_def fun_upd_idem)
  have ct: "tree_ok ?H n ?c" "p \<notin> nodes_of ?H n ?c" using parts(3,4) slot_offset_less by blast+
  have n: "rt_nodes ?s = ?H(p \<mapsto> nd')" by simp
  note f = tree_write [OF ct, of "Some nd'"]
  have "item_at (?H(p \<mapsto> nd')) n ?c index \<noteq> 0" using Suc.prems(2) unfolding f(2) item(1) .
  from Suc.IH [of ?s ?c, unfolded n, OF f(3) this] obtain H' where "tag_set_loop index t n ?c ?s = Some (item_at ?H n ?c index, ?s\<lparr>rt_nodes := H'\<rparr>)"
    "tag_set_done (?H(p \<mapsto> nd')) H' n ?c index t" unfolding f(2) by blast
  then show ?case using tag_set_step [OF Suc.prems(1) p nd assms(3) item(2) nd'] unfolding run item(1) by auto
qed

section \<open>Clearing a tag\<close>

text \<open>The way up stops where the tag was not set, or where another slot of the node has it.\<close>

definition tag_clear_done :: "rt_heap \<Rightarrow> rt_heap \<Rightarrow> nat \<Rightarrow> addr \<Rightarrow> u32 \<Rightarrow> nat \<Rightarrow> bool \<Rightarrow> bool" where
  "tag_clear_done H H' n p index t stop \<longleftrightarrow> retagged H H' n p \<and> (n = 0 \<longrightarrow> \<not> stop \<and> H' = H) \<and>
     (0 < n \<longrightarrow> tags_after H H' n p index t False \<and> (\<forall>u < 2. tagged H' p u \<longleftrightarrow> tagged H p u \<and> (u = t \<longrightarrow> stop)))"

lemma tag_clear_step:
  assumes t: "tree_ok H (Suc n) p" "p \<noteq> 0" "H p = Some nd"
    and below: "tag_clear_done H H1 n (rtn_slots nd ! slot_offset index (Suc n)) index t sc"
    and nd': "rtn_slots nd' = rtn_slots nd" "node_ok (Suc n) nd'"
      "\<And>u i. u < 2 \<Longrightarrow> tag_bit nd' u i \<longleftrightarrow> tag_bit nd u i \<and> \<not> (u = t \<and> i = slot_offset index (Suc n) \<and> \<not> sc)"
    and stop: "stop \<longleftrightarrow> sc \<or> \<not> tag_bit nd t (slot_offset index (Suc n)) \<or> (\<exists>i < 64. tag_bit nd' t i)"
  shows "tag_clear_done H (H1(p \<mapsto> nd')) (Suc n) p index t stop"
proof -
  let ?k = "slot_offset index (Suc n)" and ?c = "rtn_slots nd ! slot_offset index (Suc n)" and ?H = "H1(p \<mapsto> nd')"
  note parts = tree_parts [OF t]
  have b: "retagged H H1 n ?c" "n = 0 \<Longrightarrow> \<not> sc" "0 < n \<Longrightarrow> tags_after H H1 n ?c index t False"
    "\<And>u. 0 < n \<Longrightarrow> u < 2 \<Longrightarrow> tagged H1 ?c u \<longleftrightarrow> tagged H ?c u \<and> (u = t \<longrightarrow> sc)"
    using below unfolding tag_clear_done_def by blast+
  have old: "if n = 0 then tag_bit nd u ?k \<longrightarrow> ?c \<noteq> 0 else tag_bit nd u ?k = tagged H ?c u" if "u < 2" for u
    using parts(2) that unfolding tags_ok_def by simp
  have here: "if n = 0 then tag_bit nd' u ?k \<longrightarrow> ?c \<noteq> 0 else tag_bit nd' u ?k = tagged H1 ?c u" if "u < 2" for u
    using that nd'(3) [OF that, of ?k] old [OF that] b(4) [of u] by (cases "n = 0") auto
  note up = retagged_up [OF t slot_offset_less b(1) nd'(1,2) _ here]
  have r: "child_replaced H ?H n p nd nd' ?k ?c" "retagged H ?H (Suc n) p" using up(1,2) nd'(3) by auto
  have w: "tag_at ?H n ?c j u = tag_at H1 n ?c j u" for j u using up(3) nd'(3) by blast
  have "tags_after H ?H (Suc n) p index t False"
  proof (rule tags_after_up [OF r(1) refl])
    fix u assume "n = 0" "u < (2 :: nat)"
    then show "tag_bit nd' u ?k = (if u = t then False else tag_bit nd u ?k)" using nd'(3) [of u ?k] b(2) by auto
  next
    assume "0 < n"
    then show "tags_after H ?H n ?c index t False" using b(3) unfolding tags_after_def w by blast
  qed
  moreover have "tagged ?H p u \<longleftrightarrow> tagged H p u \<and> (u = t \<longrightarrow> stop)" if "u < 2" for u
  proof -
    have "tagged ?H p u \<longleftrightarrow> (\<exists>i < 64. tag_bit nd' u i)" "tagged H p u \<longleftrightarrow> (\<exists>i < 64. tag_bit nd u i)"
      using t(2,3) by (simp_all add: tagged_def)
    moreover have "tag_bit nd' u i = tag_bit nd u i" if "u \<noteq> t \<or> sc \<or> \<not> tag_bit nd t ?k" for i
      using that nd'(3) [OF \<open>u < 2\<close>, of i] by auto
    ultimately show ?thesis using stop nd'(3) [OF that] by (cases "u = t") (metis | blast)+
  qed
  ultimately show ?thesis using r(2) unfolding tag_clear_done_def by blast
qed

lemma tag_clear_up_ok:
  assumes "tree_ok (rt_nodes s) n p" "item_at (rt_nodes s) n p index \<noteq> 0" "t < 2"
  shows "\<exists>H' stop. tag_clear_up t (rev (path_of (rt_nodes s) n p index) @ rest) root s =
      (if stop then Some (root, s\<lparr>rt_nodes := H'\<rparr>) else tag_clear_up t rest root (s\<lparr>rt_nodes := H'\<rparr>)) \<and>
    tag_clear_done (rt_nodes s) H' n p index t stop"
  using assms(1,2)
proof (induction n arbitrary: p rest)
  case 0
  then show ?case by (intro exI [of _ "rt_nodes s"] exI [of _ False]) (simp add: retagged_def tag_clear_done_def)
next
  case (Suc n)
  let ?H = "rt_nodes s" and ?k = "slot_offset index (Suc n)"
  have p: "p \<noteq> 0" using Suc.prems(2) by auto
  obtain nd where nd: "?H p = Some nd" using tree_some [OF Suc.prems(1) p] by blast
  note parts = tree_parts [OF Suc.prems(1) p nd]
  let ?c = "rtn_slots nd ! ?k"
  have item: "item_at ?H (Suc n) p index = item_at ?H n ?c index" using p nd by simp
  have path: "rev (path_of ?H (Suc n) p index) @ rest = rev (path_of ?H n ?c index) @ (p, ?k) # rest" using nd p by simp
  from Suc.IH [OF parts(3) [OF slot_offset_less], where rest = "(p, ?k) # rest"] Suc.prems(2) obtain H1 sc where
    run: "tag_clear_up t (rev (path_of ?H n ?c index) @ (p, ?k) # rest) root s =
      (if sc then Some (root, s\<lparr>rt_nodes := H1\<rparr>) else tag_clear_up t ((p, ?k) # rest) root (s\<lparr>rt_nodes := H1\<rparr>))" and
    d: "tag_clear_done ?H H1 n ?c index t sc" unfolding item by blast
  have h1: "H1 p = Some nd" using d parts(4) [OF slot_offset_less] nd unfolding tag_clear_done_def retagged_def by simp
  note step = tag_clear_step [OF Suc.prems(1) p nd d]
  note g = tag_get_ok [OF parts(1) assms(3) slot_offset_less, of index "Suc n"]
  show ?case
  proof (cases "sc \<or> \<not> tag_bit nd t ?k")
    case True
    have "tag_clear_done ?H (H1(p \<mapsto> nd)) (Suc n) p index t True" by (rule step) (use True parts(1) in auto)
    then show ?thesis unfolding path run using True h1 g
      by (intro exI [of _ H1] exI [of _ True]) (auto simp: fun_upd_idem)
  next
    case False
    obtain nd' where nd': "tag_clear t ?k nd = Some nd'" "rtn_slots nd' = rtn_slots nd" "node_ok (Suc n) nd'"
      "\<And>u i. u < 2 \<Longrightarrow> tag_bit nd' u i \<longleftrightarrow> tag_bit nd u i \<and> \<not> (u = t \<and> i = ?k)"
      by (rule tag_clear_ok [OF parts(1) assms(3) slot_offset_less]) (rule that)
    define H2 and stop where "H2 = H1(p \<mapsto> nd')" and "stop = (\<exists>i < 64. tag_bit nd' t i)"
    have "tag_clear_done ?H H2 (Suc n) p index t stop" unfolding H2_def stop_def by (rule step) (use False nd' in auto)
    moreover have "tag_clear_up t ((p, ?k) # rest) root (s\<lparr>rt_nodes := H1\<rparr>) =
        (if stop then Some (root, s\<lparr>rt_nodes := H2\<rparr>) else tag_clear_up t rest root (s\<lparr>rt_nodes := H2\<rparr>))"
      using False h1 g nd'(1) any_tag_ok [OF nd'(3) assms(3), folded stop_def] by (simp add: node_update_def H2_def)
    moreover have "\<not> sc" using False by blast
    ultimately show ?thesis unfolding path run by (simp only: if_False) blast
  qed
qed

section \<open>At the root\<close>

text \<open>The tag of an index; the item of a tree without nodes has its tags in the root.\<close>

definition tags_in :: "rt_root \<Rightarrow> ('k, 'z) rtstate \<Rightarrow> u32 \<Rightarrow> nat \<Rightarrow> bool" where
  "tags_in root s j t \<longleftrightarrow> j \<le> maxindex (rt_height root) \<and>
     (if rt_height root = 0 then root_tag_get t root else tag_at (rt_nodes s) (rt_height root) (rt_ptr root) j t)"

lemma root_tags [simp]:
  "t < 2 \<Longrightarrow> u < 2 \<Longrightarrow> root_tag_get u (root_tag_set t root) \<longleftrightarrow> root_tag_get u root \<or> u = t"
  "t < 2 \<Longrightarrow> u < 2 \<Longrightarrow> root_tag_get u (root_tag_clear t root) \<longleftrightarrow> root_tag_get u root \<and> u \<noteq> t"
  "t < 2 \<Longrightarrow> \<not> root_tag_get t (root_tag_clear_all root)"
  by (auto simp: root_tag_get_def root_tag_set_def root_tag_clear_def root_tag_clear_all_def less_Suc_eq numeral_2_eq_2
      push_bit_of_1 and_exp_eq_0_iff_not_bit bit_simps)

lemma root_tag_frame [simp]:
  "rt_height (root_tag_set t root) = rt_height root" "rt_rnode (root_tag_set t root) = rt_rnode root"
  "rt_height (root_tag_clear t root) = rt_height root" "rt_rnode (root_tag_clear t root) = rt_rnode root"
  "rt_height (root_tag_clear_all root) = rt_height root" "rt_rnode (root_tag_clear_all root) = rt_rnode root"
  by (simp_all add: root_tag_set_def root_tag_clear_def root_tag_clear_all_def)

text \<open>\<open>radix_tree_tagged\<close> tells whether any index has the tag.\<close>

lemma root_tagged_iff:
  assumes "root_ok (rt_nodes s) root" "t < 2"
  shows "root_tag_get t root \<longleftrightarrow> (\<exists>j. tags_in root s j t)"
proof (cases "rt_height root")
  case 0
  then show ?thesis by (auto simp: tags_in_def)
next
  case (Suc n)
  note r = root_okD [OF assms(1)]
  have "tree_ok (rt_nodes s) (Suc n) (rt_ptr root)" "n \<le> 5" "rt_ptr root = rt_rnode root" using r(1,2,6) Suc by simp_all
  then show ?thesis using tagged_iff [OF _ _ assms(2)] r(3) Suc assms(2) unfolding root_tags_ok_def tags_in_def by auto
qed

lemma retagged_inv:
  assumes i: "rt_inv K J B root s" and h: "rt_height root \<noteq> 0" and r: "retagged (rt_nodes s) H' (rt_height root) (rt_rnode root)"
    and root': "rt_height root' = rt_height root" "rt_rnode root' = rt_rnode root"
    and tags: "\<And>u. u < 2 \<Longrightarrow> root_tag_get u root' = tagged H' (rt_rnode root) u"
  shows "rt_inv K J B root' (s\<lparr>rt_nodes := H'\<rparr>)" "kept B s (s\<lparr>rt_nodes := H'\<rparr>)"
    "contents_in root' (s\<lparr>rt_nodes := H'\<rparr>) = contents_in root s"
proof -
  have ok: "root_ok (rt_nodes s) root" "rt_env K J s" "owned s (tree_set root s \<union> B)" "tree_set root s \<inter> B = {}"
    using i by (auto simp: rt_inv_def)
  note rk = root_okD [OF ok(1)] and d = retaggedD [OF r]
  have p: "rt_ptr root = rt_rnode root" "rt_ptr root' = rt_rnode root" using rk(6) h root' by (simp_all add: rt_ptr_def)
  let ?s = "s\<lparr>rt_nodes := H'\<rparr>"
  have T: "tree_set root' ?s = tree_set root s" using d(2) by (simp add: tree_set_def p root')
  have "pool_ok ?s"
  proof -
    have "H' a = rt_nodes s a" if "a \<in> set (rt_preload s)" for a
      using ok(3) that d(5) [of a] unfolding owned_def tree_set_def p by blast
    then show ?thesis using ok(2) d(4) by (simp add: rt_env_def pool_ok_def)
  qed
  then have "rt_env K J ?s" using ok(2) d(4) by (simp add: rt_env_def)
  moreover have "root_ok H' root'" using ok(1) d(1) tags h root' p unfolding root_ok_def root_tags_ok_def by simp
  moreover have "owned ?s (tree_set root s \<union> B)" using ok(3) d(4) by (simp add: owned_def)
  ultimately show "rt_inv K J B root' ?s" using ok(4) T by (simp add: rt_inv_def)
  show "kept B s ?s" using d(5) ok(4) unfolding kept_def tree_set_def p by auto
  show "contents_in root' ?s = contents_in root s" by (intro ext) (simp add: contents_def p root' d(3))
qed

definition retag_result :: "('k, 'z) rtkit \<Rightarrow> (addr set \<Rightarrow> 'k \<Rightarrow> bool) \<Rightarrow> addr set \<Rightarrow> rt_root \<Rightarrow> u32 \<Rightarrow> nat \<Rightarrow> bool \<Rightarrow> ('k, 'z) rtstate
    \<Rightarrow> rt_root \<Rightarrow> ('k, 'z) rtstate \<Rightarrow> bool" where
  "retag_result K J B root index t v s root' s' \<longleftrightarrow> rt_inv K J B root' s' \<and> kept B s s' \<and> contents_in root' s' = contents_in root s \<and>
     (\<forall>j. \<forall>u < 2. tags_in root' s' j u = (if j = index \<and> u = t then v else tags_in root s j u))"

lemma same_path_less:
  assumes "index \<le> maxindex n" "tags_after H H' n p index t v" "u < 2" "j \<le> maxindex n"
  shows "tag_at H' n p j u = (if j = index \<and> u = t then v else tag_at H n p j u)"
  using assms same_path_eq [OF assms(1,4)] unfolding tags_after_def by auto

lemma retag_root:
  assumes i: "rt_inv K J B root s" and h: "rt_height root = Suc n" and ix: "index \<le> maxindex (Suc n)"
    and r: "retagged (rt_nodes s) H' (Suc n) (rt_rnode root)" "tags_after (rt_nodes s) H' (Suc n) (rt_rnode root) index t v"
    and root': "rt_height root' = rt_height root" "rt_rnode root' = rt_rnode root"
    and tags: "\<And>u. u < 2 \<Longrightarrow> root_tag_get u root' = tagged H' (rt_rnode root) u"
  shows "retag_result K J B root index t v s root' (s\<lparr>rt_nodes := H'\<rparr>)"
proof -
  have "rt_height root \<noteq> 0" using h by simp
  note inv = retagged_inv [OF i this r(1) [folded h] root' tags]
  have p: "rt_ptr root = rt_rnode root" "rt_ptr root' = rt_rnode root"
    using root_okD(6) [of "rt_nodes s" root] i h root' by (simp_all add: rt_inv_def rt_ptr_def)
  have "tags_in root' (s\<lparr>rt_nodes := H'\<rparr>) j u = (if j = index \<and> u = t then v else tags_in root s j u)" if "u < 2" for j u
    using same_path_less [OF ix r(2) that, of j] ix unfolding tags_in_def by (auto simp: root' h p simp del: tag_at.simps)
  then show ?thesis using inv unfolding retag_result_def by blast
qed

lemma present_item:
  assumes "root_ok (rt_nodes s) root" "rt_height root = Suc n" "contents_in root s index \<noteq> 0"
  shows "tree_ok (rt_nodes s) (Suc n) (rt_rnode root)" "item_at (rt_nodes s) (Suc n) (rt_rnode root) index \<noteq> 0"
    "contents_in root s index = item_at (rt_nodes s) (Suc n) (rt_rnode root) index"
proof -
  note r = root_okD [OF assms(1)]
  have p: "rt_ptr root = rt_rnode root" using r(6) assms(2) by simp
  show "tree_ok (rt_nodes s) (Suc n) (rt_rnode root)" using r(2) unfolding p assms(2) .
  show e: "contents_in root s index = item_at (rt_nodes s) (Suc n) (rt_rnode root) index"
    using assms(3) unfolding contents_def p assms(2) by (simp del: item_at.simps split: if_splits)
  show "item_at (rt_nodes s) (Suc n) (rt_rnode root) index \<noteq> 0" using assms(3) unfolding e .
qed

lemma tag_set_result:
  assumes i: "rt_inv K J B root s" and c: "contents_in root s index \<noteq> 0" and t: "t < 2"
  shows "\<exists>root' s'. radix_tree_tag_set root index t s = Some (if rt_height root = 0 then rt_rnode root else contents_in root s index, root', s') \<and>
    retag_result K J B root index t True s root' s'"
proof -
  have ok: "root_ok (rt_nodes s) root" using i by (simp add: rt_inv_def)
  note rk = root_okD [OF ok]
  have ix: "index \<le> maxindex (rt_height root)" using c by (auto simp: contents_def not_less split: if_splits)
  show ?thesis
  proof (cases "rt_height root")
    case 0
    let ?r = "if root_tag_get t root then root else root_tag_set t root"
    have z: "rt_rnode root \<noteq> 0" "index = 0" using c ix 0 by (auto simp: contents_def rt_ptr_def radix_tree_direct_to_ptr_def maxindex_zero)
    have "root_ok (rt_nodes s) ?r" using ok 0 z by (auto simp: root_ok_def root_tags_ok_def rt_ptr_def)
    then have "rt_inv K J B ?r s" using i 0 by (auto simp: rt_inv_def tree_set_def)
    then have "retag_result K J B root index t True s ?r s"
      using 0 t z by (auto simp: retag_result_def kept_def contents_def tags_in_def rt_ptr_def maxindex_zero fun_eq_iff)
    then show ?thesis using 0 z by (auto simp: radix_tree_tag_set_def maxindex_zero)
  next
    case (Suc n)
    let ?p = "rt_rnode root"
    note tr = present_item [OF ok Suc c]
    obtain H' where e: "tag_set_loop index t (Suc n) ?p s = Some (item_at (rt_nodes s) (Suc n) ?p index, s\<lparr>rt_nodes := H'\<rparr>)"
      "tag_set_done (rt_nodes s) H' (Suc n) ?p index t" using tag_set_loop_ok [OF tr(1,2) t] by blast
    let ?r = "if root_tag_get t root then root else root_tag_set t root"
    have d: "retagged (rt_nodes s) H' (Suc n) ?p" "tags_after (rt_nodes s) H' (Suc n) ?p index t True"
      "\<And>u. u < 2 \<Longrightarrow> tagged H' ?p u \<longleftrightarrow> tagged (rt_nodes s) ?p u \<or> u = t" using e(2) unfolding tag_set_done_def by blast+
    have "retag_result K J B root index t True s ?r (s\<lparr>rt_nodes := H'\<rparr>)"
      by (rule retag_root [OF i Suc ix [unfolded Suc] d(1,2)]) (use d(3) rk(3) t Suc in \<open>auto simp: root_tags_ok_def\<close>)
    then show ?thesis using e(1) tr(2,3) ix Suc by (auto simp: radix_tree_tag_set_def leD simp del: tag_set_loop.simps item_at.simps)
  qed
qed

lemma tag_clear_result:
  assumes i: "rt_inv K J B root s" and c: "contents_in root s index \<noteq> 0" and t: "t < 2"
  shows "\<exists>root' s'. radix_tree_tag_clear root index t s = Some (if rt_height root = 0 then rt_rnode root else contents_in root s index, root', s') \<and>
    retag_result K J B root index t False s root' s' \<and> rt_height root' = rt_height root \<and> rt_rnode root' = rt_rnode root \<and>
    (0 < rt_height root \<longrightarrow> retagged (rt_nodes s) (rt_nodes s') (rt_height root) (rt_rnode root)) \<and> (\<exists>H'. s' = s\<lparr>rt_nodes := H'\<rparr>)"
proof -
  have ok: "root_ok (rt_nodes s) root" using i by (simp add: rt_inv_def)
  note rk = root_okD [OF ok]
  have ix: "index \<le> maxindex (rt_height root)" using c by (auto simp: contents_def not_less split: if_splits)
  show ?thesis
  proof (cases "rt_height root")
    case 0
    let ?r = "if root_tag_get t root then root_tag_clear t root else root"
    have z: "rt_rnode root \<noteq> 0" "index = 0" using c ix 0 by (auto simp: contents_def rt_ptr_def radix_tree_direct_to_ptr_def maxindex_zero)
    have "root_ok (rt_nodes s) ?r" using ok 0 z by (auto simp: root_ok_def root_tags_ok_def rt_ptr_def)
    then have "rt_inv K J B ?r s" using i 0 by (auto simp: rt_inv_def tree_set_def)
    then have "retag_result K J B root index t False s ?r s"
      using 0 t z by (auto simp: retag_result_def kept_def contents_def tags_in_def rt_ptr_def maxindex_zero fun_eq_iff)
    then show ?thesis using 0 z by (auto simp: radix_tree_tag_clear_def maxindex_zero intro: exI [of _ "rt_nodes s"])
  next
    case (Suc n)
    let ?p = "rt_rnode root"
    note tr = present_item [OF ok Suc c]
    obtain H' stop where e: "tag_clear_up t (rev (path_of (rt_nodes s) (Suc n) ?p index) @ []) root s =
        (if stop then Some (root, s\<lparr>rt_nodes := H'\<rparr>) else tag_clear_up t [] root (s\<lparr>rt_nodes := H'\<rparr>))"
      "tag_clear_done (rt_nodes s) H' (Suc n) ?p index t stop" using tag_clear_up_ok [OF tr(1,2) t] by blast
    let ?r = "if stop then root else if root_tag_get t root then root_tag_clear t root else root"
    have d: "retagged (rt_nodes s) H' (Suc n) ?p" "tags_after (rt_nodes s) H' (Suc n) ?p index t False"
      "\<And>u. u < 2 \<Longrightarrow> tagged H' ?p u \<longleftrightarrow> tagged (rt_nodes s) ?p u \<and> (u = t \<longrightarrow> stop)" using e(2) unfolding tag_clear_done_def by blast+
    have "retag_result K J B root index t False s ?r (s\<lparr>rt_nodes := H'\<rparr>)"
      by (rule retag_root [OF i Suc ix [unfolded Suc] d(1,2)]) (use d(3) rk(3) t Suc in \<open>auto simp: root_tags_ok_def\<close>)
    moreover have "radix_tree_tag_clear root index t s = Some (item_at (rt_nodes s) (Suc n) ?p index, ?r, s\<lparr>rt_nodes := H'\<rparr>)"
      using e(1) tr(2) ix Suc find_path_ok [OF tr(1), of index "[]"]
      by (auto simp: radix_tree_tag_clear_def leD simp del: find_path.simps item_at.simps path_of.simps)
    ultimately show ?thesis using tr(3) d(1) Suc by (intro exI [of _ ?r] exI [of _ "s\<lparr>rt_nodes := H'\<rparr>"]) auto
  qed
qed

end
