(* ===== verification/Radix_Delete.thy ===== *)
theory Radix_Delete
  imports Radix_Tags
begin

text \<open>
  Deletion from radix trees: the nodes that become empty are unlinked from the leaf upwards, the tree shrinks to the
  height that its items need, and the nodes that it no longer uses are handed to the deferred free.
\<close>

section \<open>Unlinking on the way up\<close>

lemma tag_at_tagged:
  assumes "tree_ok H n p" "tag_at H n p j t" "t < 2"
  shows "tagged H p t"
  using assms(1,2)
proof (induction n arbitrary: p)
  case (Suc n)
  have p: "p \<noteq> 0" using Suc.prems(2) by auto
  obtain nd where nd: "H p = Some nd" using tree_some [OF Suc.prems(1) p] by blast
  note parts = tree_parts [OF Suc.prems(1) p nd]
  let ?k = "slot_offset j (Suc n)"
  have "tag_bit nd t ?k"
  proof (cases "n = 0")
    case False
    then have "tagged H (rtn_slots nd ! ?k) t" using Suc.IH [OF parts(3) [OF slot_offset_less]] Suc.prems(2) nd p by simp
    then show ?thesis using parts(2) False assms(3) unfolding tags_ok_def by simp
  qed (use Suc.prems(2) nd p in simp)
  then show ?case using nd p unfolding tagged_def by (auto intro: exI [of _ ?k])
qed simp

text \<open>
  The tree at \<open>p\<close> has lost the item at the index and the nodes \<open>F\<close>; or it holds nothing else, and all its nodes but
  \<open>p\<close> itself are in \<open>F\<close>.
\<close>

definition pruned :: "rt_heap \<Rightarrow> rt_heap \<Rightarrow> nat \<Rightarrow> addr \<Rightarrow> u32 \<Rightarrow> addr list \<Rightarrow> bool" where
  "pruned H H' n p index F \<longleftrightarrow> tree_ok H' n p \<and> nodes_of H' n p = nodes_of H n p - set F \<and> set F \<subseteq> nodes_of H n p \<and>
     (\<forall>j. item_at H' n p j = (if same_path n index j then 0 else item_at H n p j)) \<and>
     (\<forall>t < 2. tagged H' p t = tagged H p t) \<and> (\<forall>j. \<forall>t < 2. tag_at H' n p j t = tag_at H n p j t)"

lemma prunedD:
  assumes "pruned H H' n p index F"
  shows "tree_ok H' n p" "nodes_of H' n p = nodes_of H n p - set F" "set F \<subseteq> nodes_of H n p"
    "item_at H' n p j = (if same_path n index j then 0 else item_at H n p j)"
    "t < 2 \<Longrightarrow> tagged H' p t = tagged H p t" "t < 2 \<Longrightarrow> tag_at H' n p j t = tag_at H n p j t"
  using assms unfolding pruned_def by blast+

abbreviation (input) last_node :: "nat \<Rightarrow> addr \<Rightarrow> addr list" where
  "last_node n p \<equiv> (if n = 0 then [] else [p])"

definition emptied :: "rt_heap \<Rightarrow> nat \<Rightarrow> addr \<Rightarrow> u32 \<Rightarrow> addr list \<Rightarrow> bool" where
  "emptied H n p index F \<longleftrightarrow> (\<forall>j. \<not> same_path n index j \<longrightarrow> item_at H n p j = 0) \<and> (0 < n \<longrightarrow> (\<forall>t < 2. \<not> tagged H p t)) \<and>
     set (F @ last_node n p) = nodes_of H n p"

definition outside :: "rt_heap \<Rightarrow> rt_heap \<Rightarrow> nat \<Rightarrow> addr \<Rightarrow> bool" where
  "outside H H' n p \<longleftrightarrow> dom H' = dom H \<and> (\<forall>a. a \<notin> nodes_of H n p \<longrightarrow> H' a = H a)"

lemma prune_up:
  assumes t: "tree_ok H (Suc n) p" "p \<noteq> 0" "H p = Some nd" and n: "0 < n"
    and c: "pruned H H1 n (rtn_slots nd ! slot_offset index (Suc n)) index F" "outside H H1 n (rtn_slots nd ! slot_offset index (Suc n))"
  shows "pruned H H1 (Suc n) p index F" "outside H H1 (Suc n) p"
proof -
  let ?k = "slot_offset index (Suc n)" and ?c = "rtn_slots nd ! slot_offset index (Suc n)"
  note parts = tree_parts [OF t] and d = prunedD [OF c(1)]
  have o: "dom H1 = dom H" "\<And>a. a \<notin> nodes_of H n ?c \<Longrightarrow> H1 a = H a" using c(2) unfolding outside_def by blast+
  have hp: "H1 p = Some nd" using o(2) [OF parts(4) [OF slot_offset_less]] t(3) by simp
  have sub: "nodes_of H n ?c \<subseteq> nodes_of H (Suc n) p" using slot_offset_less unfolding parts(6) by blast
  have tg: "\<forall>u < 2. if n = 0 then tag_bit nd u ?k \<longrightarrow> ?c \<noteq> 0 else tag_bit nd u ?k = tagged H1 ?c u"
    using parts(2) n d(5) slot_offset_less unfolding tags_ok_def by auto
  have ap: "nodes_of H1 n ?c \<inter> (nodes_of H (Suc n) p - nodes_of H n ?c) = {}" using d(2) by blast
  have sm: "\<forall>a \<in> nodes_of H (Suc n) p. a \<noteq> p \<and> a \<notin> nodes_of H n ?c \<longrightarrow> H1 a = H a" using o(2) by blast
  have r: "child_replaced H H1 n p nd nd ?k ?c"
    unfolding child_replaced_def by (intro conjI) (use t hp parts(1) tg ap sm d(1) slot_offset_less in \<open>(assumption | simp)+\<close>)
  have "p \<notin> set F" using d(3) parts(4) [OF slot_offset_less] by blast
  have "nodes_of H1 (Suc n) p = nodes_of H (Suc n) p - set F" using d(2,3) sub unfolding replaced_nodes [OF r] by blast
  moreover have "item_at H1 (Suc n) p j = (if same_path (Suc n) index j then 0 else item_at H (Suc n) p j)" for j
    using d(4) [of j] t(2,3) unfolding replaced_item [OF r] same_path_Suc by auto
  moreover have "tagged H1 p u = tagged H p u" for u using hp t(3) by (simp add: tagged_def)
  moreover have "tag_at H1 (Suc n) p j u = tag_at H (Suc n) p j u" if "u < 2" for j u
    using d(6) [OF that] n t(2,3) unfolding replaced_tag_at [OF r that] by auto
  ultimately show "pruned H H1 (Suc n) p index F" using replaced_tree [OF r] d(3) sub unfolding pruned_def by blast
  show "outside H H1 (Suc n) p" using o sub unfolding outside_def by blast
qed

text \<open>The child at slot \<open>k\<close> is unlinked.\<close>

definition dropped :: "rt_node \<Rightarrow> nat \<Rightarrow> rt_node" where
  "dropped nd k = nd\<lparr>rtn_slots := (rtn_slots nd)[k := 0], rtn_count := rtn_count nd - 1\<rparr>"

lemma dropped_parts [simp]:
  "rtn_slots (dropped nd k) = (rtn_slots nd)[k := 0]" "tag_bit (dropped nd k) t i = tag_bit nd t i"
  by (simp_all add: dropped_def tag_bit_def)

lemma slot_drop_ok: "node_ok n nd \<Longrightarrow> k < 64 \<Longrightarrow> slot_drop k nd = Some (dropped nd k)"
  by (simp add: slot_drop_def slot_set_def dropped_def node_ok_def)

lemma dropped_ok:
  assumes "node_ok n nd" "k < 64" "rtn_slots nd ! k \<noteq> 0"
  shows "node_ok n (dropped nd k)" "rtn_count (dropped nd k) = 0 \<Longrightarrow> i < 64 \<Longrightarrow> i \<noteq> k \<Longrightarrow> rtn_slots nd ! i = 0"
proof -
  have l: "length (rtn_slots nd) = 64" using assms(1) by (simp add: node_ok_def)
  have u: "card (used_slots (rtn_slots nd)) = Suc (card (used_slots ((rtn_slots nd)[k := 0])))"
    using used_slots_update [OF l assms(2), of 0] assms(3) by simp
  then have c: "rtn_count (dropped nd k) = of_nat (card (used_slots ((rtn_slots nd)[k := 0])))"
    using assms(1) by (simp add: node_ok_def dropped_def)
  moreover have "\<forall>i < 64. (rtn_slots nd)[k := 0] ! i \<noteq> 0 \<longrightarrow> off_ok n i"
  proof (intro allI impI)
    fix i :: nat assume "i < 64" "(rtn_slots nd)[k := 0] ! i \<noteq> 0"
    then show "off_ok n i" using assms(1) l by (cases "i = k") (auto simp: node_ok_def)
  qed
  ultimately show "node_ok n (dropped nd k)" using assms(1) unfolding node_ok_def by (simp add: dropped_def)
  assume z: "rtn_count (dropped nd k) = 0" "i < 64" "i \<noteq> k"
  have b: "card (used_slots ((rtn_slots nd)[k := 0])) < 2 ^ 32" using used_slots_bound [of "(rtn_slots nd)[k := 0]"] by simp
  then have "unat (of_nat (card (used_slots ((rtn_slots nd)[k := 0]))) :: u32) = card (used_slots ((rtn_slots nd)[k := 0]))"
    by (simp add: unat_of_nat)
  then have "card (used_slots ((rtn_slots nd)[k := 0])) = 0" using z(1) unfolding c by simp
  then have "used_slots ((rtn_slots nd)[k := 0]) = {}" by (simp add: used_slots_def)
  then show "rtn_slots nd ! i = 0" using z(2,3) unfolding used_slots_def by auto
qed

lemma drop_up:
  assumes t: "tree_ok H (Suc n) p" "p \<noteq> 0" "H p = Some nd"
    and c: "rtn_slots nd ! slot_offset index (Suc n) \<noteq> 0" "emptied H n (rtn_slots nd ! slot_offset index (Suc n)) index F"
      "outside H H1 n (rtn_slots nd ! slot_offset index (Suc n))"
    and leaf: "\<And>u. n = 0 \<Longrightarrow> u < 2 \<Longrightarrow> \<not> tag_bit nd u (slot_offset index (Suc n))"
  defines "k \<equiv> slot_offset index (Suc n)"
  defines "H2 \<equiv> H1(p \<mapsto> dropped nd k)" and "F2 \<equiv> F @ last_node n (rtn_slots nd ! k)"
  shows "pruned H H2 (Suc n) p index F2" "outside H H2 (Suc n) p" "rtn_count (dropped nd k) = 0 \<Longrightarrow> emptied H (Suc n) p index F2"
proof -
  let ?c = "rtn_slots nd ! k"
  note parts = tree_parts [OF t]
  have k: "k < 64" by (simp add: k_def)
  have e: "\<And>j. \<not> same_path n index j \<Longrightarrow> item_at H n ?c j = 0" "\<And>u. 0 < n \<Longrightarrow> u < 2 \<Longrightarrow> \<not> tagged H ?c u" "set F2 = nodes_of H n ?c"
    using c(2) unfolding emptied_def F2_def k_def by blast+
  have o: "dom H1 = dom H" "\<And>a. a \<notin> nodes_of H n ?c \<Longrightarrow> H1 a = H a" using c(3) unfolding outside_def k_def by blast+
  have sub: "nodes_of H n ?c \<subseteq> nodes_of H (Suc n) p" "p \<in> nodes_of H (Suc n) p" using k unfolding parts(6) by blast+
  have bit: "\<not> tag_bit nd u k" if "u < 2" for u
    using parts(2) that k e(2) leaf unfolding tags_ok_def k_def by (cases "n = 0") auto
  have tg: "\<forall>u < 2. if n = 0 then tag_bit (dropped nd k) u k \<longrightarrow> 0 \<noteq> (0 :: addr) else tag_bit (dropped nd k) u k = tagged H2 0 u" using bit by simp
  have sm: "\<forall>a \<in> nodes_of H (Suc n) p. a \<noteq> p \<and> a \<notin> nodes_of H n ?c \<longrightarrow> H2 a = H a" using o(2) by (simp add: H2_def del: nodes_of.simps)
  have r: "child_replaced H H2 n p nd (dropped nd k) k 0"
    unfolding child_replaced_def by (intro conjI)
      (use t tg sm k dropped_ok(1) [OF parts(1) k] c(1) in \<open>(assumption | simp add: H2_def k_def)+\<close>)
  have hp: "H2 p = Some (dropped nd k)" by (simp add: H2_def)
  have "nodes_of H2 (Suc n) p = nodes_of H (Suc n) p - set F2" using e(3) unfolding replaced_nodes [OF r] by simp
  moreover have "item_at H2 (Suc n) p j = (if same_path (Suc n) index j then 0 else item_at H (Suc n) p j)" for j
    using e(1) [of j] t(2,3) unfolding replaced_item [OF r] same_path_Suc by (auto simp: k_def)
  moreover have "tagged H2 p u = tagged H p u" for u using hp t(3) by (simp add: tagged_def)
  moreover have "tag_at H2 (Suc n) p j u = tag_at H (Suc n) p j u" if "u < 2" for j u
  proof (cases "slot_offset j (Suc n) = k")
    case True
    have "\<not> tag_at H n ?c j u" if "0 < n" using tag_at_tagged [OF parts(3) [OF k] _ \<open>u < 2\<close>] e(2) [OF that \<open>u < 2\<close>] by blast
    then show ?thesis using True bit [OF that] t(2,3) unfolding replaced_tag_at [OF r that] by auto
  qed (simp add: replaced_tag_at [OF r that] del: tag_at.simps)
  ultimately show "pruned H H2 (Suc n) p index F2" using replaced_tree [OF r] e(3) sub(1) unfolding pruned_def by blast
  have "dom H2 = dom H" using o(1) t(3) by (auto simp: H2_def)
  moreover have "H2 a = H a" if "a \<notin> nodes_of H (Suc n) p" for a
    using o(2) [of a] that sub by (cases "a = p") (auto simp: H2_def simp del: nodes_of.simps)
  ultimately show "outside H H2 (Suc n) p" unfolding outside_def by blast
  assume z: "rtn_count (dropped nd k) = 0"
  have zs: "rtn_slots nd ! i = 0" if "i < 64" "i \<noteq> k" for i by (rule dropped_ok(2) [OF parts(1) k _ z that]) (use c(1) k_def in simp)
  have "item_at H (Suc n) p j = 0" if "\<not> same_path (Suc n) index j" for j
    using that e(1) [of j] zs [OF slot_offset_less, of j "Suc n"] t(2,3) unfolding same_path_Suc k_def by (cases "slot_offset j (Suc n) = k") (auto simp: k_def)
  moreover have "\<not> tagged H p u" if "u < 2" for u
  proof -
    have "\<not> tag_bit nd u i" if "i < 64" for i
      using bit [OF \<open>u < 2\<close>] zs [OF that] parts(2) that \<open>u < 2\<close> unfolding tags_ok_def by (cases "i = k"; cases "n = 0") auto
    then show ?thesis using t(3) by (simp add: tagged_def)
  qed
  moreover have "nodes_of H (Suc n) p = insert p (nodes_of H n ?c)"
  proof -
    have "nodes_of H n (rtn_slots nd ! i) \<subseteq> nodes_of H n ?c" if "i < 64" for i using zs [OF that] by (cases "i = k") auto
    then show ?thesis using k unfolding parts(6) by blast
  qed
  ultimately show "emptied H (Suc n) p index F2" using e(3) unfolding emptied_def by auto
qed

abbreviation (input) queued :: "('k, 'z) rtstate \<Rightarrow> rt_heap \<Rightarrow> addr list \<Rightarrow> ('k, 'z) rtstate" where
  "queued s H F \<equiv> s\<lparr>rt_nodes := H, rcu_queue := rcu_queue s @ F\<rparr>"

text \<open>One step up: the pending node is freed after its parent has been written.\<close>

lemma delete_up_node:
  assumes "G p = Some nd" "node_ok n nd" "k < 64" and c: "c \<noteq> 0"
  shows "delete_up (if m = 0 then 0 else c) ((p, k) # path) root (queued s G F) =
    (let s' = queued s (G(p \<mapsto> dropped nd k)) (F @ last_node m c) in
     if rtn_count (dropped nd k) \<noteq> 0
     then (if p = rt_rnode root then radix_tree_shrink (rt_height root) root s' else Some (root, s'))
     else delete_up p path root s')"
proof -
  have "node_update p (slot_drop k) (queued s G F) = Some (queued s (G(p \<mapsto> dropped nd k)) F)"
    using assms(1) slot_drop_ok [OF assms(2,3)] by (simp add: node_update_def)
  moreover have "free_pending (if m = 0 then 0 else c) (queued s H F) = queued s H (F @ last_node m c)" for H
    using c by (simp add: free_pending_def radix_tree_node_free_def)
  ultimately show ?thesis unfolding delete_up.simps Let_def by simp
qed

definition delete_done :: "rt_heap \<Rightarrow> rt_heap \<Rightarrow> nat \<Rightarrow> addr \<Rightarrow> u32 \<Rightarrow> addr list \<Rightarrow> bool \<Rightarrow> bool" where
  "delete_done H H' n p index F stop \<longleftrightarrow> outside H H' n p \<and> (if stop then 0 < n \<and> pruned H H' n p index F else emptied H n p index F)"

lemma leaf_untagged:
  assumes "p \<noteq> 0" "H p = Some nd" "\<And>u. u < 2 \<Longrightarrow> \<not> tag_at H (Suc n) p index u" "u < 2"
  shows "n = 0 \<Longrightarrow> \<not> tag_bit nd u (slot_offset index (Suc n))" "\<not> tag_at H n (rtn_slots nd ! slot_offset index (Suc n)) index u"
  using assms(3) [OF assms(4)] assms(1,2) by (cases "n = 0"; auto)+

lemma delete_up_ok:
  assumes "tree_ok (rt_nodes s) n p" "item_at (rt_nodes s) n p index \<noteq> 0" "rt_rnode root \<notin> nodes_of (rt_nodes s) n p"
    and "\<And>u. u < 2 \<Longrightarrow> \<not> tag_at (rt_nodes s) n p index u"
  shows "\<exists>H' F stop. delete_up 0 (rev (path_of (rt_nodes s) n p index) @ rest) root s =
      (if stop then Some (root, queued s H' F) else delete_up (if n = 0 then 0 else p) rest root (queued s H' F)) \<and>
    delete_done (rt_nodes s) H' n p index F stop"
  using assms
proof (induction n arbitrary: p rest)
  case 0
  then show ?case
    by (intro exI [of _ "rt_nodes s"] exI [of _ "[]"] exI [of _ False]) (simp add: delete_done_def outside_def emptied_def same_path_def)
next
  case (Suc n)
  let ?H = "rt_nodes s" and ?k = "slot_offset index (Suc n)"
  have p: "p \<noteq> 0" using Suc.prems(2) by auto
  obtain nd where nd: "?H p = Some nd" using tree_some [OF Suc.prems(1) p] by blast
  note t = Suc.prems(1) p nd
  note parts = tree_parts [OF t] and leaf = leaf_untagged [OF p nd Suc.prems(4)]
  let ?c = "rtn_slots nd ! ?k"
  have item: "item_at ?H (Suc n) p index = item_at ?H n ?c index" "?c \<noteq> 0" using p nd Suc.prems(2) by auto
  have r: "rt_rnode root \<notin> nodes_of ?H n ?c" "rt_rnode root \<noteq> p" using Suc.prems(3) slot_offset_less unfolding parts(6) by blast+
  have path: "rev (path_of ?H (Suc n) p index) @ rest = rev (path_of ?H n ?c index) @ (p, ?k) # rest" using nd p by simp
  have ci: "item_at ?H n ?c index \<noteq> 0" using Suc.prems(2) unfolding item(1) .
  obtain H1 F sc where
    run: "delete_up 0 (rev (path_of ?H n ?c index) @ (p, ?k) # rest) root s =
      (if sc then Some (root, queued s H1 F) else delete_up (if n = 0 then 0 else ?c) ((p, ?k) # rest) root (queued s H1 F))" and
    d: "delete_done ?H H1 n ?c index F sc"
    using Suc.IH [OF parts(3) [OF slot_offset_less] ci r(1) leaf(2), where rest = "(p, ?k) # rest"] by blast
  have h1: "H1 p = Some nd" using d parts(4) [OF slot_offset_less] nd unfolding delete_done_def outside_def by simp
  show ?case
  proof (cases sc)
    case True
    then have "delete_done ?H H1 (Suc n) p index F True" using d prune_up [OF t, of H1 index F] unfolding delete_done_def by auto
    then show ?thesis unfolding path run using True
      by (intro exI [of _ H1] exI [of _ F] exI [of _ True]) (simp only: if_True simp_thms)
  next
    case False
    define H2 F2 stop where "H2 = H1(p \<mapsto> dropped nd ?k)" and "F2 = F @ last_node n ?c" and "stop = (rtn_count (dropped nd ?k) \<noteq> 0)"
    have e: "emptied ?H n ?c index F" "outside ?H H1 n ?c" using d False unfolding delete_done_def by simp_all
    have "delete_done ?H H2 (Suc n) p index F2 stop"
      using drop_up [OF t item(2) e leaf(1)] unfolding delete_done_def H2_def F2_def stop_def by simp
    moreover have "delete_up (if n = 0 then 0 else ?c) ((p, ?k) # rest) root (queued s H1 F) =
        (if stop then Some (root, queued s H2 F2) else delete_up p rest root (queued s H2 F2))"
      unfolding delete_up_node [where G = H1, OF h1 parts(1) slot_offset_less item(2)] Let_def H2_def F2_def stop_def using r(2) by simp
    ultimately show ?thesis unfolding path run using False
      by (intro exI [of _ H2] exI [of _ F2] exI [of _ stop]) (simp only: if_False nat.distinct simp_thms)
  qed
qed

section \<open>Shrinking\<close>

lemma queued_env:
  assumes "rt_env K J s" "owned s A" "dom H' = dom (rt_nodes s)" "\<And>a. a \<notin> A \<Longrightarrow> H' a = rt_nodes s a" "set F \<subseteq> A"
  shows "rt_env K J (queued s H' F)" "owned (queued s H' F) (A - set F)"
proof -
  have "H' a = rt_nodes s a" if "a \<in> set (rt_preload s)" for a using assms(2,4) that by (auto simp: owned_def)
  then have "pool_ok (queued s H' F)" using assms(1,2,3,5) by (auto simp: rt_env_def pool_ok_def owned_def)
  then show "rt_env K J (queued s H' F)" using assms(1,3) by (simp add: rt_env_def)
  show "owned (queued s H' F) (A - set F)" using assms(2,3) by (auto simp: owned_def)
qed

lemma clear_node_ok: "node_ok n nd \<Longrightarrow> \<exists>nd'. clear_node nd = Some nd'"
proof -
  assume n: "node_ok n nd"
  obtain a where a: "tag_clear 0 0 nd = Some a" "node_ok n a" by (rule tag_clear_ok [OF n, of 0 0]) auto
  obtain b where b: "tag_clear 1 0 a = Some b" "node_ok n b" by (rule tag_clear_ok [OF a(2), of 1 0]) auto
  then have "0 < length (rtn_slots b)" by (simp add: node_ok_def)
  then show ?thesis using a(1) b(1) by (simp add: clear_node_def slot_set_def)
qed

text \<open>A node with one child, in the first slot, says nothing that the child does not say.\<close>

lemma only_first:
  assumes t: "tree_ok H (Suc n) p" "p \<noteq> 0" "H p = Some nd" and one: "rtn_count nd = 1" "rtn_slots nd ! 0 \<noteq> 0"
  shows "i < 64 \<Longrightarrow> i \<noteq> 0 \<Longrightarrow> rtn_slots nd ! i = 0"
    "item_at H (Suc n) p j = (if slot_offset j (Suc n) = 0 then item_at H n (rtn_slots nd ! 0) j else 0)"
    "u < 2 \<Longrightarrow> tagged H p u = tag_bit nd u 0"
    "u < 2 \<Longrightarrow> tag_at H (Suc n) p j u = (slot_offset j (Suc n) = 0 \<and> (if n = 0 then tag_bit nd u 0 else tag_at H n (rtn_slots nd ! 0) j u))"
proof -
  note parts = tree_parts [OF t]
  have b: "card (used_slots (rtn_slots nd)) < 2 ^ 32" using used_slots_bound [of "rtn_slots nd"] by simp
  then have "unat (of_nat (card (used_slots (rtn_slots nd))) :: u32) = card (used_slots (rtn_slots nd))" by (simp add: unat_of_nat)
  then have "card (used_slots (rtn_slots nd)) = 1" using parts(1) one(1) by (simp add: node_ok_def)
  moreover have "0 \<in> used_slots (rtn_slots nd)" using one(2) by (simp add: used_slots_def)
  ultimately have u: "used_slots (rtn_slots nd) = {0}" by (metis card_1_singletonE singletonD)
  have z: "rtn_slots nd ! i = 0" if "i < 64" "i \<noteq> 0" for i
  proof -
    have "i \<notin> used_slots (rtn_slots nd)" unfolding u using that(2) by simp
    then show ?thesis using that(1) by (simp add: used_slots_def)
  qed
  then show "i < 64 \<Longrightarrow> i \<noteq> 0 \<Longrightarrow> rtn_slots nd ! i = 0" by blast
  show "item_at H (Suc n) p j = (if slot_offset j (Suc n) = 0 then item_at H n (rtn_slots nd ! 0) j else 0)"
    using t(2,3) z [OF slot_offset_less] by simp
  have tb: "\<not> tag_bit nd u i" if "u < 2" "i < 64" "i \<noteq> 0" for u i
    using parts(2) z [OF that(2,3)] that(1,2) unfolding tags_ok_def by (cases "n = 0") auto
  show "tagged H p u = tag_bit nd u 0" if "u < 2"
  proof -
    have "(\<exists>i < 64. tag_bit nd u i) = tag_bit nd u 0" using tb [OF that] by (metis zero_less_numeral)
    then show ?thesis using t(2,3) by (simp add: tagged_def)
  qed
  show "tag_at H (Suc n) p j u = (slot_offset j (Suc n) = 0 \<and> (if n = 0 then tag_bit nd u 0 else tag_at H n (rtn_slots nd ! 0) j u))" if "u < 2"
    using t(2,3) tb [OF that slot_offset_less, of j "Suc n"] z [OF slot_offset_less, of j "Suc n"] by (cases "n = 0"; cases "slot_offset j (Suc n) = 0") auto
qed

definition same_tree :: "addr set \<Rightarrow> rt_root \<Rightarrow> ('k, 'z) rtstate \<Rightarrow> rt_root \<Rightarrow> ('k, 'z) rtstate \<Rightarrow> bool" where
  "same_tree B root s root' s' \<longleftrightarrow> kept B s s' \<and> contents_in root' s' = contents_in root s \<and>
     (\<forall>j. \<forall>u < 2. tags_in root' s' j u = tags_in root s j u)"

lemma same_tree_trans: "same_tree B r s r1 s1 \<Longrightarrow> same_tree B r1 s1 r2 s2 \<Longrightarrow> same_tree B r s r2 s2"
  unfolding same_tree_def using kept_trans by (metis (no_types, lifting))

abbreviation (input) lowered :: "rt_root \<Rightarrow> nat \<Rightarrow> addr \<Rightarrow> rt_root" where
  "lowered root n c \<equiv> root\<lparr>rt_rnode := (if n = 0 then radix_tree_ptr_to_direct c else c), rt_height := n\<rparr>"

lemma lowered_root:
  assumes "tree_ok H n c" "c \<noteq> 0"
  shows "rt_ptr (lowered root n c) = c" "rt_rnode (lowered root n c) \<noteq> 0"
    "radix_tree_is_direct_ptr (rt_rnode (lowered root n c)) \<longleftrightarrow> n = 0" "rt_height (lowered root n c) = n"
    "root_tag_get u (lowered root n c) = root_tag_get u root"
proof -
  have e: "\<not> radix_tree_is_direct_ptr c" using tree_not_direct [OF assms(1)] .
  have "radix_tree_ptr_to_direct c \<noteq> 0" using is_direct_direct [of c] by (metis is_direct_zero)
  then show "rt_ptr (lowered root n c) = c" "rt_rnode (lowered root n c) \<noteq> 0"
    "radix_tree_is_direct_ptr (rt_rnode (lowered root n c)) \<longleftrightarrow> n = 0" "rt_height (lowered root n c) = n"
    "root_tag_get u (lowered root n c) = root_tag_get u root"
    using e assms(2) is_direct_direct by (simp_all add: rt_ptr_def direct_round direct_to_ptr_even root_tag_get_def)
qed

lemma shrink_inv:
  fixes nd' :: rt_node and s :: "('k, 'z) rtstate"
  assumes i: "rt_inv K J B root s" and h: "rt_height root = Suc n" "rt_rnode root \<noteq> 0"
    and nd: "rt_nodes s (rt_rnode root) = Some nd" "rtn_count nd = 1" "rtn_slots nd ! 0 \<noteq> 0"
  defines "s' \<equiv> queued s ((rt_nodes s)(rt_rnode root \<mapsto> nd')) [rt_rnode root]"
  shows "rt_inv K J B (lowered root n (rtn_slots nd ! 0)) s'"
    "same_tree B root s (lowered root n (rtn_slots nd ! 0)) s'"
proof -
  let ?p = "rt_rnode root" and ?c = "rtn_slots nd ! 0" and ?r = "lowered root n (rtn_slots nd ! 0)" and ?H = "rt_nodes s"
  have ok: "root_ok ?H root" "rt_env K J s" "owned s (tree_set root s \<union> B)" "tree_set root s \<inter> B = {}" using i by (auto simp: rt_inv_def)
  note rk = root_okD [OF ok(1)]
  have p: "rt_ptr root = ?p" using rk(6) h(1) by simp
  have t: "tree_ok ?H (Suc n) ?p" using rk(2) unfolding p h(1) .
  note parts = tree_parts [OF t h(2) nd(1)] and one = only_first [OF t h(2) nd]
  have c: "tree_ok ?H n ?c" "?p \<notin> nodes_of ?H n ?c" "?c \<noteq> 0" using parts(3,4) [of 0] nd(3) by simp_all
  have H': "rt_nodes s' = ?H(?p \<mapsto> nd')" by (simp add: s'_def)
  note w = tree_write [OF c(1,2), of "Some nd'"] and lr = lowered_root [OF c(1,3), where root = root]
  have T: "tree_set root s = nodes_of ?H (Suc n) ?p" unfolding tree_set_def p h(1) ..
  have T': "tree_set ?r s' = nodes_of ?H n ?c" unfolding tree_set_def lr H' w(1) ..
  have sub: "nodes_of ?H n ?c \<subseteq> tree_set root s" "?p \<in> tree_set root s" unfolding T parts(6) by auto
  have env: "rt_env K J s'" "owned s' (tree_set root s \<union> B - set [?p])"
    unfolding s'_def by (rule queued_env [OF ok(2,3)]; use sub(2) nd(1) in auto)+
  have tg: "root_tag_get u root = tagged ?H ?p u" if "u < 2" for u using rk(3) that h(1) unfolding root_tags_ok_def by simp
  have bit: "n \<noteq> 0 \<Longrightarrow> tag_bit nd u 0 = tagged ?H ?c u" if "u < 2" for u using parts(2) that unfolding tags_ok_def by simp
  have "root_tags_ok (rt_nodes s') ?r" unfolding root_tags_ok_def lr(4,5) H'
    using tg one(3) bit w(4) lr(2) by (cases "n = 0") simp_all
  moreover have "tree_ok (rt_nodes s') n ?c" unfolding H' by (rule w(3))
  ultimately have "root_ok (rt_nodes s') ?r" unfolding root_ok_def lr(1,3,4) using rk(1) h(1) c(3) lr(2) by simp
  moreover have "tree_set ?r s' \<union> B \<subseteq> tree_set root s \<union> B - set [?p]" unfolding T' list.set using sub c(2) ok(4) by blast
  then have "owned s' (tree_set ?r s' \<union> B)" by (rule owned_subset [OF env(2)])
  moreover have "tree_set ?r s' \<inter> B = {}" unfolding T' using sub(1) ok(4) by blast
  ultimately show "rt_inv K J B ?r s'" using env(1) unfolding rt_inv_def by blast
  have "kept B s s'" using ok(4) sub(2) unfolding kept_def H' by auto
  moreover have off: "slot_offset j (Suc n) = 0 \<longleftrightarrow> j \<le> maxindex n" if "j \<le> maxindex (Suc n)" for j
    using offset_above [of j n n] offset_new_level [OF _ that] by (cases "j \<le> maxindex n") auto
  have mono: "j \<le> maxindex n \<Longrightarrow> j \<le> maxindex (Suc n)" for j using maxindex_mono [of n "Suc n"] by simp
  have "contents_in ?r s' j = contents_in root s j" for j
    using one(2) [of j] off [of j] mono [of j] unfolding contents_def lr(1,4) H' w(2) p h(1)
    by (cases "maxindex n < j"; cases "maxindex (Suc n) < j") (simp_all add: not_less [symmetric] del: item_at.simps)
  moreover have "tags_in ?r s' j u = tags_in root s j u" if "u < 2" for j u
    using one(3,4) [OF that] off [of j] mono [of j] tg [OF that] unfolding tags_in_def lr(1,4,5) H' w(5) p h(1)
    by (cases "j \<le> maxindex n"; cases "n = 0") (auto simp del: tag_at.simps)
  ultimately show "same_tree B root s ?r s'" unfolding same_tree_def by blast
qed

lemma shrink_ok:
  assumes "rt_inv K J B root s" "rt_rnode root \<noteq> 0"
  shows "\<exists>root' s'. radix_tree_shrink (rt_height root) root s = Some (root', s') \<and> rt_inv K J B root' s' \<and> same_tree B root s root' s'"
  using assms
proof (induction "rt_height root" arbitrary: root s)
  case 0
  then show ?case by (intro exI [of _ root] exI [of _ s]) (simp add: same_tree_def kept_def flip: 0(1))
next
  case (Suc n)
  let ?p = "rt_rnode root"
  have h: "rt_height root = Suc n" using Suc(2) by simp
  have ok: "root_ok (rt_nodes s) root" using Suc.prems(1) by (simp add: rt_inv_def)
  have "rt_ptr root = ?p" using root_okD(6) [OF ok] h by simp
  then have t: "tree_ok (rt_nodes s) (Suc n) ?p" using root_okD(2) [OF ok] h by (simp del: tree_ok.simps)
  obtain nd where nd: "rt_nodes s ?p = Some nd" using tree_some [OF t Suc.prems(2)] by blast
  note parts = tree_parts [OF t Suc.prems(2) nd]
  note get = slot_get_ok [OF parts(1), of 0]
  show ?case
  proof (cases "rtn_count nd = 1 \<and> rtn_slots nd ! 0 \<noteq> 0")
    case True
    then have one: "rtn_count nd = 1" "rtn_slots nd ! 0 \<noteq> 0" by simp_all
    obtain nd' where c: "clear_node nd = Some nd'" using clear_node_ok [OF parts(1)] by blast
    let ?r = "lowered root n (rtn_slots nd ! 0)" and ?s = "queued s ((rt_nodes s)(?p \<mapsto> nd')) [?p]"
    note v = shrink_inv [OF Suc.prems(1) h Suc.prems(2) nd one, of nd']
    have nz: "rt_rnode ?r \<noteq> 0" "n = rt_height ?r" using lowered_root(2,4) [OF parts(3) [of 0] one(2), where root = root] by simp_all
    have run: "radix_tree_shrink (Suc n) root s = radix_tree_shrink n ?r ?s"
      using nd get one c by (simp add: node_update_def radix_tree_node_free_def)
    obtain root' s' where "radix_tree_shrink (rt_height ?r) ?r ?s = Some (root', s')" "rt_inv K J B root' s'" "same_tree B ?r ?s root' s'"
      using Suc.hyps(1) [OF nz(2) v(1) nz(1)] by blast
    then show ?thesis using same_tree_trans [OF v(2)] unfolding h run nz(2) [symmetric] by blast
  next
    case False
    then show ?thesis using nd get Suc.prems(1) h by (intro exI [of _ root] exI [of _ s]) (auto simp: same_tree_def kept_def)
  qed
qed

section \<open>Deleting an item\<close>

definition removed :: "('k, 'z) rtkit \<Rightarrow> (addr set \<Rightarrow> 'k \<Rightarrow> bool) \<Rightarrow> addr set \<Rightarrow> rt_root \<Rightarrow> u32 \<Rightarrow> ('k, 'z) rtstate \<Rightarrow> rt_root \<Rightarrow> ('k, 'z) rtstate \<Rightarrow> bool" where
  "removed K J B root index s root' s' \<longleftrightarrow> rt_inv K J B root' s' \<and> kept B s s' \<and> contents_in root' s' = (contents_in root s)(index := 0) \<and>
     (\<forall>j. \<forall>u < 2. tags_in root' s' j u = (j \<noteq> index \<and> tags_in root s j u))"

lemma removed_same: "removed K J B r index s r1 s1 \<Longrightarrow> rt_inv K J B r2 s2 \<Longrightarrow> same_tree B r1 s1 r2 s2 \<Longrightarrow> removed K J B r index s r2 s2"
  unfolding removed_def same_tree_def using kept_trans by (metis (no_types, lifting))

lemma pruned_inv:
  assumes i: "rt_inv K J B root s" and h: "rt_height root = Suc n" and ix: "index \<le> maxindex (Suc n)"
    and d: "pruned (rt_nodes s) H' (Suc n) (rt_rnode root) index F" "outside (rt_nodes s) H' (Suc n) (rt_rnode root)"
    and untagged: "\<And>u. u < 2 \<Longrightarrow> \<not> tag_at (rt_nodes s) (Suc n) (rt_rnode root) index u"
  shows "removed K J B root index s root (queued s H' F)"
proof -
  let ?p = "rt_rnode root" and ?H = "rt_nodes s" and ?s = "queued s H' F"
  have ok: "root_ok ?H root" "rt_env K J s" "owned s (tree_set root s \<union> B)" "tree_set root s \<inter> B = {}" using i by (auto simp: rt_inv_def)
  note rk = root_okD [OF ok(1)] and e = prunedD [OF d(1)]
  have p: "rt_ptr root = ?p" using rk(6) h by simp
  have o: "dom H' = dom ?H" "\<And>a. a \<notin> nodes_of ?H (Suc n) ?p \<Longrightarrow> H' a = ?H a" using d(2) unfolding outside_def by blast+
  have T: "tree_set root s = nodes_of ?H (Suc n) ?p" "tree_set root ?s = nodes_of ?H (Suc n) ?p - set F"
    unfolding tree_set_def p h using e(2) by (simp_all del: nodes_of.simps)
  have env: "rt_env K J ?s" "owned ?s (tree_set root s \<union> B - set F)"
    by (rule queued_env [OF ok(2,3) o(1)]; use o(2) e(3) T(1) in blast)+
  have "tree_set root ?s \<union> B \<subseteq> tree_set root s \<union> B - set F" using T e(3) ok(4) by blast
  then have "owned ?s (tree_set root ?s \<union> B)" by (rule owned_subset [OF env(2)])
  moreover have "root_tags_ok H' root" using rk(3) e(5) h unfolding root_tags_ok_def by simp
  then have "root_ok H' root" using ok(1) e(1) unfolding root_ok_def p h by (simp del: tree_ok.simps)
  moreover have "tree_set root ?s \<inter> B = {}" using T ok(4) by blast
  ultimately have "rt_inv K J B root ?s" using env(1) unfolding rt_inv_def by simp
  moreover have "kept B s ?s" using o(2) T(1) ok(4) unfolding kept_def by auto
  moreover have "contents_in root ?s j = ((contents_in root s)(index := 0)) j" for j
    using e(4) [of j] same_path_eq [OF ix, of j] ix by (cases "maxindex (Suc n) < j") (auto simp: contents_def p h not_less simp del: item_at.simps)
  moreover have "tags_in root ?s j u = (j \<noteq> index \<and> tags_in root s j u)" if "u < 2" for j u
    using e(6) [OF that, of j] untagged [OF that] unfolding tags_in_def p h by (auto simp del: tag_at.simps)
  ultimately show ?thesis unfolding removed_def by blast
qed

text \<open>A tree that has lost its last item.\<close>

definition bare :: "rt_root \<Rightarrow> rt_root" where
  "bare root = (root_tag_clear_all root)\<lparr>rt_height := 0, rt_rnode := 0\<rparr>"

lemma bare_root: "rt_ptr (bare root) = 0" "rt_height (bare root) = 0" "rt_rnode (bare root) = 0" "u < 2 \<Longrightarrow> \<not> root_tag_get u (bare root)"
  by (simp_all add: bare_def rt_ptr_def radix_tree_direct_to_ptr_def) (use root_tags(3) [of u root] in \<open>simp add: root_tag_get_def\<close>)

lemma bare_ok: "root_ok H (bare root)"
  by (simp add: root_ok_def root_tags_ok_def bare_root)

lemma bare_removed:
  assumes i: "rt_inv K J B root s" and F: "set F = tree_set root s" and o: "dom H' = dom (rt_nodes s)"
      "\<And>a. a \<notin> tree_set root s \<Longrightarrow> H' a = rt_nodes s a"
    and empty: "\<And>j. j \<noteq> index \<Longrightarrow> contents_in root s j = 0" "\<And>j u. j \<noteq> index \<Longrightarrow> u < 2 \<Longrightarrow> \<not> tags_in root s j u"
  shows "removed K J B root index s (bare root) (queued s H' F)"
proof -
  let ?s = "queued s H' F"
  have ok: "rt_env K J s" "owned s (tree_set root s \<union> B)" "tree_set root s \<inter> B = {}" using i by (auto simp: rt_inv_def)
  have env: "rt_env K J ?s" "owned ?s (tree_set root s \<union> B - set F)"
    by (rule queued_env [OF ok(1,2) o(1)]; use o(2) F in blast)+
  have "B \<subseteq> tree_set root s \<union> B - set F" using F ok(3) by blast
  then have "owned ?s B" by (rule owned_subset [OF env(2)])
  moreover have "tree_set (bare root) ?s = {}" by (simp add: tree_set_def bare_root)
  ultimately have "rt_inv K J B (bare root) ?s" using env(1) bare_ok unfolding rt_inv_def by simp
  moreover have "kept B s ?s" using o(2) ok(3) unfolding kept_def by auto
  moreover have "contents_in (bare root) ?s = (contents_in root s)(index := 0)" using empty(1) by (auto simp: contents_def bare_root)
  moreover have "tags_in (bare root) ?s j u = (j \<noteq> index \<and> tags_in root s j u)" if "u < 2" for j u
    using empty(2) that by (auto simp: tags_in_def [of "bare root"] bare_root)
  ultimately show ?thesis unfolding removed_def by blast
qed

lemma emptied_removed:
  assumes i: "rt_inv K J B root s" and h: "rt_height root = Suc n" and ix: "index \<le> maxindex (Suc n)"
    and e: "emptied (rt_nodes s) (Suc n) (rt_rnode root) index F" "outside (rt_nodes s) H' (Suc n) (rt_rnode root)"
  shows "removed K J B root index s (bare root) (queued s H' (F @ [rt_rnode root]))"
proof -
  let ?p = "rt_rnode root" and ?H = "rt_nodes s"
  have ok: "root_ok ?H root" using i by (simp add: rt_inv_def)
  have p: "rt_ptr root = ?p" using root_okD(6) [OF ok] h by simp
  have t: "tree_ok ?H (Suc n) ?p" using root_okD(2) [OF ok] unfolding p h .
  have T: "tree_set root s = nodes_of ?H (Suc n) ?p" unfolding tree_set_def p h ..
  have em: "\<And>j. \<not> same_path (Suc n) index j \<Longrightarrow> item_at ?H (Suc n) ?p j = 0" "\<And>u. u < 2 \<Longrightarrow> \<not> tagged ?H ?p u"
    "set (F @ [?p]) = nodes_of ?H (Suc n) ?p"
    using e(1) unfolding emptied_def by (blast, blast, simp del: nodes_of.simps)
  show ?thesis
  proof (rule bare_removed [OF i])
    show "set (F @ [?p]) = tree_set root s" unfolding T by (rule em(3))
    show "dom H' = dom ?H" "\<And>a. a \<notin> tree_set root s \<Longrightarrow> H' a = ?H a" using e(2) unfolding T outside_def by blast+
    show "contents_in root s j = 0" if "j \<noteq> index" for j
      using em(1) [of j] same_path_eq [OF ix, of j] that unfolding contents_def p h by (auto simp: not_less simp del: item_at.simps)
    show "\<not> tags_in root s j u" if "u < 2" for j u
      using tag_at_tagged [OF t _ that, of j] em(2) [OF that] unfolding tags_in_def p h by (simp del: tag_at.simps) blast
  qed
qed

text \<open>Unlinking from the leaf up to the root, when the item has no tags.\<close>

lemma delete_root:
  assumes i: "rt_inv K J B root s" and h: "rt_height root = Suc n" and c: "contents_in root s index \<noteq> 0"
    and untagged: "\<And>u. u < 2 \<Longrightarrow> \<not> tag_at (rt_nodes s) (Suc n) (rt_rnode root) index u"
  shows "\<exists>root' s'. delete_up 0 (rev (path_of (rt_nodes s) (Suc n) (rt_rnode root) index)) root s = Some (root', s') \<and>
    removed K J B root index s root' s'"
proof -
  let ?p = "rt_rnode root" and ?H = "rt_nodes s" and ?k = "slot_offset index (Suc n)"
  have ok: "root_ok ?H root" using i by (simp add: rt_inv_def)
  note tr = present_item [OF ok h c]
  have ix: "index \<le> maxindex (Suc n)" using c h by (auto simp: contents_def not_less split: if_splits)
  have p: "?p \<noteq> 0" "rt_ptr root = ?p" using tr(2) root_okD(6) [OF ok] h by auto
  obtain nd where nd: "?H ?p = Some nd" using tree_some [OF tr(1) p(1)] by blast
  note t = tr(1) p(1) nd
  note parts = tree_parts [OF t] and leaf = leaf_untagged [OF p(1) nd untagged]
  let ?c = "rtn_slots nd ! ?k"
  have ci: "item_at ?H n ?c index \<noteq> 0" "?c \<noteq> 0" using p nd tr(2) by auto
  have path: "rev (path_of ?H (Suc n) ?p index) = rev (path_of ?H n ?c index) @ [(?p, ?k)]" using nd p(1) by simp
  obtain H1 F sc where
    run: "delete_up 0 (rev (path_of ?H n ?c index) @ [(?p, ?k)]) root s =
      (if sc then Some (root, queued s H1 F) else delete_up (if n = 0 then 0 else ?c) [(?p, ?k)] root (queued s H1 F))" and
    d: "delete_done ?H H1 n ?c index F sc"
    using delete_up_ok [OF parts(3) [OF slot_offset_less] ci(1) parts(4) [OF slot_offset_less] leaf(2), where rest = "[(?p, ?k)]"] by blast
  have h1: "H1 ?p = Some nd" using d parts(4) [OF slot_offset_less] nd unfolding delete_done_def outside_def by simp
  show ?thesis
  proof (cases sc)
    case True
    then have "pruned ?H H1 (Suc n) ?p index F" "outside ?H H1 (Suc n) ?p" using d prune_up [OF t, of H1 index F] unfolding delete_done_def by auto
    then have "removed K J B root index s root (queued s H1 F)" using pruned_inv [OF i h ix _ _ untagged] by blast
    then show ?thesis unfolding path run using True by auto
  next
    case False
    define H2 F2 where "H2 = H1(?p \<mapsto> dropped nd ?k)" and "F2 = F @ last_node n ?c"
    have e: "emptied ?H n ?c index F" "outside ?H H1 n ?c" using d False unfolding delete_done_def by simp_all
    have u: "pruned ?H H2 (Suc n) ?p index F2" "outside ?H H2 (Suc n) ?p" "rtn_count (dropped nd ?k) = 0 \<Longrightarrow> emptied ?H (Suc n) ?p index F2"
      using drop_up [OF t ci(2) e leaf(1), folded H2_def F2_def] by blast+
    have r: "removed K J B root index s root (queued s H2 F2)" by (rule pruned_inv [OF i h ix u(1,2) untagged])
    have "delete_up (if n = 0 then 0 else ?c) [(?p, ?k)] root (queued s H1 F) =
        (if rtn_count (dropped nd ?k) \<noteq> 0 then radix_tree_shrink (rt_height root) root (queued s H2 F2)
         else Some (bare root, queued s H2 (F2 @ [?p])))"
      unfolding delete_up_node [where G = H1, OF h1 parts(1) slot_offset_less ci(2)] Let_def H2_def F2_def
      using p(1) by (simp add: bare_def free_pending_def radix_tree_node_free_def)
    moreover have "\<exists>root' s'. radix_tree_shrink (rt_height root) root (queued s H2 F2) = Some (root', s') \<and> removed K J B root index s root' s'"
      using shrink_ok [OF _ p(1), of K J B "queued s H2 F2"] removed_same [OF r] r unfolding removed_def by blast
    moreover have "removed K J B root index s (bare root) (queued s H2 (F2 @ [?p]))" if "rtn_count (dropped nd ?k) = 0"
      by (rule emptied_removed [OF i h ix u(3) [OF that] u(2)])
    ultimately show ?thesis unfolding path run using False by auto
  qed
qed

text \<open>The leaf of a path has the tags of the index.\<close>

lemma leaf_of:
  assumes "tree_ok H (Suc n) p" "item_at H (Suc n) p index \<noteq> 0"
  shows "\<exists>q nd rest. rev (path_of H (Suc n) p index) = (q, slot_offset index 1) # rest \<and> H q = Some nd \<and> node_ok 1 nd \<and>
    (\<forall>t. tag_at H (Suc n) p index t = tag_bit nd t (slot_offset index 1))"
  using assms
proof (induction n arbitrary: p)
  case 0
  have p: "p \<noteq> 0" using "0.prems"(2) by auto
  obtain nd where nd: "H p = Some nd" using tree_some [OF "0.prems"(1) p] by blast
  show ?case using nd p tree_parts(1) [OF "0.prems"(1) p nd] by simp
next
  case (Suc n)
  have p: "p \<noteq> 0" using Suc.prems(2) by auto
  obtain nd where nd: "H p = Some nd" using tree_some [OF Suc.prems(1) p] by blast
  note parts = tree_parts [OF Suc.prems(1) p nd]
  let ?c = "rtn_slots nd ! slot_offset index (Suc (Suc n))"
  have e: "item_at H (Suc (Suc n)) p index = item_at H (Suc n) ?c index" "\<And>t. tag_at H (Suc (Suc n)) p index t = tag_at H (Suc n) ?c index t"
    "rev (path_of H (Suc (Suc n)) p index) = rev (path_of H (Suc n) ?c index) @ [(p, slot_offset index (Suc (Suc n)))]"
    using p nd by simp_all
  obtain q x rest where "rev (path_of H (Suc n) ?c index) = (q, slot_offset index 1) # rest" "H q = Some x" "node_ok 1 x"
    "\<forall>t. tag_at H (Suc n) ?c index t = tag_bit x t (slot_offset index 1)"
    using Suc.IH [OF parts(3) [OF slot_offset_less]] Suc.prems(2) unfolding e(1) by blast
  then show ?case unfolding e(2,3) by (intro exI [of _ q] exI [of _ x]) simp
qed

lemma clear_item_ok:
  assumes i: "rt_inv K J B root s" and h: "rt_height root = Suc n" and c: "contents_in root s index \<noteq> 0" and t: "t < 2"
    and path: "rev (path_of (rt_nodes s) (Suc n) (rt_rnode root) index) = (q, k) # rest"
  shows "\<exists>root' s'. clear_item_tag t q k index root s = Some (root', s') \<and> retag_result K J B root index t False s root' s' \<and>
    rt_height root' = Suc n \<and> rt_rnode root' = rt_rnode root \<and>
    rev (path_of (rt_nodes s') (Suc n) (rt_rnode root) index) = (q, k) # rest"
proof -
  have ok: "root_ok (rt_nodes s) root" using i by (simp add: rt_inv_def)
  note tr = present_item [OF ok h c]
  have p: "rt_ptr root = rt_rnode root" using root_okD(6) [OF ok] h by simp
  obtain nd where nd: "k = slot_offset index 1" "rt_nodes s q = Some nd" "node_ok 1 nd" "tag_at (rt_nodes s) (Suc n) (rt_rnode root) index t = tag_bit nd t k"
    using leaf_of [OF tr(1,2)] path by auto
  have g: "tag_get t k nd = Some (tag_at (rt_nodes s) (Suc n) (rt_rnode root) index t)"
    using tag_get_ok [OF nd(3) t slot_offset_less] nd(1,4) by (simp del: tag_at.simps)
  show ?thesis
  proof (cases "tag_at (rt_nodes s) (Suc n) (rt_rnode root) index t")
    case True
    obtain root' s' where r: "map_option snd (radix_tree_tag_clear root index t s) = Some (root', s')" "retag_result K J B root index t False s root' s'"
      "rt_height root' = rt_height root" "rt_rnode root' = rt_rnode root" "retagged (rt_nodes s) (rt_nodes s') (Suc n) (rt_rnode root)"
      using tag_clear_result [OF i c t] h by auto
    then show ?thesis using True nd(2) g path h retaggedD(6) [OF r(5)]
      by (intro exI [of _ root'] exI [of _ s']) (simp add: clear_item_tag_def del: tag_at.simps path_of.simps)
  next
    case False
    then have "retag_result K J B root index t False s root s" using i by (auto simp: retag_result_def kept_def tags_in_def p h simp del: tag_at.simps)
    then show ?thesis using False nd(2) g path h by (auto simp: clear_item_tag_def simp del: tag_at.simps path_of.simps)
  qed
qed

text \<open>An index has tags only if it has an item.\<close>

lemma tag_at_item:
  assumes "tree_ok H n p" "tag_at H n p j t" "t < 2"
  shows "item_at H n p j \<noteq> 0"
  using assms(1,2)
proof (induction n arbitrary: p)
  case (Suc n)
  have p: "p \<noteq> 0" using Suc.prems(2) by auto
  obtain nd where nd: "H p = Some nd" using tree_some [OF Suc.prems(1) p] by blast
  note parts = tree_parts [OF Suc.prems(1) p nd]
  show ?case
  proof (cases "n = 0")
    case True
    then have "tag_bit nd t (slot_offset j 1)" using Suc.prems(2) p nd by simp
    then show ?thesis using parts(2) True assms(3) p nd slot_offset_less [of j 1] unfolding tags_ok_def by simp
  next
    case False
    then show ?thesis using Suc.IH [OF parts(3) [OF slot_offset_less]] Suc.prems(2) p nd by simp
  qed
qed simp

lemma tags_in_item:
  assumes "root_ok (rt_nodes s) root" "tags_in root s j u" "u < 2"
  shows "contents_in root s j \<noteq> 0"
proof (cases "rt_height root = 0")
  case True
  then show ?thesis using assms root_okD(3,5) [OF assms(1)] by (auto simp: tags_in_def contents_def root_tags_ok_def)
next
  case False
  then show ?thesis using assms(2) tag_at_item [OF root_okD(2) [OF assms(1)] _ assms(3)] by (auto simp: tags_in_def contents_def)
qed

lemma delete_absent:
  assumes "rt_inv K J B root s" "contents_in root s index = 0"
  shows "removed K J B root index s root s"
  using assms tags_in_item [of s root index] unfolding removed_def rt_inv_def kept_def by (auto simp: fun_upd_idem)

lemma retag_removed:
  assumes "retag_result K J B root index t False s r1 s1" "removed K J B r1 index s1 r2 s2"
  shows "removed K J B root index s r2 s2"
  using assms kept_trans unfolding retag_result_def removed_def by auto

lemma delete_from_node:
  assumes i: "rt_inv K J B root s" and h: "rt_height root = Suc n" and c: "contents_in root s index \<noteq> 0"
  shows "\<exists>root' s'. radix_tree_delete root index s = Some (contents_in root s index, root', s') \<and> removed K J B root index s root' s'"
proof -
  let ?p = "rt_rnode root"
  have ok: "root_ok (rt_nodes s) root" using i by (simp add: rt_inv_def)
  note tr = present_item [OF ok h c]
  have ix: "\<not> maxindex (rt_height root) < index" using c by (auto simp: contents_def)
  obtain q k rest where path: "rev (path_of (rt_nodes s) (Suc n) ?p index) = (q, k) # rest" using leaf_of [OF tr(1,2)] by blast
  obtain r1 s1 where a: "clear_item_tag 0 q k index root s = Some (r1, s1)" "retag_result K J B root index 0 False s r1 s1"
    "rt_height r1 = Suc n" "rt_rnode r1 = ?p" "rev (path_of (rt_nodes s1) (Suc n) ?p index) = (q, k) # rest"
    using clear_item_ok [OF i h c _ path, of 0] by auto
  have i1: "rt_inv K J B r1 s1" "contents_in r1 s1 = contents_in root s" using a(2) by (simp_all add: retag_result_def)
  obtain r2 s2 where b: "clear_item_tag 1 q k index r1 s1 = Some (r2, s2)" "retag_result K J B r1 index 1 False s1 r2 s2"
    "rt_height r2 = Suc n" "rt_rnode r2 = ?p" "rev (path_of (rt_nodes s2) (Suc n) ?p index) = (q, k) # rest"
    using clear_item_ok [OF i1(1) a(3) _ _ a(5) [folded a(4)], of 1] c i1(2) a(4) by auto
  have i2: "rt_inv K J B r2 s2" "contents_in r2 s2 = contents_in r1 s1" using b(2) by (simp_all add: retag_result_def)
  have c2: "contents_in r2 s2 index \<noteq> 0" using i1(2) i2(2) c by simp
  have ok2: "root_ok (rt_nodes s2) r2" using i2(1) by (simp add: rt_inv_def)
  have p2: "rt_ptr r2 = ?p" using root_okD(6) [OF ok2] b(3,4) by simp
  have "\<not> tags_in r2 s2 index u" if "u < 2" for u
    using a(2) b(2) that unfolding retag_result_def by (cases "u = 0") (auto simp: less_Suc_eq numeral_2_eq_2)
  then have "\<not> tag_at (rt_nodes s2) (Suc n) (rt_rnode r2) index u" if "u < 2" for u
    using that ix h unfolding tags_in_def p2 b(3,4) by (auto simp del: tag_at.simps)
  then obtain root' s' where d: "delete_up 0 ((q, k) # rest) r2 s2 = Some (root', s')" "removed K J B r2 index s2 root' s'"
    using delete_root [OF i2(1) b(3) c2] unfolding b(4,5) by blast
  have "removed K J B root index s root' s'" using retag_removed [OF a(2) retag_removed [OF b(2) d(2)]] .
  moreover have "find_path index (Suc n) ?p [] s = Some (contents_in root s index, (q, k) # rest)"
    using find_path_ok [OF tr(1), of index "[]"] tr(2,3) path by auto
  then have "radix_tree_delete root index s = Some (contents_in root s index, root', s')"
    using ix h a(1) b(1) d(1) c by (simp add: radix_tree_delete_def del: find_path.simps delete_up.simps)
  ultimately show ?thesis by blast
qed

lemma radix_tree_delete_result:
  assumes i: "rt_inv K J B root s"
  shows "\<exists>root' s'. radix_tree_delete root index s = Some (contents_in root s index, root', s') \<and> removed K J B root index s root' s'"
proof (cases "contents_in root s index = 0")
  case True
  have ok: "root_ok (rt_nodes s) root" using i by (simp add: rt_inv_def)
  note rk = root_okD [OF ok]
  have "radix_tree_delete root index s = Some (0, root, s)"
  proof (cases "maxindex (rt_height root) < index")
    case False
    then have z: "item_at (rt_nodes s) (rt_height root) (rt_ptr root) index = 0" using True by (simp add: contents_def)
    then have n: "\<not> (rt_height root = 0 \<and> rt_rnode root \<noteq> 0)" using rk(5) by (metis item_at.simps(1))
    then have p: "rt_ptr root = rt_rnode root" using rk(6) by auto
    show ?thesis using False n find_path_ok [OF rk(2), of index "[]"] z unfolding p radix_tree_delete_def by auto
  qed (simp add: radix_tree_delete_def)
  then show ?thesis using delete_absent [OF i True] True by auto
next
  case False
  show ?thesis
  proof (cases "rt_height root")
    case 0
    have ok: "root_ok (rt_nodes s) root" using i by (simp add: rt_inv_def)
    have z: "rt_rnode root \<noteq> 0" "index = 0" "contents_in root s index = rt_ptr root"
      using False 0 by (auto simp: contents_def rt_ptr_def radix_tree_direct_to_ptr_def maxindex_zero word_gt_0 split: if_splits)
    have "removed K J B root index s (bare root) (queued s (rt_nodes s) [])"
      by (rule bare_removed [OF i]) (use z 0 in \<open>auto simp: tree_set_def contents_def tags_in_def maxindex_zero word_neq_0_conv [symmetric]\<close>)
    moreover have "radix_tree_delete root index s = Some (contents_in root s index, bare root, queued s (rt_nodes s) [])"
      using 0 z by (simp add: radix_tree_delete_def maxindex_zero bare_def rt_ptr_def root_tag_clear_all_def)
    ultimately show ?thesis by blast
  qed (use delete_from_node [OF i _ False] in blast)
qed

end
