(* ===== verification/Radix_Map.thy ===== *)
theory Radix_Map
  imports Radix_Delete
begin

text \<open>
  The contract of a radix tree: a map from indices to items, with the error codes of the kernel.  The interface is a
  locale, its clients' lemmas are proved in it, and the radix tree is shown to provide it.  The properties of the
  operations and of the preloaded pool follow.
\<close>

section \<open>Maps from indices to items\<close>

datatype map_op = Insert u32 addr | Delete u32 | Lookup u32

datatype map_result = Code int | Item addr

text \<open>What one operation may return, and what it makes of the map \<open>f\<close>; an absent item is 0.\<close>

fun op_allows :: "map_op \<Rightarrow> (u32 \<Rightarrow> addr) \<Rightarrow> map_result \<Rightarrow> (u32 \<Rightarrow> addr) \<Rightarrow> bool" where
  "op_allows (Insert i x) f r f' \<longleftrightarrow> (if f i \<noteq> 0 then r = Code (- EEXIST) \<and> f' = f
     else r = Code 0 \<and> f' = f(i := x) \<or> r = Code (- ENOMEM) \<and> f' = f)"
| "op_allows (Delete i) f r f' \<longleftrightarrow> r = Item (f i) \<and> f' = f(i := 0)"
| "op_allows (Lookup i) f r f' \<longleftrightarrow> r = Item (f i) \<and> f' = f"

fun ops_allow :: "map_op list \<Rightarrow> (u32 \<Rightarrow> addr) \<Rightarrow> map_result list \<Rightarrow> (u32 \<Rightarrow> addr) \<Rightarrow> bool" where
  "ops_allow [] f rs f' \<longleftrightarrow> rs = [] \<and> f' = f"
| "ops_allow (op # ops) f rs f' \<longleftrightarrow> (\<exists>r rest g. rs = r # rest \<and> op_allows op f r g \<and> ops_allow ops g rest f')"

text \<open>The items that may be stored.\<close>

fun op_valid :: "map_op \<Rightarrow> bool" where
  "op_valid (Insert i x) \<longleftrightarrow> x \<noteq> 0 \<and> \<not> radix_tree_is_direct_ptr x"
| "op_valid op \<longleftrightarrow> True"

fun run_ops :: "(map_op \<Rightarrow> 't \<Rightarrow> (map_result \<times> 't) option) \<Rightarrow> map_op list \<Rightarrow> 't \<Rightarrow> (map_result list \<times> 't) option" where
  "run_ops step [] m = Some ([], m)"
| "run_ops step (op # ops) m = do {
     (r, m) \<leftarrow> step op m;
     (rs, m) \<leftarrow> run_ops step ops m;
     Some (r # rs, m) }"

locale index_map =
  fixes step :: "map_op \<Rightarrow> 't \<Rightarrow> (map_result \<times> 't) option"
    and inv :: "'t \<Rightarrow> bool"
    and view :: "'t \<Rightarrow> u32 \<Rightarrow> addr"
  assumes step_ok: "inv m \<Longrightarrow> op_valid op \<Longrightarrow> \<exists>r m'. step op m = Some (r, m') \<and> inv m' \<and> op_allows op (view m) r (view m')"
begin

lemma run_ok:
  assumes "inv m" "list_all op_valid ops"
  shows "\<exists>rs m'. run_ops step ops m = Some (rs, m') \<and> inv m' \<and> ops_allow ops (view m) rs (view m')"
  using assms
proof (induction ops arbitrary: m)
  case (Cons op ops)
  obtain r m1 where a: "step op m = Some (r, m1)" "inv m1" "op_allows op (view m) r (view m1)"
    using step_ok [OF Cons.prems(1), of op] Cons.prems(2) by auto
  obtain rs m' where b: "run_ops step ops m1 = Some (rs, m')" "inv m'" "ops_allow ops (view m1) rs (view m')"
    using Cons.IH [OF a(2)] Cons.prems(2) by auto
  show ?case using a(1,3) b by (intro exI [of _ "r # rs"] exI [of _ m']) auto
qed simp

text \<open>What was inserted is found, and deleted again.\<close>

lemma insert_lookup_delete:
  assumes "inv m" "op_valid (Insert i x)" "step (Insert i x) m = Some (Code 0, m1)"
  shows "\<exists>m3. run_ops step [Lookup i, Delete i] m1 = Some ([Item x, Item x], m3) \<and> inv m3 \<and> view m3 = view m"
proof -
  have i1: "inv m1" and v1: "op_allows (Insert i x) (view m) (Code 0) (view m1)" using step_ok [OF assms(1,2)] assms(3) by auto
  then have n: "view m i = 0" "view m1 = (view m)(i := x)" by (auto split: if_splits)
  obtain rs m3 where r: "run_ops step [Lookup i, Delete i] m1 = Some (rs, m3)" "inv m3" "ops_allow [Lookup i, Delete i] (view m1) rs (view m3)"
    using run_ok [OF i1, of "[Lookup i, Delete i]"] by auto
  then have "rs = [Item x, Item x]" "view m3 = view m" using n by (auto simp: fun_upd_idem)
  then show ?thesis using r by auto
qed

end

text \<open>The operations of a radix tree, with the tree and the state they work on.\<close>

fun rt_step :: "('k, 'z) rtkit \<Rightarrow> map_op \<Rightarrow> rt_root \<times> ('k, 'z) rtstate \<Rightarrow> (map_result \<times> rt_root \<times> ('k, 'z) rtstate) option" where
  "rt_step K (Insert i x) (root, s) = map_option (\<lambda>(err, m). (Code err, m)) (radix_tree_insert K root i x s)"
| "rt_step K (Delete i) (root, s) = map_option (\<lambda>(x, m). (Item x, m)) (radix_tree_delete root i s)"
| "rt_step K (Lookup i) (root, s) = map_option (\<lambda>x. (Item x, root, s)) (radix_tree_lookup root i s)"

definition tree_inv :: "('k, 'z) rtkit \<Rightarrow> (addr set \<Rightarrow> 'k \<Rightarrow> bool) \<Rightarrow> addr set \<Rightarrow> (addr \<Rightarrow> rt_node option) \<Rightarrow> rt_root \<times> ('k, 'z) rtstate \<Rightarrow> bool" where
  "tree_inv K J B H m \<longleftrightarrow> rt_inv K J B (fst m) (snd m) \<and> (\<forall>b \<in> B. rt_nodes (snd m) b = H b)"

definition tree_view :: "rt_root \<times> ('k, 'z) rtstate \<Rightarrow> u32 \<Rightarrow> addr" where
  "tree_view m = contents_in (fst m) (snd m)"

interpretation rtm: index_map "rt_step K" "tree_inv K J B H" tree_view for K J B H
proof
  fix m op assume i: "tree_inv K J B H m" and v: "op_valid op"
  obtain root s where m: "m = (root, s)" by (cases m)
  have inv: "rt_inv K J B root s" and H: "\<forall>b \<in> B. rt_nodes s b = H b" using i m by (auto simp: tree_inv_def)
  show "\<exists>r m'. rt_step K op m = Some (r, m') \<and> tree_inv K J B H m' \<and> op_allows op (tree_view m) r (tree_view m')"
  proof (cases op)
    case (Insert j x)
    then have "insert_result K J B j x (contents_in root s) s (radix_tree_insert K root j x s)"
      using radix_tree_insert_result [OF inv] v by auto
    then show ?thesis using H unfolding insert_result_def Insert m
      by (auto simp: tree_inv_def tree_view_def kept_def outcome_def split: if_splits)
  next
    case (Delete j)
    then show ?thesis using radix_tree_delete_result [OF inv, of j] H unfolding removed_def m
      by (auto simp: tree_inv_def tree_view_def kept_def)
  next
    case (Lookup j)
    then show ?thesis using lookup_contents [of s root j] inv i unfolding m by (simp add: tree_view_def rt_inv_def)
  qed
qed

section \<open>The preloaded pool\<close>

text \<open>The pool serves \<open>n\<close> allocations of a tree that must not wait for memory.\<close>

definition stocked :: "('k, 'z) rtkit \<Rightarrow> rt_root \<Rightarrow> nat \<Rightarrow> ('k, 'z) rtstate \<Rightarrow> bool" where
  "stocked K root n s \<longleftrightarrow> n \<le> length (rt_preload s) \<and> (\<forall>p \<in> set (rt_preload s). p \<noteq> 0) \<and> root_gfp_mask root AND GFP_WAIT = 0 \<and>
     (\<exists>c. caches s (rt_cachep s) = Some c \<and> kc_ctor c \<noteq> 0 \<and> (\<forall>node a f u. call_ctor K (kc_ctor c) node a f u = radix_tree_node_ctor node u))"

lemma stocked_mono: "stocked K root n s \<Longrightarrow> m \<le> n \<Longrightarrow> stocked K root m s"
  unfolding stocked_def by auto

lemma stocked_root: "stocked K root n s \<Longrightarrow> rt_gfp root' = rt_gfp root \<Longrightarrow> stocked K root' n s"
  unfolding stocked_def root_gfp_mask_def by simp

lemma stocked_write: "node_update a f s = Some s' \<Longrightarrow> stocked K root n s \<Longrightarrow> stocked K root n s'"
  unfolding stocked_def node_update_def by (auto split: bind_splits)

lemma inv_stocked:
  assumes "rt_inv K J B root s" "n \<le> length (rt_preload s)" "root_gfp_mask root AND GFP_WAIT = 0"
  shows "stocked K root n s"
  using assms unfolding stocked_def rt_inv_def rt_env_def pool_ok_def cache_ready_def by blast

lemma cache_alloc_frame:
  assumes "caches s (rt_cachep s) = Some c" "kc_ctor c \<noteq> 0" "\<And>node a f u. call_ctor K (kc_ctor c) node a f u = radix_tree_node_ctor node u"
    "kmem_cache_alloc K (rt_cachep s) f s = Some (p, s')"
  shows "caches s' = caches s" "rt_cachep s' = rt_cachep s" "rt_preload s' = rt_preload s"
  using assms by (auto simp: kmem_cache_alloc_def kcall_def radix_tree_node_ctor_def Let_def split: if_splits)

lemma alloc_stocked:
  assumes "stocked K root (Suc n) s" "radix_tree_node_alloc K root s = Some (p, s')"
  shows "p \<noteq> 0" "stocked K root n s'"
proof -
  obtain c where c: "caches s (rt_cachep s) = Some c" "kc_ctor c \<noteq> 0" "\<And>node a f u. call_ctor K (kc_ctor c) node a f u = radix_tree_node_ctor node u"
    using assms(1) by (auto simp: stocked_def)
  obtain q qs where q: "rt_preload s = q # qs" "q \<noteq> 0" using assms(1) by (cases "rt_preload s") (auto simp: stocked_def)
  obtain r s1 where a: "kmem_cache_alloc K (rt_cachep s) (root_gfp_mask root) s = Some (r, s1)"
    using assms(2) by (auto simp: radix_tree_node_alloc_def split: bind_splits)
  note f = cache_alloc_frame [OF c a]
  have "(p, s') = (if r = 0 then (q, s1\<lparr>rt_preload := qs\<rparr>) else (r, s1))"
    using assms a q f(3) by (auto simp: radix_tree_node_alloc_def stocked_def split: if_splits)
  then show "p \<noteq> 0" "stocked K root n s'" using assms(1) q f c unfolding stocked_def by (auto split: if_splits)
qed

lemma link_stocked: "link_child c node off root s = Some (root', s') \<Longrightarrow> stocked K root n s \<Longrightarrow> stocked K root' n s'"
  unfolding link_child_def by (auto split: if_splits bind_splits intro: stocked_write stocked_root)

lemma insert_loop_stocked:
  assumes "insert_loop K index item n node off slot root s = Some (err, root', s')"
    and "stocked K root (if slot = 0 then n else n - 1) s"
  shows "err \<noteq> - ENOMEM"
  using assms
proof (induction n arbitrary: node off slot root s)
  case 0
  then show ?case by (auto simp: insert_item_def split: if_splits bind_splits)
next
  case (Suc n)
  have step: "err \<noteq> - ENOMEM" if st: "stocked K r n u" and run:
      "do { nd \<leftarrow> rt_nodes u c; child \<leftarrow> slot_get (slot_offset index (Suc n)) nd;
         insert_loop K index item n c (slot_offset index (Suc n)) child r u } = Some (err, root', s')" for r u c
  proof -
    obtain child where "insert_loop K index item n c (slot_offset index (Suc n)) child r u = Some (err, root', s')"
      using run by (auto split: bind_splits)
    then show ?thesis by (rule Suc.IH) (rule stocked_mono [OF st], simp)
  qed
  show ?case
  proof (cases "slot = 0")
    case False
    then show ?thesis using Suc.prems step [of root s slot] by simp
  next
    case True
    obtain p s1 where a: "radix_tree_node_alloc K root s = Some (p, s1)" using Suc.prems(1) True by (auto split: bind_splits)
    have st: "p \<noteq> 0" "stocked K root n s1" using alloc_stocked [OF _ a, of n] Suc.prems(2) True by auto
    obtain s2 r s3 where b: "node_update p (set_height (Suc n)) s1 = Some s2" "link_child p node off root s2 = Some (r, s3)"
      using Suc.prems(1) True a st(1) by (auto split: bind_splits)
    have "stocked K r n s3" by (rule link_stocked [OF b(2) stocked_write [OF b(1) st(2)]])
    then show ?thesis using Suc.prems(1) True a st(1) b step [of r s3 p] by simp
  qed
qed

text \<open>Preloading fills the pool and leaves every tree alone.\<close>

lemma preload_step_inv:
  assumes i: "rt_inv K J B root s" and a: "kmem_cache_alloc K (rt_cachep s) f s = Some (p, s1)" and p: "p \<noteq> 0"
  shows "rt_inv K J B root (s1\<lparr>rt_preload := p # rt_preload s1\<rparr>)" "contents_in root s1 = contents_in root s" "rt_preload s1 = rt_preload s"
proof -
  have ok: "rt_env K J s" "root_ok (rt_nodes s) root" "owned s (tree_set root s \<union> B)" "tree_set root s \<inter> B = {}" using i by (auto simp: rt_inv_def)
  have c: "\<exists>c. caches s (rt_cachep s) = Some c \<and> cache_ready K J c" "pool_ok s" using ok(1) by (simp_all add: rt_env_def)
  obtain q u where b: "kmem_cache_alloc K (rt_cachep s) f s = Some (q, u)" "rt_cachep u = rt_cachep s" "caches u = caches s"
    "rt_preload u = rt_preload s" "rcu_queue u = rcu_queue s" "J (dom (rt_nodes u)) (kit u)"
    "if q = 0 then rt_nodes u = rt_nodes s
     else q \<notin> dom (rt_nodes s) \<and> \<not> radix_tree_is_direct_ptr q \<and> rt_nodes u = (rt_nodes s)(q \<mapsto> zero_node)"
    by (rule cache_alloc [OF ok(1)]) (rule that)
  have e: "q = p" "u = s1" using a b(1) by simp_all
  have n: "p \<notin> dom (rt_nodes s)" "\<not> radix_tree_is_direct_ptr p" "rt_nodes s1 = (rt_nodes s)(p \<mapsto> zero_node)" using b(7) e p by simp_all
  note f = b(2-6) [unfolded e]
  show "rt_preload s1 = rt_preload s" by (rule f(3))
  let ?s = "s1\<lparr>rt_preload := p # rt_preload s1\<rparr>"
  note pk = pool_ok_new [OF c(2) n(1,3) f(3,4)]
  have "pool_ok ?s" using pk f(3,4) n p unfolding pool_ok_def by auto
  then have env: "rt_env K J ?s" using c(1) f(1,2,5) by (simp add: rt_env_def)
  have np: "p \<notin> tree_set root s \<union> B" using ok(3) n(1) by (auto simp: owned_def)
  have same: "\<And>a. a \<in> nodes_of (rt_nodes s) (rt_height root) (rt_ptr root) \<Longrightarrow> rt_nodes s1 a = rt_nodes s a"
    using np n(3) by (auto simp: tree_set_def)
  note fr = tree_frame [OF root_okD(2) [OF ok(2)] same]
  have T: "tree_set root ?s = tree_set root s" using fr(1) by (simp add: tree_set_def)
  have "root_tags_ok (rt_nodes s1) root" using root_okD(3,6) [OF ok(2)] fr(4) by (auto simp: root_tags_ok_def)
  then have "root_ok (rt_nodes s1) root" using ok(2) fr(3) by (simp add: root_ok_def)
  moreover have "owned ?s (tree_set root s \<union> B)" using ok(3) np n(3) f(3,4) by (auto simp: owned_def)
  ultimately show "rt_inv K J B root ?s" using env T ok(4) by (simp add: rt_inv_def)
  show "contents_in root s1 = contents_in root s" using fr(2) by (auto simp: contents_def)
qed

lemma preload_fail_inv:
  assumes i: "rt_inv K J B root s" and a: "kmem_cache_alloc K (rt_cachep s) f s = Some (0, s1)"
  shows "rt_inv K J B root s1" "contents_in root s1 = contents_in root s" "kept B s s1"
proof -
  have ok: "rt_env K J s" "root_ok (rt_nodes s) root" "owned s (tree_set root s \<union> B)" "tree_set root s \<inter> B = {}" using i by (auto simp: rt_inv_def)
  obtain q u where b: "kmem_cache_alloc K (rt_cachep s) f s = Some (q, u)" "rt_cachep u = rt_cachep s" "caches u = caches s"
    "rt_preload u = rt_preload s" "rcu_queue u = rcu_queue s" "J (dom (rt_nodes u)) (kit u)"
    "if q = 0 then rt_nodes u = rt_nodes s
     else q \<notin> dom (rt_nodes s) \<and> \<not> radix_tree_is_direct_ptr q \<and> rt_nodes u = (rt_nodes s)(q \<mapsto> zero_node)"
    by (rule cache_alloc [OF ok(1)]) (rule that)
  have e: "q = 0" "u = s1" using a b(1) by simp_all
  have n: "rt_nodes s1 = rt_nodes s" using b(7) e by simp
  note f = b(2-6) [unfolded e(2)]
  have "rt_env K J s1" using ok(1) f n by (auto simp: rt_env_def pool_ok_def)
  then show "rt_inv K J B root s1" using ok(2-4) n f by (simp add: rt_inv_def tree_set_def owned_def)
  show "contents_in root s1 = contents_in root s" "kept B s s1" by (simp_all add: n kept_def)
qed

lemma preload_inv:
  assumes "rt_inv K J B root s" "preload_loop K f n s = Some (err, s')"
  shows "rt_inv K J B root s' \<and> contents_in root s' = contents_in root s \<and> (err = 0 \<longrightarrow> length (rt_preload s') = n + length (rt_preload s))"
  using assms
proof (induction n arbitrary: s)
  case (Suc n)
  obtain p s1 where a: "kmem_cache_alloc K (rt_cachep s) f s = Some (p, s1)" using Suc.prems(2) by (auto split: bind_splits)
  show ?case
  proof (cases "p = 0")
    case True
    then show ?thesis using preload_fail_inv [OF Suc.prems(1)] a Suc.prems(2) by auto
  next
    case False
    then have b: "preload_loop K f n (s1\<lparr>rt_preload := p # rt_preload s1\<rparr>) = Some (err, s')" using Suc.prems(2) a by simp
    note v = preload_step_inv [OF Suc.prems(1) a False]
    show ?thesis using Suc.IH [OF v(1) b] v(2,3) by simp
  qed
qed simp

text \<open>An insertion that does not raise a tree with items never needs more nodes than a preload provides.\<close>

lemma insert_stocked:
  assumes i: "rt_inv K J B root s" and n: "7 \<le> length (rt_preload s)" and gfp: "root_gfp_mask root AND GFP_WAIT = 0"
    and ix: "index \<le> maxindex (rt_height root) \<or> rt_rnode root = 0"
    and run: "radix_tree_insert K root index item s = Some (err, root', s')"
  shows "err \<noteq> - ENOMEM"
proof -
  have ok: "root_ok (rt_nodes s) root" using i by (simp add: rt_inv_def)
  have st: "stocked K root 6 s" using inv_stocked [OF i _ gfp] n by simp
  show ?thesis
  proof (cases "index \<le> maxindex (rt_height root)")
    case True
    then have l: "insert_loop K index item (rt_height root) 0 0 (rt_rnode root) root s = Some (err, root', s')"
      using run by (auto simp: radix_tree_insert_def leD split: if_splits)
    show ?thesis by (rule insert_loop_stocked [OF l stocked_mono [OF st]]) (use root_okD(1) [OF ok] in auto)
  next
    case False
    let ?h = "needed_height index (rt_height root + 1)" and ?r = "root\<lparr>rt_height := needed_height index (rt_height root + 1)\<rparr>"
    have "rt_height root \<noteq> 6" using False maxindex_top [of 6] word_order.extremum [of index] by auto
    then have h: "?h \<le> 6" using needed_height_ok [of "rt_height root + 1" index] root_okD(1) [OF ok] by auto
    have "insert_loop K index item ?h 0 0 (rt_rnode root) ?r s = Some (err, root', s')"
      using run False ix by (auto simp: radix_tree_insert_def radix_tree_extend_def not_le split: if_splits)
    then show ?thesis by (rule insert_loop_stocked) (rule stocked_mono [OF stocked_root [OF st]], use h in auto)
  qed
qed

section \<open>Calls on a tree\<close>

text \<open>
  The calls that change a tree, one after the other.  An item is not 0 and is aligned, a tag is set only on an item
  that is present, and there are two tags.
\<close>

inductive rt_call :: "('k, 'z) rtkit \<Rightarrow> rt_root \<times> ('k, 'z) rtstate \<Rightarrow> rt_root \<times> ('k, 'z) rtstate \<Rightarrow> bool" for K where
  call_insert: "item \<noteq> 0 \<Longrightarrow> \<not> radix_tree_is_direct_ptr item \<Longrightarrow> radix_tree_insert K root index item s = Some (err, root', s') \<Longrightarrow>
    rt_call K (root, s) (root', s')"
| call_delete: "radix_tree_delete root index s = Some (x, root', s') \<Longrightarrow> rt_call K (root, s) (root', s')"
| call_tag_set: "tag < 2 \<Longrightarrow> radix_tree_lookup root index s = Some x \<Longrightarrow> x \<noteq> 0 \<Longrightarrow>
    radix_tree_tag_set root index tag s = Some (v, root', s') \<Longrightarrow> rt_call K (root, s) (root', s')"
| call_tag_clear: "tag < 2 \<Longrightarrow> radix_tree_tag_clear root index tag s = Some (v, root', s') \<Longrightarrow> rt_call K (root, s) (root', s')"
| call_preload: "radix_tree_preload K gfp_mask s = Some (err, s') \<Longrightarrow> rt_call K (root, s) (root, s')"

lemma tag_clear_absent:
  assumes i: "rt_inv K J B root s" and c: "contents_in root s index = 0"
  shows "radix_tree_tag_clear root index t s = Some (0, root, s)"
proof (cases "maxindex (rt_height root) < index")
  case False
  have ok: "root_ok (rt_nodes s) root" using i by (simp add: rt_inv_def)
  note rk = root_okD [OF ok]
  have z: "item_at (rt_nodes s) (rt_height root) (rt_ptr root) index = 0" using False c by (simp add: contents_def)
  then have "\<not> (rt_height root = 0 \<and> rt_rnode root \<noteq> 0)" using rk(5) by (metis item_at.simps(1))
  then have p: "rt_ptr root = rt_rnode root" using rk(6) by auto
  show ?thesis using False find_path_ok [OF rk(2), of index "[]"] z unfolding p radix_tree_tag_clear_def by auto
qed (simp add: radix_tree_tag_clear_def)

lemma call_keeps_inv:
  assumes "rt_call K m m'" "rt_inv K J B (fst m) (snd m)"
  shows "rt_inv K J B (fst m') (snd m')"
  using assms
proof (cases rule: rt_call.cases)
  case (call_insert item root index s err root' s')
  then show ?thesis using radix_tree_insert_result [of K J B root s item index] assms(2) by (auto simp: insert_result_def)
next
  case (call_delete root index s x root' s')
  then show ?thesis using radix_tree_delete_result [of K J B root s index] assms(2) by (auto simp: removed_def)
next
  case (call_tag_set tag root index s x v root' s')
  then have "contents_in root s index \<noteq> 0" using lookup_contents [of s root index] assms(2) by (auto simp: rt_inv_def)
  then show ?thesis using call_tag_set tag_set_result [of K J B root s index tag] assms(2) by (auto simp: retag_result_def)
next
  case (call_tag_clear tag root index s v root' s')
  then show ?thesis using tag_clear_result [of K J B root s index tag] tag_clear_absent [of K J B root s index tag] assms(2)
    by (cases "contents_in root s index = 0") (auto simp: retag_result_def)
next
  case (call_preload gfp_mask s err s' root)
  then show ?thesis using preload_inv [of K J B root s gfp_mask _ err s'] assms(2) unfolding radix_tree_preload_def by auto
qed

lemma calls_keep_inv: "(rt_call K)\<^sup>*\<^sup>* m m' \<Longrightarrow> rt_inv K J B (fst m) (snd m) \<Longrightarrow> rt_inv K J B (fst m') (snd m')"
  by (induction rule: rtranclp_induct) (auto dest: call_keeps_inv)

section \<open>Slots\<close>

text \<open>What a slot holds.\<close>

fun slot_value :: "rt_root \<Rightarrow> ('k, 'z) rtstate \<Rightarrow> rt_slot \<Rightarrow> addr option" where
  "slot_value root s Root_Slot = Some (rt_rnode root)"
| "slot_value root s (Node_Slot node offset) = rt_nodes s node \<bind> slot_get offset"

lemma lookup_slot_loop_ok:
  assumes "tree_ok (rt_nodes s) n p" "p \<noteq> 0" "slot_value root s sl = Some p"
  shows "\<exists>r. lookup_slot_loop index n sl p s = Some r \<and> (case r of None \<Rightarrow> item_at (rt_nodes s) n p index = 0
    | Some sl' \<Rightarrow> slot_value root s sl' = Some (item_at (rt_nodes s) n p index) \<and> item_at (rt_nodes s) n p index \<noteq> 0)"
  using assms
proof (induction n arbitrary: p sl)
  case (Suc n)
  obtain nd where nd: "rt_nodes s p = Some nd" using tree_some [OF Suc.prems(1,2)] by blast
  note parts = tree_parts [OF Suc.prems(1,2) nd]
  let ?k = "slot_offset index (Suc n)"
  have g: "slot_get ?k nd = Some (rtn_slots nd ! ?k)" using slot_get_ok [OF parts(1) slot_offset_less] .
  have e: "item_at (rt_nodes s) (Suc n) p index = item_at (rt_nodes s) n (rtn_slots nd ! ?k) index" using Suc.prems(2) nd by simp
  show ?case
  proof (cases "rtn_slots nd ! ?k = 0")
    case True
    then show ?thesis using nd g e by simp
  next
    case False
    have "slot_value root s (Node_Slot p ?k) = Some (rtn_slots nd ! ?k)" using nd g by simp
    from Suc.IH [OF parts(3) [OF slot_offset_less] False this] show ?thesis using nd g False unfolding e by simp
  qed
qed simp

lemma item_not_direct: "tree_ok H n p \<Longrightarrow> \<not> radix_tree_is_direct_ptr (item_at H n p j)"
proof (induction n arbitrary: p)
  case (Suc n)
  show ?case
  proof (cases "p = 0")
    case False
    obtain nd where nd: "H p = Some nd" using tree_some [OF Suc.prems False] by blast
    then show ?thesis using Suc.IH [OF tree_parts(3) [OF Suc.prems False nd slot_offset_less]] False by simp
  qed simp
qed simp

lemma lookup_slot_ok:
  assumes "root_ok (rt_nodes s) root"
  shows "\<exists>r. radix_tree_lookup_slot root index s = Some r \<and> (case r of None \<Rightarrow> contents_in root s index = 0
    | Some sl \<Rightarrow> map_option radix_tree_direct_to_ptr (slot_value root s sl) = Some (contents_in root s index) \<and> contents_in root s index \<noteq> 0)"
proof -
  let ?r = "rt_rnode root" and ?h = "rt_height root"
  note rk = root_okD [OF assms]
  consider (empty) "?r = 0" | (item) "?r \<noteq> 0" "?h = 0" | (node) n where "?r \<noteq> 0" "?h = Suc n" by (cases ?h) auto
  then show ?thesis
  proof cases
    case empty
    then show ?thesis by (simp add: radix_tree_lookup_slot_def contents_def rt_ptr_def radix_tree_direct_to_ptr_def)
  next
    case item
    then show ?thesis using rk(4,5) by (simp add: radix_tree_lookup_slot_def contents_def rt_ptr_def maxindex_zero)
  next
    case (node n)
    have p: "rt_ptr root = ?r" "\<not> radix_tree_is_direct_ptr ?r" using rk(4,6) node by auto
    have t: "tree_ok (rt_nodes s) (Suc n) ?r" using rk(2) unfolding p node(2) .
    obtain nd where nd: "rt_nodes s ?r = Some nd" using tree_some [OF t node(1)] by blast
    have hh: "rtn_height nd = Suc n" using tree_parts(1) [OF t node(1) nd] by (simp add: node_ok_def)
    have "\<not> radix_tree_is_direct_ptr (item_at (rt_nodes s) (Suc n) ?r index)"
      using item_not_direct [OF t] .
    then show ?thesis using lookup_slot_loop_ok [OF t node(1), of root Root_Slot index] node p nd hh
      by (auto simp: radix_tree_lookup_slot_def contents_def direct_to_ptr_even split: option.splits simp del: item_at.simps lookup_slot_loop.simps)
  qed
qed

section \<open>An example\<close>

text \<open>A host whose slabs hand out aligned blocks in ascending order, with one cache for the nodes.\<close>

definition rt_kit :: "(sim, unit) rtkit" where
  "rt_kit = sim_kit\<lparr>call_ctor := \<lambda>_ node _ _ s. radix_tree_node_ctor node s\<rparr>"

definition rt_uses :: "addr set \<Rightarrow> sim \<Rightarrow> bool" where
  "rt_uses U k \<longleftrightarrow> (\<forall>a \<in> U. a < sim_next k) \<and> even (sim_next k)"

definition rt_example :: "nat \<Rightarrow> sim rt_state" where
  "rt_example budget = \<lparr>kit = sim_init\<lparr>sim_budget := budget\<rparr>, mem = (\<lambda>_. 0),
     caches = [9 \<mapsto> \<lparr>kc_name = 1, kc_size = 276, kc_slab = 2, kc_lock = 3, kc_ctor = 4, kc_dtor = 0\<rparr>],
     malloc_sizes = [], rt_nodes = Map.empty, rt_cachep = 9, rt_preload = [], rcu_queue = []\<rparr>"

lemma rt_kit_parts: "lock_lock rt_kit l k = sim_ev ''lock'' [l] k" "lock_unlock rt_kit l k = sim_ev ''unlock'' [l] k"
  "slab_alloc rt_kit c k = sim_new k" "call_ctor rt_kit f node a g s = radix_tree_node_ctor node s"
  by (simp_all add: rt_kit_def sim_kit_def)

lemma rt_uses_new:
  assumes "rt_uses U k" "sim_new k = (p, k')" "p \<noteq> 0"
  shows "p \<notin> U" "\<not> radix_tree_is_direct_ptr p" "rt_uses (insert p U) k'"
proof -
  have p: "p = sim_next k" "k' = k\<lparr>sim_next := sim_next k + 0x10000, sim_budget := sim_budget k - 1\<rparr>"
    using assms(2,3) by (auto simp: sim_new_def split: if_splits)
  show "p \<notin> U" using assms(1) p(1) by (auto simp: rt_uses_def)
  show "\<not> radix_tree_is_direct_ptr p" using assms(1) p(1) by (simp add: rt_uses_def radix_tree_is_direct_ptr_def and_one_eq mod_2_eq_odd)
  have "\<forall>a. a < sim_next k \<longrightarrow> a < sim_next k'" "p < sim_next k'" using sim_new_fresh [of k] assms(2,3) by simp_all
  moreover have "even (sim_next k')" using assms(1) p(2) by (simp add: rt_uses_def)
  ultimately show "rt_uses (insert p U) k'" using assms(1) by (simp add: rt_uses_def)
qed

lemma rt_example_env: "rt_env rt_kit rt_uses (rt_example b)"
proof -
  have z: "rt_uses U k'" if "rt_uses U k" "sim_new k = (0, k')" for U k k'
    using that by (auto simp: sim_new_def rt_uses_def split: if_splits)
  have ev: "rt_uses U (sim_ev n xs k) = rt_uses U k" for U n xs k by (simp add: rt_uses_def sim_ev_def)
  have new: "case sim_new k of (p, k') \<Rightarrow> if p = 0 then rt_uses U k' else p \<notin> U \<and> \<not> radix_tree_is_direct_ptr p \<and> rt_uses (insert p U) k'"
    if "rt_uses U k" for U k
  proof (cases "sim_new k")
    case (Pair p k')
    then show ?thesis using z [OF that] rt_uses_new [OF that Pair] by (cases "p = 0") simp_all
  qed
  have "slab_serves rt_kit rt_uses c" for c unfolding slab_serves_def rt_kit_parts ev
    by (intro allI impI conjI) (assumption | erule new)+
  then have "cache_ready rt_kit rt_uses c" if "kc_ctor c \<noteq> 0" for c using that by (simp add: cache_ready_def rt_kit_parts)
  then show ?thesis by (simp add: rt_env_def rt_example_def pool_ok_def rt_uses_def sim_init_def)
qed

lemma rt_example_inv: "rt_inv rt_kit rt_uses {} (INIT_RADIX_TREE GFP_ATOMIC) (rt_example b)"
  using rt_example_env
  by (simp add: rt_inv_def root_ok_def root_tags_ok_def INIT_RADIX_TREE_def rt_ptr_def radix_tree_direct_to_ptr_def tree_set_def owned_def
      root_tag_get_def less_Suc_eq numeral_2_eq_2)

lemma even_item: "\<not> radix_tree_is_direct_ptr 0x1000" "\<not> radix_tree_is_direct_ptr 0x2000"
  by (simp_all add: radix_tree_is_direct_ptr_def)

lemma rt_filled:
  "\<exists>root s. radix_tree_insert rt_kit (INIT_RADIX_TREE GFP_ATOMIC) 70 0x1000 (rt_example 9) = Some (0, root, s) \<and>
     rt_inv rt_kit rt_uses {} root s \<and> radix_tree_lookup root 70 s = Some 0x1000"
proof -
  have "map_option fst (radix_tree_insert rt_kit (INIT_RADIX_TREE GFP_ATOMIC) 70 0x1000 (rt_example 9)) = Some 0" by code_simp
  moreover have "(0x1000 :: addr) \<noteq> 0" by simp
  ultimately obtain root s where r: "radix_tree_insert rt_kit (INIT_RADIX_TREE GFP_ATOMIC) 70 0x1000 (rt_example 9) = Some (0, root, s)"
    "rt_inv rt_kit rt_uses {} root s" "contents_in root s 70 = 0x1000"
    using radix_tree_insert_result [OF rt_example_inv [of 9] _ even_item(1), of 70] unfolding insert_result_def by auto
  then show ?thesis using lookup_contents [of s root 70] by (auto simp: rt_inv_def)
qed

lemma retag_observed:
  assumes "rt_inv K J B root s" "retag_result K J B root index t v s root' s'"
  shows "rt_inv K J B root' s' \<and> (\<forall>j. radix_tree_lookup root' j s' = radix_tree_lookup root j s) \<and>
    (\<forall>u < 2. (\<forall>j. tags_in root' s' j u = (if j = index \<and> u = t then v else tags_in root s j u)) \<and>
      (radix_tree_tagged root' u \<longleftrightarrow> (\<exists>j. tags_in root' s' j u)))"
proof -
  have r: "rt_inv K J B root' s'" "contents_in root' s' = contents_in root s"
    "\<forall>j. \<forall>u < 2. tags_in root' s' j u = (if j = index \<and> u = t then v else tags_in root s j u)"
    using assms(2) unfolding retag_result_def by blast+
  have "radix_tree_lookup root' j s' = radix_tree_lookup root j s" for j
    using lookup_contents [of s root j] lookup_contents [of s' root' j] r(1,2) assms(1) by (simp add: rt_inv_def)
  moreover have "radix_tree_tagged root' u \<longleftrightarrow> (\<exists>j. tags_in root' s' j u)" if "u < 2" for u
    using root_tagged_iff [OF _ that] r(1) by (auto simp: rt_inv_def radix_tree_tagged_def)
  ultimately show ?thesis using r(1,3) by blast
qed

section \<open>Properties\<close>

text \<open>
  Property C1.  A radix tree is a map from indices to items: every sequence of insertions, deletions and lookups runs
  through without a fault and returns what the map returns, where an insertion may also fail with \<open>-ENOMEM\<close> and then
  changes nothing; the tree stays well formed and the nodes of other trees are not touched.
\<close>
theorem radix_tree_refines_map:
  assumes "rt_inv K J B root s" "list_all op_valid ops"
  shows "\<exists>rs root' s'. run_ops (rt_step K) ops (root, s) = Some (rs, root', s') \<and>
    ops_allow ops (contents (rt_nodes s) root) rs (contents (rt_nodes s') root') \<and>
    rt_inv K J B root' s' \<and> (\<forall>b \<in> B. rt_nodes s' b = rt_nodes s b)"
proof -
  have "tree_inv K J B (rt_nodes s) (root, s)" using assms(1) by (simp add: tree_inv_def)
  from rtm.run_ok [OF this assms(2)] show ?thesis by (force simp: tree_inv_def tree_view_def)
qed

theorem radix_tree_refines_map_witness:
  "\<exists>rs root' s'. run_ops (rt_step rt_kit) [Insert 70 0x1000, Insert 70 0x2000, Delete 70] (INIT_RADIX_TREE GFP_ATOMIC, rt_example 9) =
     Some (rs, root', s') \<and>
   ops_allow [Insert 70 0x1000, Insert 70 0x2000, Delete 70] (contents (rt_nodes (rt_example 9)) (INIT_RADIX_TREE GFP_ATOMIC)) rs
     (contents (rt_nodes s') root')"
proof -
  have "list_all op_valid [Insert 70 0x1000, Insert 70 0x2000, Delete 70]" using even_item by simp
  from radix_tree_refines_map [OF rt_example_inv [of 9] this] show ?thesis by blast
qed

text \<open>
  Property C35.  \<open>radix_tree_insert\<close> stores the item where there was none and returns 0, refuses an index that is in use
  with \<open>-EEXIST\<close>, and otherwise fails with \<open>-ENOMEM\<close>; a lookup then finds the item if 0 was returned, and every other
  lookup is as before.
\<close>
theorem radix_tree_insert_outcome:
  assumes "rt_inv K J B root s" "item \<noteq> 0" "\<not> radix_tree_is_direct_ptr item"
  shows "\<exists>err root' s'. radix_tree_insert K root index item s = Some (err, root', s') \<and>
    (if radix_tree_lookup root index s = Some 0 then err = 0 \<or> err = - ENOMEM else err = - EEXIST) \<and>
    (\<forall>j. radix_tree_lookup root' j s' = (if err = 0 \<and> j = index then Some item else radix_tree_lookup root j s))"
proof -
  obtain err root' s' where r: "radix_tree_insert K root index item s = Some (err, root', s')" "rt_inv K J B root' s'"
    "outcome err (contents_in root s index)" "contents_in root' s' = (if err = 0 then (contents_in root s)(index := item) else contents_in root s)"
    using radix_tree_insert_result [OF assms, of index] unfolding insert_result_def by blast
  have l: "radix_tree_lookup root j s = Some (contents_in root s j)" "radix_tree_lookup root' j s' = Some (contents_in root' s' j)" for j
    using lookup_contents assms(1) r(2) by (auto simp: rt_inv_def)
  show ?thesis using r(1,3,4) by (intro exI [of _ err] exI [of _ root'] exI [of _ s']) (auto simp: l outcome_def split: if_splits)
qed

theorem radix_tree_insert_outcome_witness:
  "\<exists>root' s'. radix_tree_insert rt_kit (INIT_RADIX_TREE GFP_ATOMIC) 70 0x1000 (rt_example 9) = Some (0, root', s') \<and>
     radix_tree_lookup root' 70 s' = Some 0x1000"
proof -
  have "map_option fst (radix_tree_insert rt_kit (INIT_RADIX_TREE GFP_ATOMIC) 70 0x1000 (rt_example 9)) = Some 0" by code_simp
  then show ?thesis using radix_tree_insert_outcome [OF rt_example_inv [of 9] _ even_item(1), of 70] by auto
qed

text \<open>
  Property C5.  \<open>radix_tree_delete\<close> returns what a lookup would have returned; afterwards the index is free, every
  other lookup is as before, and a tag remains in the tree exactly if an item at another index has it.
\<close>
theorem radix_tree_delete_outcome:
  assumes "rt_inv K J B root s"
  shows "\<exists>x root' s'. radix_tree_lookup root index s = Some x \<and> radix_tree_delete root index s = Some (x, root', s') \<and> rt_inv K J B root' s' \<and>
    (\<forall>j. radix_tree_lookup root' j s' = (if j = index then Some 0 else radix_tree_lookup root j s)) \<and>
    (\<forall>t < 2. radix_tree_tagged root' t \<longleftrightarrow> (\<exists>j. j \<noteq> index \<and> tags_in root s j t))"
proof -
  obtain root' s' where r: "radix_tree_delete root index s = Some (contents_in root s index, root', s')" "rt_inv K J B root' s'"
    "contents_in root' s' = (contents_in root s)(index := 0)" "\<forall>j. \<forall>u < 2. tags_in root' s' j u = (j \<noteq> index \<and> tags_in root s j u)"
    using radix_tree_delete_result [OF assms, of index] unfolding removed_def by blast
  have l: "radix_tree_lookup root j s = Some (contents_in root s j)" "radix_tree_lookup root' j s' = Some (contents_in root' s' j)" for j
    using lookup_contents assms r(2) by (auto simp: rt_inv_def)
  have "radix_tree_tagged root' t \<longleftrightarrow> (\<exists>j. j \<noteq> index \<and> tags_in root s j t)" if "t < 2" for t
    using root_tagged_iff [of s' root' t] r(2,4) that by (auto simp: rt_inv_def radix_tree_tagged_def)
  then show ?thesis using r(1-3) l by (intro exI [of _ "contents_in root s index"] exI [of _ root'] exI [of _ s']) auto
qed

theorem radix_tree_delete_outcome_witness:
  "\<exists>root s root' s'. radix_tree_insert rt_kit (INIT_RADIX_TREE GFP_ATOMIC) 70 0x1000 (rt_example 9) = Some (0, root, s) \<and>
     radix_tree_delete root 70 s = Some (0x1000, root', s') \<and> radix_tree_lookup root' 70 s' = Some 0"
proof -
  obtain root s where r: "radix_tree_insert rt_kit (INIT_RADIX_TREE GFP_ATOMIC) 70 0x1000 (rt_example 9) = Some (0, root, s)"
    "rt_inv rt_kit rt_uses {} root s" "radix_tree_lookup root 70 s = Some 0x1000" using rt_filled by blast
  show ?thesis using radix_tree_delete_outcome [OF r(2), of 70] r(1,3) by fastforce
qed

text \<open>
  Property C36.  Setting a tag of an item that is present sets it for that index alone: all lookups are as before, and
  \<open>radix_tree_tagged\<close> tells for both tags whether some index has them.
\<close>
theorem radix_tree_tag_set_exact:
  assumes "rt_inv K J B root s" "radix_tree_lookup root index s = Some x" "x \<noteq> 0" "t < 2"
  shows "\<exists>v root' s'. radix_tree_tag_set root index t s = Some (v, root', s') \<and> rt_inv K J B root' s' \<and>
    (\<forall>j. radix_tree_lookup root' j s' = radix_tree_lookup root j s) \<and>
    (\<forall>u < 2. (\<forall>j. tags_in root' s' j u = (if j = index \<and> u = t then True else tags_in root s j u)) \<and>
      (radix_tree_tagged root' u \<longleftrightarrow> (\<exists>j. tags_in root' s' j u)))"
proof -
  have "contents_in root s index \<noteq> 0" using lookup_contents [of s root index] assms(1-3) by (auto simp: rt_inv_def)
  from tag_set_result [OF assms(1) this assms(4)] show ?thesis using retag_observed [OF assms(1)] by blast
qed

theorem radix_tree_tag_set_exact_witness:
  "\<exists>root s v root' s'. rt_inv rt_kit rt_uses {} root s \<and> radix_tree_tag_set root 70 1 s = Some (v, root', s') \<and> radix_tree_lookup root 70 s = Some 0x1000 \<and>
     (tags_in root' s' 70 1 \<longleftrightarrow> True)"
proof -
  obtain root s where r: "rt_inv rt_kit rt_uses {} root s" "radix_tree_lookup root 70 s = Some 0x1000" using rt_filled by blast
  have "(0x1000 :: addr) \<noteq> 0" "(1 :: nat) < 2" by simp_all
  from radix_tree_tag_set_exact [OF r this] obtain v root' s' where "radix_tree_tag_set root 70 1 s = Some (v, root', s')" "tags_in root' s' 70 1 \<longleftrightarrow> True"
    by auto
  then show ?thesis using r by blast
qed

text \<open>
  Property C37.  Clearing a tag of an item that is present clears it for that index alone, on the path up to the root only as
  far as no other item needs it: all lookups are as before, and \<open>radix_tree_tagged\<close> tells for both tags whether some
  index has them.
\<close>
theorem radix_tree_tag_clear_exact:
  assumes "rt_inv K J B root s" "radix_tree_lookup root index s = Some x" "x \<noteq> 0" "t < 2"
  shows "\<exists>v root' s'. radix_tree_tag_clear root index t s = Some (v, root', s') \<and> rt_inv K J B root' s' \<and>
    (\<forall>j. radix_tree_lookup root' j s' = radix_tree_lookup root j s) \<and>
    (\<forall>u < 2. (\<forall>j. tags_in root' s' j u = (if j = index \<and> u = t then False else tags_in root s j u)) \<and>
      (radix_tree_tagged root' u \<longleftrightarrow> (\<exists>j. tags_in root' s' j u)))"
proof -
  have "contents_in root s index \<noteq> 0" using lookup_contents [of s root index] assms(1-3) by (auto simp: rt_inv_def)
  from tag_clear_result [OF assms(1) this assms(4)] show ?thesis using retag_observed [OF assms(1)] by blast
qed

theorem radix_tree_tag_clear_exact_witness:
  "\<exists>root s v root' s'. rt_inv rt_kit rt_uses {} root s \<and> radix_tree_tag_clear root 70 1 s = Some (v, root', s') \<and> radix_tree_lookup root 70 s = Some 0x1000 \<and>
     (tags_in root' s' 70 1 \<longleftrightarrow> False)"
proof -
  obtain root s where r: "rt_inv rt_kit rt_uses {} root s" "radix_tree_lookup root 70 s = Some 0x1000" using rt_filled by blast
  have "(0x1000 :: addr) \<noteq> 0" "(1 :: nat) < 2" by simp_all
  from radix_tree_tag_clear_exact [OF r this] obtain v root' s' where "radix_tree_tag_clear root 70 1 s = Some (v, root', s')" "tags_in root' s' 70 1 \<longleftrightarrow> False"
    by auto
  then show ?thesis using r by blast
qed

text \<open>
  Property C2.  Whatever calls are made on a well-formed tree (insertions of aligned items, deletions, setting tags of
  present items, clearing tags, preloading), the tree stays well formed: every node has the height of its level and the
  count of its children, the tags of a node are those of the nodes below, and no node is shared, freed or in the pool.
  Lookups then never fault, and a tag is found only on an index with an item.
\<close>
theorem radix_tree_stays_well_formed:
  assumes "rt_inv K J B root s" "(rt_call K)\<^sup>*\<^sup>* (root, s) (root', s')"
  shows "rt_inv K J B root' s' \<and> (\<forall>j. \<exists>x. radix_tree_lookup root' j s' = Some x \<and> (\<forall>t < 2. tags_in root' s' j t \<longrightarrow> x \<noteq> 0))"
proof -
  have i: "rt_inv K J B root' s'" using calls_keep_inv [OF assms(2)] assms(1) by simp
  then have ok: "root_ok (rt_nodes s') root'" by (simp add: rt_inv_def)
  show ?thesis using i lookup_contents [OF ok] tags_in_item [OF ok] by auto
qed

theorem radix_tree_stays_well_formed_witness:
  "\<exists>root s x. radix_tree_insert rt_kit (INIT_RADIX_TREE GFP_ATOMIC) 70 0x1000 (rt_example 9) = Some (0, root, s) \<and>
     rt_inv rt_kit rt_uses {} root s \<and> radix_tree_lookup root 3 s = Some x"
proof -
  obtain root s where r: "radix_tree_insert rt_kit (INIT_RADIX_TREE GFP_ATOMIC) 70 0x1000 (rt_example 9) = Some (0, root, s)"
    using rt_filled by blast
  then have "rt_call rt_kit (INIT_RADIX_TREE GFP_ATOMIC, rt_example 9) (root, s)"
    by (rule rt_call.call_insert [rotated 2]) (simp_all add: even_item)
  then show ?thesis using radix_tree_stays_well_formed [OF rt_example_inv [of 9] r_into_rtranclp] r by blast
qed

text \<open>
  Property C38.  \<open>radix_tree_lookup_slot\<close> returns the place that holds the item of an index, in the root or in a node, and
  nothing exactly if the index has no item.
\<close>
theorem radix_tree_lookup_slot_holds:
  assumes "rt_inv K J B root s"
  shows "\<exists>r. radix_tree_lookup_slot root index s = Some r \<and>
    (case r of None \<Rightarrow> radix_tree_lookup root index s = Some 0
     | Some slot \<Rightarrow> radix_tree_lookup root index s \<noteq> Some 0 \<and>
         radix_tree_lookup root index s = map_option radix_tree_direct_to_ptr (slot_value root s slot))"
proof -
  have ok: "root_ok (rt_nodes s) root" using assms by (simp add: rt_inv_def)
  obtain r where "radix_tree_lookup_slot root index s = Some r" "case r of None \<Rightarrow> contents_in root s index = 0
    | Some sl \<Rightarrow> map_option radix_tree_direct_to_ptr (slot_value root s sl) = Some (contents_in root s index) \<and> contents_in root s index \<noteq> 0"
    using lookup_slot_ok [OF ok, of index] by blast
  then show ?thesis using lookup_contents [OF ok, of index] by (intro exI [of _ r]) (cases r; auto)
qed

theorem radix_tree_lookup_slot_holds_witness:
  "\<exists>root s slot. rt_inv rt_kit rt_uses {} root s \<and> radix_tree_lookup_slot root 70 s = Some (Some slot) \<and>
     map_option radix_tree_direct_to_ptr (slot_value root s slot) = Some 0x1000"
proof -
  obtain root s where r: "rt_inv rt_kit rt_uses {} root s" "radix_tree_lookup root 70 s = Some 0x1000" using rt_filled by blast
  obtain slot where "radix_tree_lookup_slot root 70 s = Some (Some slot)"
    "radix_tree_lookup root 70 s = map_option radix_tree_direct_to_ptr (slot_value root s slot)"
    using radix_tree_lookup_slot_holds [OF r(1), of 70] r(2) by (auto split: option.splits)
  then show ?thesis using r by (intro exI [of _ root] exI [of _ s] exI [of _ slot]) simp
qed




end
