(* ===== verification/Spec2Isabelle.thy ===== *)
theory Spec2Isabelle
  imports Page_Alloc Irq Resources Pci Evdev Sk_Filter Usb_Storage Wait Resource_Region Bitmap Radix_Map
begin

text \<open>
  Verification library for DDE Linux 2.6, the device driver environment that runs drivers of Linux 2.6.20 on a
  host operating system.

  \<^bold>\<open>The program.\<close>  The environment has two layers.  \<open>src/lib/dde_linux26/arch/dde_kit\<close> implements the
  services of the Linux kernel (heap, pages, threads, timers, softirqs, interrupts, I/O resources, PCI
  configuration space, input and block devices for the host) on top of the DDE kit, a library of the host that is
  not part of the repository.  \<open>src/linux26\<close> and the other directories of \<open>src/lib/dde_linux26\<close> hold donor
  code of the Linux kernel, partly changed, that uses these services.  Drivers and host clients sit on both.

  \<^bold>\<open>Conventions.\<close>  A C function is a HOL function over an explicit state record; the records extend each other
  in the order in which the components are built.  \<open>None\<close> is a fault: a dereference of a null or dangling
  pointer, an access outside an array, \<open>BUG()\<close>, or a loop that does not end.  Error codes are ordinary
  results.  Integers have the width of the 32-bit x86 target and wrap; \<open>int\<close> stands for C's \<open>int\<close> where the
  values are error codes or stay small.  The configuration is that of the environment's own \<open>autoconf.h\<close>
  (\<open>CONFIG_SMP\<close>, 100 jiffies per second, 32-bit resource addresses).  The DDE kit is a record of functions over
  a state of its own that is never inspected; what the code relies on are named hypotheses such as \<open>kit_tls\<close>
  or \<open>kit_preserves\<close>, and \<open>sim_kit\<close> is a small concrete kit on which the witnesses evaluate.  Code pointers of
  drivers and handlers are parameters in the same way.

  \<^bold>\<open>Theories.\<close>
  \<^item> \<open>DDE_Prelude\<close>: machine types, byte memory, shared facts on words and lists.  \<open>DDE_Kit\<close>: the host interface.
  \<^item> \<open>Kmem\<close>: \<open>kmem_cache.c\<close> and \<open>kmalloc.c\<close>.  The heap invariant is established by the initialisation and kept;
    \<open>kfree\<close> gives a block back to where it came from; the contract is the locale \<open>kernel_heap\<close>, interpreted as
    \<open>kheap\<close>, on which the clients rest.
  \<^item> \<open>Page_Alloc\<close>: \<open>page_alloc.c\<close>, the page cache and coherent DMA memory.
  \<^item> \<open>Process\<close>: \<open>process.c\<close> and \<open>vmalloc.c\<close>, threads as Linux processes.
  \<^item> \<open>Irq_Flags\<close>, \<open>Timer_Sched\<close>, \<open>Softirq\<close>, \<open>Irq\<close>: \<open>cli_sti.c\<close>, \<open>timer.c\<close> and \<open>sched.c\<close>, \<open>softirq.c\<close>, \<open>irq.c\<close>.
    A pass over a tasklet queue refines a list specification, tasklets run exactly once, an interrupt runs all
    its handlers, and registration keeps the list structure.
  \<^item> \<open>Wait\<close>: \<open>kernel/wait.c\<close>, the wake-up part of \<open>kernel/sched.c\<close> and completions, as sequential operations
    and as a transition system over any number of threads that the operations implement; every waiter returns.
  \<^item> \<open>Resources\<close>: \<open>res.c\<close>.  \<open>Pci\<close>: \<open>pci.c\<close>, \<open>drivers/pci/access.c\<close> and the base address registers of
    \<open>drivers/pci/probe.c\<close>.
  \<^item> \<open>Resource_Tree\<close>, \<open>Resource_Insert\<close>, \<open>Resource_Region\<close>: the tree of \<open>struct resource\<close> of
    \<open>kernel/resource.c\<close> as a pointer structure.  \<open>res_tree\<close> is its well-formedness: sibling lists are ordered,
    disjoint and inside their parents.  Every operation ends, keeps it, and does what it promises.
  \<^item> \<open>Input\<close>, \<open>Evdev\<close>: \<open>drivers/input/input.c\<close> and the host's event devices in \<open>evdev.c\<close>.
  \<^item> \<open>Skb\<close>, \<open>Sk_Filter\<close>: \<open>net/core/skbuff.c\<close> (copying and storing through fragmented buffers, against the flat
    list of bytes) and the packet filter machine of \<open>net/core/filter.c\<close> (accepted programs always end).
  \<^item> \<open>Usb_Storage\<close>: \<open>usb_storage.c\<close> and \<open>scsi.c\<close>.
  \<^item> \<open>Bit_Search\<close>, \<open>Bitmap\<close>: \<open>lib/find_next_bit.c\<close>, \<open>asm/bitops.h\<close> and \<open>lib/bitmap.c\<close>, against the sequence of
    the bits of an array.  What users of a search rely on is the locale \<open>bit_search\<close>, interpreted for set and for
    clear bits.
  \<^item> \<open>Radix_Tree\<close>, \<open>Radix_Inv\<close>, \<open>Radix_Insert\<close>, \<open>Radix_Tags\<close>, \<open>Radix_Delete\<close>, \<open>Radix_Map\<close>: \<open>lib/radix-tree.c\<close>.
    \<open>Radix_Tree\<close> has the code on a store of nodes, \<open>Radix_Inv\<close> the invariant of trees in the store; the next three
    show what insertion, tags and deletion do to the items, the tags and the nodes of a tree, and that they touch no
    other tree; \<open>Radix_Map\<close> has the interface of a map from indices to items (a locale), its interpretation on the
    radix tree and the properties, and what the preloaded pool of nodes covers.  The slab of nodes is a parameter:
    \<open>slab_serves\<close> says that an object it hands out is aligned and not in use.

  \<^bold>\<open>Loops and fuel.\<close>  Loops over counters and lists are structural recursions.  Loops over pointer chains are
  \<open>partial_function (option)\<close>, and each property states that they return.  The interpreter of the packet filter
  has fuel, of which the length of the program is enough.

  \<^bold>\<open>Not modelled.\<close>  Output of \<open>printk\<close>; \<open>/proc\<close> and \<open>sysfs\<close>; the bodies that only report that they are
  unimplemented; start-up code that runs what the linker collects; the drivers themselves (USB, network, audio,
  graphics, wireless), whose behaviour is that of their hardware; the C++ glue to the host's sessions; the
  donor libraries that the modelled components do not use.
\<close>

end
